(* ===== verification/Prelude.thy ===== *)
theory Prelude
  imports Main "HOL-Library.Word" "HOL-Library.Sublist"
begin

text \<open>
  Shared vocabulary of the development: the byte and integer types of the program, the parts of
  the Rust standard library that the modelled code calls (subrange searches, ASCII predicates,
  saturating arithmetic, UTF-8 validation), the interface of the \<open>memchr\<close> crate, and the generic
  lemmas on lists, options and words that the component theories share.

  A byte is an Isabelle \<^typ>\<open>char\<close> (a character has exactly 256 values), so byte strings are
  written as HOL strings; lengths and indices (\<open>usize\<close>) are \<^typ>\<open>nat\<close> unless the code depends on
  their width, in which case they are 64-bit words.
\<close>

unbundle bit_operations_syntax

section \<open>Types\<close>

type_synonym byte = char
type_synonym bytes = "char list"
type_synonym u8 = "8 word"
type_synonym u16 = "16 word"
type_synonym u32 = "32 word"
type_synonym u64 = "64 word"
type_synonym usize = "64 word"

abbreviation CR :: byte where "CR \<equiv> CHR 0x0D"
abbreviation LF :: byte where "LF \<equiv> CHR 0x0A"
abbreviation TAB :: byte where "TAB \<equiv> CHR 0x09"
abbreviation SP :: byte where "SP \<equiv> CHR '' ''"
abbreviation DOT :: byte where "DOT \<equiv> CHR ''.''"
abbreviation CRLF :: bytes where "CRLF \<equiv> [CR, LF]"

abbreviation byte_val :: "byte \<Rightarrow> nat" where "byte_val c \<equiv> of_char c"

section \<open>Results\<close>

text \<open>Rust's \<open>Result<T, E>\<close> is \<open>'e + 'a\<close> with \<open>Inl\<close> the error.\<close>

abbreviation Ok :: "'a \<Rightarrow> 'e + 'a" where "Ok \<equiv> Inr"
abbreviation Err :: "'e \<Rightarrow> 'e + 'a" where "Err \<equiv> Inl"

definition and_then :: "'e + 'a \<Rightarrow> ('a \<Rightarrow> 'e + 'b) \<Rightarrow> 'e + 'b" where
  "and_then r f = (case r of Inl e \<Rightarrow> Inl e | Inr x \<Rightarrow> f x)"

lemma and_then_simps [simp]:
  "and_then (Inl e) f = Inl e"
  "and_then (Inr x) f = f x"
  by (simp_all add: and_then_def)

lemma and_then_Inr_iff:
  "and_then r f = Inr y \<longleftrightarrow> (\<exists>x. r = Inr x \<and> f x = Inr y)"
  by (cases r) auto

section \<open>Slices\<close>

text \<open>\<open>iter().position(p)\<close> and \<open>iter().rposition(p)\<close>.\<close>

fun position :: "('a \<Rightarrow> bool) \<Rightarrow> 'a list \<Rightarrow> nat option" where
  "position P [] = None"
| "position P (x # xs) = (if P x then Some 0 else map_option Suc (position P xs))"

definition rposition :: "('a \<Rightarrow> bool) \<Rightarrow> 'a list \<Rightarrow> nat option" where
  "rposition P xs = map_option (\<lambda>i. length xs - 1 - i) (position P (rev xs))"

text \<open>\<open>&xs[a..b]\<close> for indices that are in range.\<close>

definition subrange :: "nat \<Rightarrow> nat \<Rightarrow> 'a list \<Rightarrow> 'a list" where
  "subrange a b xs = take (b - a) (drop a xs)"

text \<open>\<open>copy_within\<close> and \<open>copy_from_slice\<close> on a slice.\<close>

definition copy_within :: "nat \<Rightarrow> nat \<Rightarrow> nat \<Rightarrow> 'a list \<Rightarrow> 'a list" where
  "copy_within a b dest xs = take dest xs @ subrange a b xs @ drop (dest + (b - a)) xs"

definition copy_into :: "nat \<Rightarrow> 'a list \<Rightarrow> 'a list \<Rightarrow> 'a list" where
  "copy_into at src xs = take at xs @ src @ drop (at + length src) xs"

lemma position_None_iff: "position P xs = None \<longleftrightarrow> (\<forall>x \<in> set xs. \<not> P x)"
  by (induction xs) auto

lemma position_Some_iff:
  "position P xs = Some i \<longleftrightarrow>
     i < length xs \<and> P (xs ! i) \<and> (\<forall>j < i. \<not> P (xs ! j))"
proof (induction xs arbitrary: i)
  case (Cons x xs)
  then show ?case
    by (cases i) (auto simp: less_Suc_eq_0_disj)
qed simp

lemma position_SomeD:
  assumes "position P xs = Some i"
  shows "i < length xs" and "P (xs ! i)" and "\<And>x. x \<in> set (take i xs) \<Longrightarrow> \<not> P x"
  using assms by (auto simp: position_Some_iff in_set_conv_nth)

lemma position_append:
  "position P (xs @ ys) =
     (case position P xs of Some i \<Rightarrow> Some i
      | None \<Rightarrow> map_option (\<lambda>i. length xs + i) (position P ys))"
proof (induction xs)
  case Nil
  then show ?case by (cases "position P ys") simp_all
next
  case (Cons x xs)
  then show ?case by (cases "position P ys") (auto split: option.splits)
qed

lemma position_append_hit [simp]:
  "(\<And>x. x \<in> set xs \<Longrightarrow> \<not> P x) \<Longrightarrow> P y \<Longrightarrow> position P (xs @ y # ys) = Some (length xs)"
  by (induction xs) auto

lemma subrange_length: "length (subrange a b xs) = min (b - a) (length xs - a)"
  by (simp add: subrange_def)

lemma subrange_append_drop: "a \<le> b \<Longrightarrow> b \<le> length xs \<Longrightarrow> subrange a b xs @ drop b xs = drop a xs"
  by (simp add: subrange_def flip: drop_drop) (metis append_take_drop_id drop_drop le_add_diff_inverse2)

lemma take_append_subrange: "a \<le> b \<Longrightarrow> take a xs @ subrange a b xs = take b xs"
  by (simp add: subrange_def take_add [symmetric])

section \<open>ASCII predicates of \<open>u8\<close>\<close>

definition is_ascii_whitespace :: "byte \<Rightarrow> bool" where
  "is_ascii_whitespace c \<longleftrightarrow> c = SP \<or> c = TAB \<or> c = LF \<or> c = CHR 0x0C \<or> c = CR"

definition is_ascii_digit :: "byte \<Rightarrow> bool" where
  "is_ascii_digit c \<longleftrightarrow> 48 \<le> byte_val c \<and> byte_val c \<le> 57"

definition to_ascii_lowercase :: "byte \<Rightarrow> byte" where
  "to_ascii_lowercase c =
     (if 65 \<le> byte_val c \<and> byte_val c \<le> 90 then char_of (byte_val c + 32) else c)"

definition eq_ignore_ascii_case :: "bytes \<Rightarrow> bytes \<Rightarrow> bool" where
  "eq_ignore_ascii_case xs ys \<longleftrightarrow> map to_ascii_lowercase xs = map to_ascii_lowercase ys"

section \<open>Saturating and checked arithmetic\<close>

definition saturating_sub :: "'a::len word \<Rightarrow> 'a word \<Rightarrow> 'a word" where
  "saturating_sub a b = (if a < b then 0 else a - b)"

definition saturating_mul :: "'a::len word \<Rightarrow> 'a word \<Rightarrow> 'a word" where
  "saturating_mul a b =
     (if unat a * unat b < 2 ^ LENGTH('a) then a * b else - 1)"

definition saturating_add :: "'a::len word \<Rightarrow> 'a word \<Rightarrow> 'a word" where
  "saturating_add a b =
     (if unat a + unat b < 2 ^ LENGTH('a) then a + b else - 1)"

lemma unat_minus_one_max: "unat (- 1 :: 'a::len word) = 2 ^ LENGTH('a) - 1"
  by (simp add: unsigned_minus_1_eq_mask mask_eq_exp_minus_1)

lemma unat_saturating_sub: "unat (saturating_sub a b) = unat a - unat b"
  by (simp add: saturating_sub_def unat_sub_if' word_less_nat_alt not_less)

lemma unat_saturating_mul:
  "unat (saturating_mul a b) = min (unat a * unat b) (2 ^ LENGTH('a) - 1)"
  for a b :: "'a::len word"
proof (cases "unat a * unat b < 2 ^ LENGTH('a)")
  case True
  then have "unat a * unat b \<le> 2 ^ LENGTH('a) - 1" by linarith
  with True show ?thesis
    by (simp add: saturating_mul_def unat_mult_lem [THEN iffD1])
next
  case False
  then have "2 ^ LENGTH('a) - 1 \<le> unat a * unat b" by linarith
  with False show ?thesis
    by (simp add: saturating_mul_def unat_minus_one_max)
qed

lemma unat_saturating_add:
  "unat (saturating_add a b) = min (unat a + unat b) (2 ^ LENGTH('a) - 1)"
  for a b :: "'a::len word"
proof (cases "unat a + unat b < 2 ^ LENGTH('a)")
  case True
  then have "unat a + unat b \<le> 2 ^ LENGTH('a) - 1" by linarith
  with True show ?thesis
    by (simp add: saturating_add_def unat_add_lem [THEN iffD1])
next
  case False
  then have "2 ^ LENGTH('a) - 1 \<le> unat a + unat b" by linarith
  with False show ?thesis
    by (simp add: saturating_add_def unat_minus_one_max)
qed

section \<open>UTF-8 validation\<close>

text \<open>
  \<open>std::str::from_utf8\<close>: the well-formed byte sequences of the Unicode standard (no overlong
  forms, no surrogates, nothing above U+10FFFF). A \<open>&str\<close> is represented by its bytes.
\<close>

definition utf8_cont :: "byte \<Rightarrow> bool" where
  "utf8_cont c \<longleftrightarrow> 128 \<le> byte_val c \<and> byte_val c \<le> 191"

fun utf8_valid :: "bytes \<Rightarrow> bool" where
  "utf8_valid [] = True"
| "utf8_valid (a # xs) =
     (let v = byte_val a in
      if v < 128 then utf8_valid xs
      else if 194 \<le> v \<and> v \<le> 223 then
        (case xs of b # ys \<Rightarrow> utf8_cont b \<and> utf8_valid ys | _ \<Rightarrow> False)
      else if 224 \<le> v \<and> v \<le> 239 then
        (case xs of b # c # ys \<Rightarrow>
           utf8_cont b \<and> (v = 224 \<longrightarrow> 160 \<le> byte_val b) \<and> (v = 237 \<longrightarrow> byte_val b \<le> 159)
           \<and> utf8_cont c \<and> utf8_valid ys
         | _ \<Rightarrow> False)
      else if 240 \<le> v \<and> v \<le> 244 then
        (case xs of b # c # d # ys \<Rightarrow>
           utf8_cont b \<and> (v = 240 \<longrightarrow> 144 \<le> byte_val b) \<and> (v = 244 \<longrightarrow> byte_val b \<le> 143)
           \<and> utf8_cont c \<and> utf8_cont d \<and> utf8_valid ys
         | _ \<Rightarrow> False)
      else False)"

definition from_utf8 :: "bytes \<Rightarrow> bytes option" where
  "from_utf8 bs = (if utf8_valid bs then Some bs else None)"

lemma of_char_less_256 [simp]: "byte_val c < 256"
  by (cases c) simp

lemma utf8_valid_ascii: "(\<And>c. c \<in> set bs \<Longrightarrow> byte_val c < 128) \<Longrightarrow> utf8_valid bs"
  by (induction bs) auto

text \<open>
  \<open>str::trim\<close> removes leading and trailing characters with the Unicode property
  \<open>White_Space\<close>; these are their UTF-8 encodings.
\<close>

definition unicode_ws :: "bytes list" where
  "unicode_ws =
     [[TAB], [LF], [CHR 0x0B], [CHR 0x0C], [CR], [SP], [CHR 0xC2, CHR 0x85], [CHR 0xC2, CHR 0xA0],
      [CHR 0xE1, CHR 0x9A, CHR 0x80], [CHR 0xE2, CHR 0x80, CHR 0x80], [CHR 0xE2, CHR 0x80, CHR 0x81],
      [CHR 0xE2, CHR 0x80, CHR 0x82], [CHR 0xE2, CHR 0x80, CHR 0x83], [CHR 0xE2, CHR 0x80, CHR 0x84],
      [CHR 0xE2, CHR 0x80, CHR 0x85], [CHR 0xE2, CHR 0x80, CHR 0x86], [CHR 0xE2, CHR 0x80, CHR 0x87],
      [CHR 0xE2, CHR 0x80, CHR 0x88], [CHR 0xE2, CHR 0x80, CHR 0x89], [CHR 0xE2, CHR 0x80, CHR 0x8A],
      [CHR 0xE2, CHR 0x80, CHR 0xA8], [CHR 0xE2, CHR 0x80, CHR 0xA9], [CHR 0xE2, CHR 0x80, CHR 0xAF],
      [CHR 0xE2, CHR 0x81, CHR 0x9F], [CHR 0xE3, CHR 0x80, CHR 0x80]]"

text \<open>Drop leading occurrences of the (non-empty) patterns \<open>ps\<close>.\<close>

function strip_leading :: "'a list list \<Rightarrow> 'a list \<Rightarrow> 'a list" where
  "strip_leading ps xs =
     (case find (\<lambda>p. p \<noteq> [] \<and> prefix p xs) ps of
        None \<Rightarrow> xs | Some p \<Rightarrow> strip_leading ps (drop (length p) xs))"
  by pat_completeness auto
termination
proof (relation "measure (\<lambda>(ps, xs). length xs)", goal_cases)
  case (2 ps xs p)
  then have "p \<noteq> [] \<and> prefix p xs" by (auto simp: find_Some_iff)
  then show ?case by (cases p; cases xs) auto
qed simp

declare strip_leading.simps [simp del]

definition str_trim :: "bytes \<Rightarrow> bytes" where
  "str_trim s = rev (strip_leading (map rev unicode_ws) (rev (strip_leading unicode_ws s)))"

lemma strip_leading_idem [simp]: "strip_leading ps (strip_leading ps xs) = strip_leading ps xs"
proof (induction ps xs rule: strip_leading.induct)
  case (1 ps xs)
  show ?case
  proof (cases "find (\<lambda>p. p \<noteq> [] \<and> prefix p xs) ps")
    case None
    then show ?thesis by (simp add: strip_leading.simps [of ps xs])
  next
    case (Some p)
    with 1 [OF Some] show ?thesis by (simp add: strip_leading.simps [of ps xs])
  qed
qed

lemma strip_leading_suffix: "suffix (strip_leading ps xs) xs"
proof (induction ps xs rule: strip_leading.induct)
  case (1 ps xs)
  show ?case
  proof (cases "find (\<lambda>p. p \<noteq> [] \<and> prefix p xs) ps")
    case None
    then show ?thesis by (simp add: strip_leading.simps [of ps xs])
  next
    case (Some p)
    with 1 [OF Some] show ?thesis
      by (simp add: strip_leading.simps [of ps xs]) (meson suffix_drop suffix_order.trans)
  qed
qed

lemma strip_leading_fix_iff:
  "strip_leading ps xs = xs \<longleftrightarrow> (\<forall>p \<in> set ps. p \<noteq> [] \<longrightarrow> \<not> prefix p xs)"
proof (cases "find (\<lambda>p. p \<noteq> [] \<and> prefix p xs) ps")
  case None
  then have "\<forall>p \<in> set ps. p \<noteq> [] \<longrightarrow> \<not> prefix p xs" by (auto simp: find_None_iff)
  with None show ?thesis by (simp add: strip_leading.simps [of ps xs])
next
  case (Some p)
  then have p: "p \<in> set ps" "p \<noteq> []" "prefix p xs" by (auto simp: find_Some_iff in_set_conv_nth)
  have "length (strip_leading ps (drop (length p) xs)) \<le> length xs - length p"
    using suffix_length_le [OF strip_leading_suffix] by (metis length_drop)
  also have "\<dots> < length xs" using p(2) prefix_length_le [OF p(3)]
    by (meson diff_less length_greater_0_conv order_less_le_trans)
  finally have "strip_leading ps xs \<noteq> xs" using Some by (auto simp: strip_leading.simps [of ps xs])
  with p show ?thesis by auto
qed

lemma str_trim_idem [simp]: "str_trim (str_trim s) = str_trim s"
proof -
  let ?t = "strip_leading unicode_ws s"
  let ?u = "str_trim s"
  have "suffix (rev ?u) (rev ?t)" unfolding str_trim_def rev_rev_ident by (rule strip_leading_suffix)
  then have "prefix ?u ?t" by (simp add: suffix_to_prefix)
  moreover have "strip_leading unicode_ws ?t = ?t" by simp
  ultimately have "strip_leading unicode_ws ?u = ?u"
    unfolding strip_leading_fix_iff by (meson prefix_order.trans)
  moreover have "strip_leading (map rev unicode_ws) (rev ?u) = rev ?u" by (simp add: str_trim_def)
  ultimately show ?thesis by (simp add: str_trim_def [of ?u])
qed

section \<open>Substring search\<close>

text \<open>\<open>find_sub n h\<close> is the position of the first occurrence of \<open>n\<close> in \<open>h\<close>.\<close>

fun find_sub :: "'a list \<Rightarrow> 'a list \<Rightarrow> nat option" where
  "find_sub n [] = (if n = [] then Some 0 else None)"
| "find_sub n (x # xs) = (if prefix n (x # xs) then Some 0 else map_option Suc (find_sub n xs))"

lemma find_sub_Some_iff:
  "find_sub n h = Some i \<longleftrightarrow>
     i \<le> length h \<and> prefix n (drop i h) \<and> (\<forall>j < i. \<not> prefix n (drop j h))"
proof (induction h arbitrary: i)
  case (Cons x h)
  then show ?case
    by (cases i) (auto simp: less_Suc_eq_0_disj)
qed (auto simp: less_Suc_eq_0_disj)

lemma find_sub_NoneD: "find_sub n h = None \<Longrightarrow> \<not> prefix n (drop j h)"
proof (induction h arbitrary: j)
  case (Cons x h)
  then show ?case by (cases j) (auto split: if_splits)
qed (auto split: if_splits)

lemma find_sub_None_iff: "find_sub n h = None \<longleftrightarrow> (\<forall>j \<le> length h. \<not> prefix n (drop j h))"
proof (cases "find_sub n h")
  case None
  then show ?thesis by (simp add: find_sub_NoneD)
next
  case (Some i)
  then have "i \<le> length h \<and> prefix n (drop i h)" by (simp add: find_sub_Some_iff)
  with Some show ?thesis by auto
qed

lemma find_sub_bound: "find_sub n h = Some i \<Longrightarrow> i + length n \<le> length h"
  by (auto simp: find_sub_Some_iff dest!: prefix_length_le)

text \<open>The non-overlapping occurrences, left to right.\<close>

function find_iter_sub :: "'a list \<Rightarrow> 'a list \<Rightarrow> nat list" where
  "find_iter_sub n h =
     (if n = [] then [] else
      case find_sub n h of None \<Rightarrow> []
      | Some i \<Rightarrow> i # map (\<lambda>j. i + length n + j) (find_iter_sub n (drop (i + length n) h)))"
  by pat_completeness auto
termination
  by (relation "measure (\<lambda>(n, h). length h)") (auto dest!: find_sub_bound simp flip: length_greater_0_conv)

declare find_iter_sub.simps [simp del]

section \<open>The \<open>memchr\<close> crate\<close>

text \<open>
  The program searches bytes with the third-party crate \<open>memchr\<close>. Its functions are a parameter of
  the model: a record that the definitions take as an argument. The laws state the crate's
  documentation: \<open>memchr\<close> and \<open>memchr2\<close> return the index of the first matching byte, \<open>memmem::find\<close>
  the index of the first occurrence of a substring, and \<open>find_iter\<close> the non-overlapping occurrences
  from left to right.
\<close>

record memchr_api =
  memchr :: "byte \<Rightarrow> bytes \<Rightarrow> nat option"
  memchr2 :: "byte \<Rightarrow> byte \<Rightarrow> bytes \<Rightarrow> nat option"
  memmem_find :: "bytes \<Rightarrow> bytes \<Rightarrow> nat option"
  memmem_find_iter :: "bytes \<Rightarrow> bytes \<Rightarrow> nat list"

locale memchr_lib =
  fixes M :: memchr_api
  assumes memchr_Some:
      "memchr M b h = Some i \<Longrightarrow> i < length h \<and> h ! i = b \<and> (\<forall>j < i. h ! j \<noteq> b)"
    and memchr_None: "memchr M b h = None \<Longrightarrow> b \<notin> set h"
    and memchr2_Some:
      "memchr2 M a b h = Some i \<Longrightarrow>
         i < length h \<and> h ! i \<in> {a, b} \<and> (\<forall>j < i. h ! j \<notin> {a, b})"
    and memchr2_None: "memchr2 M a b h = None \<Longrightarrow> a \<notin> set h \<and> b \<notin> set h"
    and memmem_Some:
      "n \<noteq> [] \<Longrightarrow> memmem_find M n h = Some i \<Longrightarrow>
         i \<le> length h \<and> prefix n (drop i h) \<and> (\<forall>j < i. \<not> prefix n (drop j h))"
    and memmem_None:
      "n \<noteq> [] \<Longrightarrow> memmem_find M n h = None \<Longrightarrow> \<forall>j \<le> length h. \<not> prefix n (drop j h)"
    and memmem_iter:
      "n \<noteq> [] \<Longrightarrow> memmem_find_iter M n h =
         (case memmem_find M n h of None \<Rightarrow> []
          | Some i \<Rightarrow> i # map (\<lambda>j. i + length n + j)
                               (memmem_find_iter M n (drop (i + length n) h)))"
begin

text \<open>The laws determine the functions: each one is the executable search of this theory.\<close>

lemma memchr_eq [simp]: "memchr M b h = position (\<lambda>c. c = b) h"
proof (cases "memchr M b h")
  case None
  then have "position (\<lambda>c. c = b) h = None"
    using memchr_None by (auto simp: position_None_iff)
  with None show ?thesis by simp
next
  case (Some i)
  then have "position (\<lambda>c. c = b) h = Some i"
    using memchr_Some by (auto simp: position_Some_iff)
  with Some show ?thesis by simp
qed

lemma memchr2_eq [simp]: "memchr2 M a b h = position (\<lambda>c. c = a \<or> c = b) h"
proof (cases "memchr2 M a b h")
  case None
  then have "position (\<lambda>c. c = a \<or> c = b) h = None"
    using memchr2_None by (auto simp: position_None_iff)
  with None show ?thesis by simp
next
  case (Some i)
  then have "position (\<lambda>c. c = a \<or> c = b) h = Some i"
    using memchr2_Some by (fastforce simp: position_Some_iff)
  with Some show ?thesis by simp
qed

lemma memmem_find_eq [simp]:
  assumes "n \<noteq> []"
  shows "memmem_find M n h = find_sub n h"
proof (cases "memmem_find M n h")
  case None
  then have "find_sub n h = None"
    using memmem_None assms by (simp add: find_sub_None_iff)
  with None show ?thesis by simp
next
  case (Some i)
  then have "find_sub n h = Some i"
    using memmem_Some [OF assms Some] by (simp add: find_sub_Some_iff)
  with Some show ?thesis by simp
qed

lemma memmem_find_iter_eq [simp]:
  assumes "n \<noteq> []"
  shows "memmem_find_iter M n h = find_iter_sub n h"
proof (induction h rule: length_induct)
  case (1 h)
  show ?case
  proof (cases "find_sub n h")
    case None
    with assms show ?thesis by (simp add: memmem_iter find_iter_sub.simps [of n h])
  next
    case (Some i)
    then have "length (drop (i + length n) h) < length h"
      using assms find_sub_bound [OF Some] by (cases n) auto
    with 1 have "memmem_find_iter M n (drop (i + length n) h) =
        find_iter_sub n (drop (i + length n) h)" by blast
    with Some assms show ?thesis by (simp add: memmem_iter [of n h] find_iter_sub.simps [of n h])
  qed
qed

end

text \<open>The laws are satisfiable: the executable searches satisfy them.\<close>

definition memchr_ref :: memchr_api where
  "memchr_ref = \<lparr>memchr = (\<lambda>b. position (\<lambda>c. c = b)),
                 memchr2 = (\<lambda>a b. position (\<lambda>c. c = a \<or> c = b)),
                 memmem_find = find_sub,
                 memmem_find_iter = find_iter_sub\<rparr>"

lemma memchr_ref_simps [simp]:
  "memchr memchr_ref b h = position (\<lambda>c. c = b) h"
  "memchr2 memchr_ref a b h = position (\<lambda>c. c = a \<or> c = b) h"
  "memmem_find memchr_ref n h = find_sub n h"
  "memmem_find_iter memchr_ref n h = find_iter_sub n h"
  by (simp_all add: memchr_ref_def)

interpretation memchr_ref: memchr_lib memchr_ref
proof (unfold_locales, goal_cases)
  case (3 a b h i)
  then show ?case by (auto simp: position_Some_iff)
next
  case (7 n h)
  then show ?case
    by (cases "find_sub n h") (simp_all add: find_iter_sub.simps [of n h])
qed (auto simp: position_Some_iff position_None_iff find_sub_Some_iff find_sub_NoneD)

end
