(* ===== verification/Status.thy ===== *)
theory Status
  imports Prelude
begin

text \<open>
  NNTP status codes and single-line responses: \<open>src/src/protocol/codes.rs\<close>,
  \<open>src/src/protocol/response.rs\<close> and \<open>src/src/protocol/responses.rs\<close>. A \<open>StatusCode\<close> wraps a
  \<open>u16\<close> kept at its width; \<open>parse\<close> reads the three leading digits with the wrapping byte
  subtraction of the code.
\<close>

section \<open>Status codes\<close>

datatype StatusCode = StatusCode (into_inner: u16)

definition STATUS_MIN :: u16 where "STATUS_MIN = 100"
definition STATUS_MAX :: u16 where "STATUS_MAX = 599"

definition try_new :: "u16 \<Rightarrow> StatusCode option" where
  "try_new v = (if STATUS_MIN \<le> v \<and> v \<le> STATUS_MAX then Some (StatusCode v) else None)"

definition is_success :: "StatusCode \<Rightarrow> bool" where
  "is_success s \<longleftrightarrow> 200 \<le> into_inner s \<and> into_inner s < 400"

definition is_error :: "StatusCode \<Rightarrow> bool" where
  "is_error s \<longleftrightarrow> 400 \<le> into_inner s \<and> into_inner s < 600"

definition is_continuation :: "StatusCode \<Rightarrow> bool" where
  "is_continuation s \<longleftrightarrow> 300 \<le> into_inner s \<and> into_inner s < 400"

definition is_informational :: "StatusCode \<Rightarrow> bool" where
  "is_informational s \<longleftrightarrow> 100 \<le> into_inner s \<and> into_inner s < 200"

definition is_greeting :: "StatusCode \<Rightarrow> bool" where
  "is_greeting s \<longleftrightarrow> into_inner s \<in> {200, 201}"

definition requires_auth_credentials :: "StatusCode \<Rightarrow> bool" where
  "requires_auth_credentials s \<longleftrightarrow> into_inner s \<in> {381, 480}"

definition is_auth_accepted :: "StatusCode \<Rightarrow> bool" where
  "is_auth_accepted s \<longleftrightarrow> into_inner s = 281"

definition is_article_missing :: "StatusCode \<Rightarrow> bool" where
  "is_article_missing s \<longleftrightarrow> into_inner s = 430"

text \<open>\<open>data[i].wrapping_sub(b'0')\<close>\<close>

definition digit_of :: "byte \<Rightarrow> u8" where
  "digit_of c = of_char c - 48"

text \<open>The digit combination that \<open>StatusCode::parse\<close> and \<open>wire_status\<close> share.\<close>

definition combine_digits :: "u8 \<Rightarrow> u8 \<Rightarrow> u8 \<Rightarrow> u16" where
  "combine_digits d0 d1 d2 = ucast d0 * 100 + ucast d1 * 10 + ucast d2"

definition status_parse :: "bytes \<Rightarrow> StatusCode option" where
  "status_parse data =
     (if length data < 3 then None
      else let d0 = digit_of (data ! 0); d1 = digit_of (data ! 1); d2 = digit_of (data ! 2)
           in if d0 > 9 \<or> d1 > 9 \<or> d2 > 9 then None
              else try_new (combine_digits d0 d1 d2))"

text \<open>The invariant that the private field of \<open>StatusCode\<close> protects.\<close>

definition status_ok :: "StatusCode \<Rightarrow> bool" where
  "status_ok s \<longleftrightarrow> STATUS_MIN \<le> into_inner s \<and> into_inner s \<le> STATUS_MAX"

lemma try_new_ok: "try_new v = Some s \<Longrightarrow> status_ok s \<and> into_inner s = v"
  by (auto simp: try_new_def status_ok_def split: if_splits)

lemma status_parse_ok: "status_parse data = Some s \<Longrightarrow> status_ok s"
  by (auto simp: status_parse_def Let_def split: if_splits dest: try_new_ok)

lemma unat_digit_of:
  "unat (digit_of c) = (if byte_val c < 48 then byte_val c + 208 else byte_val c - 48)"
proof -
  have "(208 :: u8) = - 48" by simp
  then have "digit_of c = of_nat (byte_val c) + 208"
    by (simp only: digit_of_def of_nat_of_char) simp
  then have "digit_of c = of_nat (byte_val c + 208)"
    by (simp only: of_nat_add of_nat_numeral)
  then have *: "unat (digit_of c) = (byte_val c + 208) mod 256"
    by (simp only: unat_of_nat) simp
  show ?thesis
  proof (cases "byte_val c < 48")
    case False
    then have "byte_val c + 208 = (byte_val c - 48) + 256" by simp
    then have "(byte_val c + 208) mod 256 = (byte_val c - 48) mod 256"
      by (metis mod_add_self2)
    also have "\<dots> = byte_val c - 48"
      using of_char_less_256 [of c] by (intro mod_less) linarith
    finally show ?thesis using * False by simp
  qed (simp add: *)
qed

lemma unat_digit_of_le_9: "unat (digit_of c) \<le> 9 \<longleftrightarrow> is_ascii_digit c"
  by (auto simp: unat_digit_of is_ascii_digit_def)

lemma digit_of_gt_9: "digit_of c > 9 \<longleftrightarrow> \<not> is_ascii_digit c"
  by (simp add: word_less_nat_alt unat_digit_of_le_9 [symmetric] not_le)

lemma unat_digit_of_digit: "is_ascii_digit c \<Longrightarrow> unat (digit_of c) = byte_val c - 48"
  by (simp add: unat_digit_of is_ascii_digit_def)

lemma unat_combine_digits:
  assumes "unat d0 \<le> 9" "unat d1 \<le> 9" "unat d2 \<le> 9"
  shows "unat (combine_digits d0 d1 d2) = 100 * unat d0 + 10 * unat d1 + unat d2"
proof -
  have "combine_digits d0 d1 d2 = of_nat (100 * unat d0 + 10 * unat d1 + unat d2)"
    by (simp add: combine_digits_def)
  moreover have "100 * unat d0 + 10 * unat d1 + unat d2 < 2 ^ 16"
    using assms by simp
  ultimately show ?thesis by (simp only: unat_of_nat) simp
qed

lemma three_le_length_iff: "3 \<le> length xs \<longleftrightarrow> (\<exists>a b c r. xs = a # b # c # r)"
  by (auto simp: numeral_3_eq_3 Suc_le_length_iff)

lemma unat_combine_ascii_digits:
  assumes "is_ascii_digit c0" "is_ascii_digit c1" "is_ascii_digit c2"
  shows "unat (combine_digits (digit_of c0) (digit_of c1) (digit_of c2)) =
    100 * (byte_val c0 - 48) + 10 * (byte_val c1 - 48) + (byte_val c2 - 48)"
  using assms [unfolded unat_digit_of_le_9 [symmetric]]
  by (simp only: unat_combine_digits unat_digit_of_digit [OF assms(1)]
      unat_digit_of_digit [OF assms(2)] unat_digit_of_digit [OF assms(3)])

text \<open>
  \<open>StatusCode::parse\<close> accepts a response exactly when it starts with three ASCII digits whose
  decimal value is between 100 and 599, and then returns that value; shorter input, other bytes and
  values outside the NNTP range are rejected.
\<close>

theorem status_parse_spec:
  "status_parse data = Some s \<longleftrightarrow>
     (\<exists>c0 c1 c2 rest. data = c0 # c1 # c2 # rest \<and>
        is_ascii_digit c0 \<and> is_ascii_digit c1 \<and> is_ascii_digit c2 \<and>
        (let n = 100 * (byte_val c0 - 48) + 10 * (byte_val c1 - 48) + (byte_val c2 - 48)
         in 100 \<le> n \<and> n \<le> 599 \<and> unat (into_inner s) = n))"
  (is "?l \<longleftrightarrow> ?r")
proof (cases "\<exists>c0 c1 c2 rest. data = c0 # c1 # c2 # rest")
  case False
  then have "length data < 3"
    by (simp add: three_le_length_iff [symmetric] not_le)
  with False show ?thesis by (auto simp: status_parse_def)
next
  case True
  then obtain c0 c1 c2 rest where d: "data = c0 # c1 # c2 # rest" by blast
  show ?thesis
  proof (cases "is_ascii_digit c0 \<and> is_ascii_digit c1 \<and> is_ascii_digit c2")
    case False
    then show ?thesis by (auto simp: d status_parse_def Let_def digit_of_gt_9)
  next
    case dig: True
    let ?n = "100 * (byte_val c0 - 48) + 10 * (byte_val c1 - 48) + (byte_val c2 - 48)"
    let ?w = "combine_digits (digit_of c0) (digit_of c1) (digit_of c2)"
    have n: "unat ?w = ?n"
      using dig by (simp only: unat_combine_ascii_digits)
    have "status_parse data = try_new ?w"
      using dig by (simp add: d status_parse_def Let_def digit_of_gt_9)
    also have "try_new ?w = Some s \<longleftrightarrow> 100 \<le> ?n \<and> ?n \<le> 599 \<and> unat (into_inner s) = ?n"
      unfolding n [symmetric]
      by (cases s) (auto simp: try_new_def STATUS_MIN_def STATUS_MAX_def word_le_nat_alt
          word_unat_eq_iff)
    finally show ?thesis using dig by (simp add: d Let_def)
  qed
qed

section \<open>Response text\<close>

text \<open>The \<open>Display\<close> of an unsigned integer: its decimal digits.\<close>

fun show_nat :: "nat \<Rightarrow> bytes" where
  "show_nat n =
     (if n < 10 then [char_of (48 + n)] else show_nat (n div 10) @ [char_of (48 + n mod 10)])"

declare show_nat.simps [simp del]

definition response :: "u16 \<Rightarrow> bytes \<Rightarrow> bytes" where
  "response code message = show_nat (unat code) @ [SP] @ message @ CRLF"

lemma show_nat_3:
  assumes "100 \<le> n" "n < 1000"
  shows "show_nat n =
    [char_of (48 + n div 100), char_of (48 + n div 10 mod 10), char_of (48 + n mod 10)]"
proof -
  have "n div 10 div 10 < 10" "\<not> n div 10 < 10" "\<not> n < 10" "n div 10 div 10 = n div 100"
    using assms by auto
  then show ?thesis
    by (simp add: show_nat.simps [of n] show_nat.simps [of "n div 10"]
        show_nat.simps [of "n div 100"])
qed

lemma three_digits: "100 * (n div 100) + 10 * (n div 10 mod 10) + n mod 10 = (n :: nat)"
proof -
  have "n div 100 = n div 10 div 10" by (simp add: div_mult2_eq [symmetric])
  moreover have "10 * (n div 10) + n mod 10 = n" by simp
  moreover have "10 * (n div 10 div 10) + n div 10 mod 10 = n div 10"
    using mult_div_mod_eq [of 10 "n div 10"] by simp
  ultimately show ?thesis by linarith
qed

lemma of_char_digit: "(d :: nat) < 10 \<Longrightarrow> byte_val (char_of (48 + d)) = 48 + d"
  by simp

lemma is_ascii_digit_char_of: "(d :: nat) < 10 \<Longrightarrow> is_ascii_digit (char_of (48 + d))"
  by (simp add: is_ascii_digit_def)

text \<open>
  Round trip of status lines: a response built by \<open>response\<close> from a three-digit code is parsed
  back to that code when it is an NNTP status (100 to 599), and is rejected otherwise, whatever
  the message.
\<close>

theorem status_parse_response:
  assumes "100 \<le> code" "code < 1000"
  shows "status_parse (response code message) = try_new code"
proof -
  let ?n = "unat code"
  have b: "100 \<le> ?n" "?n < 1000" using assms by (auto simp: word_le_nat_alt word_less_nat_alt)
  let ?c0 = "char_of (48 + ?n div 100) :: byte"
  let ?c1 = "char_of (48 + ?n div 10 mod 10) :: byte"
  let ?c2 = "char_of (48 + ?n mod 10) :: byte"
  have dig: "is_ascii_digit ?c0" "is_ascii_digit ?c1" "is_ascii_digit ?c2"
    using b by (auto intro!: is_ascii_digit_char_of)
  have "?n div 100 < 10" using b by simp
  then have "unat (combine_digits (digit_of ?c0) (digit_of ?c1) (digit_of ?c2)) =
      100 * (?n div 100) + 10 * (?n div 10 mod 10) + ?n mod 10"
    using dig by (simp add: unat_combine_ascii_digits)
  also have "\<dots> = ?n" by (rule three_digits)
  finally have "combine_digits (digit_of ?c0) (digit_of ?c1) (digit_of ?c2) = code"
    by (simp add: word_unat_eq_iff)
  then show ?thesis
    using dig b by (simp add: status_parse_def response_def show_nat_3 Let_def digit_of_gt_9)
qed

theorem status_parse_response_witness:
  "(100 :: u16) \<le> 430 \<and> (430 :: u16) < 1000 \<and>
   status_parse (response 430 ''No such article'') = try_new 430"
  using status_parse_response [of 430 "''No such article''"] by simp

section \<open>Local responses\<close>

definition MIN_RESPONSE_LENGTH :: nat where "MIN_RESPONSE_LENGTH = 5"

definition AUTH_REQUIRED :: bytes where
  "AUTH_REQUIRED = ''381 Password required'' @ CRLF"
definition AUTH_ACCEPTED :: bytes where
  "AUTH_ACCEPTED = ''281 Authentication accepted'' @ CRLF"
definition AUTH_FAILED :: bytes where
  "AUTH_FAILED = ''481 Authentication failed'' @ CRLF"
definition AUTH_REQUIRED_FOR_COMMAND :: bytes where
  "AUTH_REQUIRED_FOR_COMMAND = ''480 Authentication required'' @ CRLF"
definition AUTH_OUT_OF_SEQUENCE :: bytes where
  "AUTH_OUT_OF_SEQUENCE = ''482 Authentication commands issued out of sequence'' @ CRLF"
definition AUTH_ALREADY_AUTHENTICATED :: bytes where
  "AUTH_ALREADY_AUTHENTICATED = ''502 Already authenticated'' @ CRLF"
definition AUTH_UNKNOWN_SUBCOMMAND :: bytes where
  "AUTH_UNKNOWN_SUBCOMMAND = ''501 Syntax error in command'' @ CRLF"
definition CONNECTION_CLOSING :: bytes where
  "CONNECTION_CLOSING = ''205 Connection closing'' @ CRLF"
definition BACKEND_ERROR :: bytes where
  "BACKEND_ERROR = ''503 Backend error'' @ CRLF"
definition BACKEND_UNAVAILABLE :: bytes where
  "BACKEND_UNAVAILABLE = ''400 Backend server unavailable'' @ CRLF"
definition COMMAND_TOO_LONG :: bytes where
  "COMMAND_TOO_LONG = ''501 Command too long'' @ CRLF"
definition COMMAND_SYNTAX_ERROR_RESPONSE :: bytes where
  "COMMAND_SYNTAX_ERROR_RESPONSE = ''501 Syntax error in command'' @ CRLF"
definition NO_SUCH_ARTICLE :: bytes where
  "NO_SUCH_ARTICLE = ''430 No such article'' @ CRLF"

lemmas local_responses =
  AUTH_REQUIRED_def AUTH_ACCEPTED_def AUTH_FAILED_def AUTH_REQUIRED_FOR_COMMAND_def
  AUTH_OUT_OF_SEQUENCE_def AUTH_ALREADY_AUTHENTICATED_def AUTH_UNKNOWN_SUBCOMMAND_def
  CONNECTION_CLOSING_def BACKEND_ERROR_def BACKEND_UNAVAILABLE_def COMMAND_TOO_LONG_def
  COMMAND_SYNTAX_ERROR_RESPONSE_def NO_SUCH_ARTICLE_def

end
