(* ===== verification/Types.thy ===== *)
theory Types
  imports Status
begin

text \<open>
  Identifier types of the proxy: backend identifiers (\<open>src/src/types.rs\<close>), validated message IDs
  (\<open>src/src/types/protocol.rs\<close>) and validated user names and passwords
  (\<open>src/src/types/validated.rs\<close>).
\<close>

section \<open>Backend identifiers\<close>

datatype BackendId = BackendId (as_index: nat)

definition MAX_COUNT :: nat where "MAX_COUNT = 64"

definition try_from_index :: "nat \<Rightarrow> BackendId option" where
  "try_from_index index = (if index < MAX_COUNT then Some (BackendId index) else None)"

definition availability_bit :: "BackendId \<Rightarrow> usize" where
  "availability_bit b = push_bit (as_index b) 1"

definition backend_ok :: "BackendId \<Rightarrow> bool" where
  "backend_ok b \<longleftrightarrow> as_index b < MAX_COUNT"

lemma bit_availability_bit:
  "bit (availability_bit b) n \<longleftrightarrow> n = as_index b \<and> n < 64"
  by (auto simp: availability_bit_def bit_simps)

lemma and_availability_bit:
  "w AND availability_bit b = (if bit w (as_index b) then availability_bit b else 0)"
  by (rule bit_word_eqI) (auto simp: bit_and_iff bit_availability_bit)

lemma availability_bit_nonzero: "backend_ok b \<Longrightarrow> availability_bit b \<noteq> 0"
  using bit_availability_bit [of b "as_index b"] by (auto simp: backend_ok_def MAX_COUNT_def)

lemma and_availability_bit_eq_0:
  "backend_ok b \<Longrightarrow> w AND availability_bit b = 0 \<longleftrightarrow> \<not> bit w (as_index b)"
  by (simp add: and_availability_bit availability_bit_nonzero)

section \<open>Validation errors\<close>

datatype ValidationError =
    EmptyHostName | EmptyServerName | InvalidHostName bytes | InvalidPort
  | InvalidMessageId bytes | EmptyConfigPath | EmptyUsername | EmptyPassword

section \<open>Message IDs\<close>

definition MIN_MESSAGE_ID_OCTETS :: nat where "MIN_MESSAGE_ID_OCTETS = 3"
definition MAX_MESSAGE_ID_OCTETS :: nat where "MAX_MESSAGE_ID_OCTETS = 250"

datatype MessageId = MessageId (as_str: bytes)

abbreviation LT :: byte where "LT \<equiv> CHR 0x3C"
abbreviation GT :: byte where "GT \<equiv> CHR 0x3E"

definition validate :: "bytes \<Rightarrow> ValidationError + unit" where
  "validate s =
     (if \<not> (MIN_MESSAGE_ID_OCTETS \<le> length s \<and> length s \<le> MAX_MESSAGE_ID_OCTETS)
         \<or> (s \<noteq> [] \<longrightarrow> hd s \<noteq> LT) \<or> (s \<noteq> [] \<longrightarrow> last s \<noteq> GT)
      then Err (InvalidMessageId
             ''must be 3..=250 printable US-ASCII octets enclosed in <...>'')
      else let inner = subrange 1 (length s - 1) s in
        if \<exists>c \<in> set inner. \<not> (0x21 \<le> byte_val c \<and> byte_val c \<le> 0x7e) \<or> c = GT
        then Err (InvalidMessageId ''must contain only printable US-ASCII except >'')
        else Ok ())"

text \<open>\<open>MessageId::new\<close> and \<open>MessageId::from_borrowed\<close> differ only in ownership.\<close>

definition message_id_new :: "bytes \<Rightarrow> ValidationError + MessageId" where
  "message_id_new s = and_then (validate s) (\<lambda>_. Ok (MessageId s))"

definition has_angle_brackets :: "bytes \<Rightarrow> bool" where
  "has_angle_brackets s \<longleftrightarrow> prefix [LT] s \<and> suffix [GT] s"

definition from_str_or_wrap :: "bytes \<Rightarrow> ValidationError + MessageId" where
  "from_str_or_wrap s =
     (if s = [] then Err (InvalidMessageId ''empty'')
      else message_id_new (if has_angle_brackets s then s else [LT] @ s @ [GT]))"

text \<open>\<open>without_brackets\<close>: \<open>None\<close> is the panic of \<open>expect\<close>.\<close>

definition without_brackets :: "MessageId \<Rightarrow> bytes option" where
  "without_brackets m =
     (let s = as_str m in
      if prefix [LT] s
      then (let r = drop 1 s in if suffix [GT] r then Some (take (length r - 1) r) else None)
      else None)"

definition msgid_char :: "byte \<Rightarrow> bool" where
  "msgid_char c \<longleftrightarrow> 0x21 \<le> byte_val c \<and> byte_val c \<le> 0x7e \<and> c \<noteq> GT"

definition message_id_ok :: "MessageId \<Rightarrow> bool" where
  "message_id_ok m \<longleftrightarrow>
     (\<exists>inner. as_str m = [LT] @ inner @ [GT] \<and> 1 \<le> length inner \<and> length inner \<le> 248
        \<and> (\<forall>c \<in> set inner. msgid_char c))"

lemma bracketed_iff:
  "s \<noteq> [] \<and> hd s = LT \<and> last s = GT \<and> 3 \<le> length s \<longleftrightarrow>
     (\<exists>inner. s = [LT] @ inner @ [GT] \<and> inner \<noteq> [])"
proof
  assume l: "s \<noteq> [] \<and> hd s = LT \<and> last s = GT \<and> 3 \<le> length s"
  then obtain t where t: "s = LT # t" by (cases s) auto
  with l have "t \<noteq> []" by auto
  then obtain inner z where "t = inner @ [z]" by (metis rev_exhaust)
  with l t show "\<exists>inner. s = [LT] @ inner @ [GT] \<and> inner \<noteq> []" by auto
qed (auto simp: Suc_le_eq)

lemma validate_Inr_iff: "validate s = Inr () \<longleftrightarrow> message_id_ok (MessageId s)"
proof (cases "\<exists>inner. s = [LT] @ inner @ [GT] \<and> inner \<noteq> []")
  case False
  then have "\<not> message_id_ok (MessageId s)" by (force simp: message_id_ok_def)
  moreover from False have "\<not> (s \<noteq> [] \<and> hd s = LT \<and> last s = GT \<and> 3 \<le> length s)"
    by (simp only: bracketed_iff) simp
  then have "validate s \<noteq> Inr ()"
    by (auto simp: validate_def MIN_MESSAGE_ID_OCTETS_def)
  ultimately show ?thesis by simp
next
  case True
  then obtain inner where s: "s = [LT] @ inner @ [GT]" "inner \<noteq> []" by blast
  then have "subrange 1 (length s - 1) s = inner" by (simp add: subrange_def)
  with s show ?thesis
    by (auto simp: validate_def message_id_ok_def MIN_MESSAGE_ID_OCTETS_def
        MAX_MESSAGE_ID_OCTETS_def msgid_char_def Suc_le_eq)
qed

lemma message_id_new_Inr_iff: "message_id_new s = Inr m \<longleftrightarrow> m = MessageId s \<and> message_id_ok m"
  by (cases "validate s") (auto simp: message_id_new_def validate_Inr_iff [symmetric])

lemma message_id_ok_chars:
  "message_id_ok m \<Longrightarrow> c \<in> set (as_str m) \<Longrightarrow> c = LT \<or> c = GT \<or> msgid_char c"
  by (auto simp: message_id_ok_def)

lemma message_id_ok_utf8: "message_id_ok m \<Longrightarrow> utf8_valid (as_str m)"
proof (rule utf8_valid_ascii)
  fix c assume "message_id_ok m" "c \<in> set (as_str m)"
  then consider "c = LT" | "c = GT" | "msgid_char c" using message_id_ok_chars by blast
  then show "byte_val c < 128" by cases (simp_all add: msgid_char_def)
qed

text \<open>
  C40. \<open>MessageId::new\<close> accepts exactly the strings of RFC 3977 3.6: an opening angle bracket, 1 to
  248 printable US-ASCII octets other than the closing bracket, and the closing bracket; and the
  value it returns wraps the string unchanged.
\<close>

theorem message_id_new_spec:
  "message_id_new s = Inr m \<longleftrightarrow>
     as_str m = s \<and>
     (\<exists>inner. s = [LT] @ inner @ [GT] \<and> 1 \<le> length inner \<and> length inner \<le> 248
        \<and> (\<forall>c \<in> set inner. msgid_char c))"
  unfolding message_id_new_Inr_iff message_id_ok_def
  by (metis MessageId.collapse MessageId.sel)

theorem message_id_new_spec_witness: "message_id_new ''<a@b>'' = Inr (MessageId ''<a@b>'')"
  unfolding message_id_new_spec
  by (intro conjI exI [of _ "''a@b''"]) (simp_all add: msgid_char_def)

text \<open>
  \<open>from_str_or_wrap\<close> followed by \<open>without_brackets\<close> gives back a bare message ID: for a string
  of 1 to 248 message-ID octets that is not already bracketed, wrapping succeeds, the panic of
  \<open>without_brackets\<close> is unreachable, and the original string is returned.
\<close>

theorem wrap_without_brackets:
  assumes "s \<noteq> []" "length s \<le> 248" "\<forall>c \<in> set s. msgid_char c"
  shows "\<exists>m. from_str_or_wrap s = Inr m \<and> without_brackets m = Some s"
proof -
  have "GT \<notin> set s" using assms(3) by (metis msgid_char_def)
  then have "\<not> has_angle_brackets s"
    by (metis has_angle_brackets_def suffix_def in_set_conv_decomp)
  moreover have "message_id_ok (MessageId ([LT] @ s @ [GT]))"
    using assms by (auto simp: message_id_ok_def Suc_le_eq)
  ultimately have "from_str_or_wrap s = Inr (MessageId ([LT] @ s @ [GT]))"
    using assms(1) by (simp add: from_str_or_wrap_def message_id_new_Inr_iff)
  moreover have "without_brackets (MessageId ([LT] @ s @ [GT])) = Some s"
    by (simp add: without_brackets_def Let_def)
  ultimately show ?thesis by blast
qed

theorem wrap_without_brackets_witness:
  "\<exists>m. from_str_or_wrap ''a@b'' = Inr m \<and> without_brackets m = Some ''a@b''"
  by (rule wrap_without_brackets) (simp_all add: msgid_char_def)

section \<open>User names and passwords\<close>

text \<open>
  The validated string types trim their input (\<open>sanitize(trim)\<close>) and reject an empty result
  (\<open>validate(not_empty)\<close>).
\<close>

datatype Username = Username (username_str: bytes)
datatype Password = Password (password_str: bytes)

definition username_try_new :: "bytes \<Rightarrow> ValidationError + Username" where
  "username_try_new s = (if str_trim s = [] then Err EmptyUsername else Ok (Username (str_trim s)))"

definition password_try_new :: "bytes \<Rightarrow> ValidationError + Password" where
  "password_try_new s = (if str_trim s = [] then Err EmptyPassword else Ok (Password (str_trim s)))"

end
