(* ===== verification/Io.thy ===== *)
theory Io
  imports Prelude
begin

text \<open>
  Writing to a peer: \<open>write_all_vectored\<close> of \<open>src/src/io_util.rs\<close> over an abstract writer. The
  writer itself (a socket or TLS stream of \<open>tokio\<close>) is a parameter: a record of the operations the
  program calls, with the observable \<open>sent\<close> giving the bytes that reached the peer. The laws of the
  locale \<open>writer_lib\<close> are the documented contract of \<open>AsyncWrite\<close> and \<open>AsyncWriteExt::write_all\<close>.
\<close>

section \<open>The writer interface\<close>

text \<open>
  The kinds of \<open>std::io::Error\<close> the program tells apart; \<open>AdvancePanic\<close> is the panic of
  \<open>IoSlice::advance_slices\<close>.
\<close>

datatype IoError =
    WriteZero | BrokenPipe | ConnectionReset | ConnectionAborted | UnexpectedEof | OtherIo | AdvancePanic

record 'w writer_api =
  poll_write_vectored :: "'w \<Rightarrow> bytes list \<Rightarrow> 'w \<times> (IoError + nat)"
  write_all :: "'w \<Rightarrow> bytes \<Rightarrow> 'w \<times> (IoError + unit)"
  flush :: "'w \<Rightarrow> 'w \<times> (IoError + unit)"
  sent :: "'w \<Rightarrow> bytes"

locale writer_lib =
  fixes W :: "'w writer_api"
  assumes poll_Ok:
      "poll_write_vectored W w bs = (w', Inr n) \<Longrightarrow>
         n \<le> length (concat bs) \<and> sent W w' = sent W w @ take n (concat bs)"
    and poll_Err: "poll_write_vectored W w bs = (w', Inl e) \<Longrightarrow> sent W w' = sent W w \<and> e \<noteq> AdvancePanic"
    and write_all_Ok: "write_all W w b = (w', Inr ()) \<Longrightarrow> sent W w' = sent W w @ b"
    and write_all_Err:
      "write_all W w b = (w', Inl e) \<Longrightarrow> \<exists>p. strict_prefix p b \<and> sent W w' = sent W w @ p"
    and flush_sent: "sent W (fst (flush W w)) = sent W w"
begin

lemma write_all_prefix:
  assumes "write_all W w b = (w', r)"
  shows "\<exists>p. prefix p b \<and> sent W w' = sent W w @ p \<and> (r = Inr () \<longrightarrow> p = b)"
proof (cases r)
  case (Inl e)
  then show ?thesis using assms write_all_Err by (metis Inl_Inr_False strict_prefix_def)
next
  case (Inr u)
  then show ?thesis using assms write_all_Ok by (auto intro: exI [of _ b])
qed

end

section \<open>Vectored writes\<close>

text \<open>\<open>IoSlice::advance_slices\<close>; \<open>None\<close> is its panic on advancing past the end.\<close>

fun advance_slices :: "bytes list \<Rightarrow> nat \<Rightarrow> bytes list option" where
  "advance_slices [] left = (if left = 0 then Some [] else None)"
| "advance_slices (b # bs) left =
     (if length b \<le> left then advance_slices bs (left - length b) else Some (drop left b # bs))"

lemma advance_slices_concat:
  "advance_slices bs n = Some rest \<Longrightarrow>
     n \<le> length (concat bs) \<and> concat rest = drop n (concat bs)"
proof (induction bs n rule: advance_slices.induct)
  case (2 b bs left)
  then show ?case by (cases "length b \<le> left") (auto simp: drop_append)
qed (auto split: if_splits)

lemma advance_slices_None_iff: "advance_slices bs n = None \<longleftrightarrow> length (concat bs) < n"
  by (induction bs n rule: advance_slices.induct) auto

lemma advance_slices_rest: "advance_slices bs n = Some rest \<Longrightarrow> rest = [] \<or> concat rest \<noteq> []"
  by (induction bs n rule: advance_slices.induct) (auto split: if_splits)

lemma advance_slices_all: "advance_slices bs (length (concat bs)) = Some []"
  by (induction bs) auto

function write_all_vectored ::
    "'w writer_api \<Rightarrow> 'w \<Rightarrow> bytes list \<Rightarrow> 'w \<times> (IoError + unit)" where
  "write_all_vectored W w remaining =
     (if remaining = [] then (w, Ok ())
      else case poll_write_vectored W w remaining of
             (w', Inl e) \<Rightarrow> (w', Err e)
           | (w', Inr written) \<Rightarrow>
               if written = 0 then (w', Err WriteZero)
               else (case advance_slices remaining written of
                       None \<Rightarrow> (w', Err AdvancePanic)
                     | Some rest \<Rightarrow> write_all_vectored W w' rest))"
  by pat_completeness auto
termination
  by (relation "measure (\<lambda>(W, w, remaining). length (concat remaining))")
     (auto dest!: advance_slices_concat simp flip: length_concat)

declare write_all_vectored.simps [simp del]

lemma write_all_vectored_Nil [simp]: "write_all_vectored W w [] = (w, Inr ())"
  by (simp add: write_all_vectored.simps)

context writer_lib
begin

text \<open>
  Whatever the writer does, the peer has received a prefix of the slices; on success it has received
  all of them, and the panic of \<open>advance_slices\<close> is unreachable.
\<close>

lemma write_all_vectored_sent:
  "write_all_vectored W w bs = (w', r) \<Longrightarrow>
     \<exists>p. prefix p (concat bs) \<and> sent W w' = sent W w @ p \<and>
         (r = Inr () \<longrightarrow> p = concat bs) \<and> r \<noteq> Inl AdvancePanic"
proof (induction "length (concat bs)" arbitrary: w bs rule: less_induct)
  case less
  note unfold = write_all_vectored.simps [of W w bs]
  show ?case
  proof (cases "bs = []")
    case True
    with less.prems show ?thesis by auto
  next
    case False
    obtain w1 r1 where poll: "poll_write_vectored W w bs = (w1, r1)" by fastforce
    show ?thesis
    proof (cases r1)
      case (Inl e)
      with less.prems False poll poll_Err show ?thesis by (auto simp: unfold)
    next
      case (Inr n)
      then have n: "n \<le> length (concat bs)" "sent W w1 = sent W w @ take n (concat bs)"
        using poll_Ok poll by blast+
      show ?thesis
      proof (cases "n = 0")
        case True
        with less.prems False poll Inr n show ?thesis by (auto simp: unfold)
      next
        case pos: False
        then obtain rest where rest: "advance_slices bs n = Some rest"
          using n(1) advance_slices_None_iff [of bs n] by fastforce
        then have c: "concat rest = drop n (concat bs)" using advance_slices_concat by blast
        have "write_all_vectored W w1 rest = (w', r)"
          using less.prems False poll Inr pos rest by (simp add: unfold)
        moreover have "length (concat rest) < length (concat bs)" using c pos n(1) by simp
        ultimately obtain p where p: "prefix p (concat rest)" "sent W w' = sent W w1 @ p"
            "r = Inr () \<longrightarrow> p = concat rest" "r \<noteq> Inl AdvancePanic"
          using less.hyps by blast
        have "prefix (take n (concat bs) @ p) (concat bs)"
          using p(1) c by (metis append_take_drop_id same_prefix_prefix)
        then show ?thesis
          using p n(2) c by (intro exI [of _ "take n (concat bs) @ p"]) auto
      qed
    qed
  qed
qed

text \<open>A writer that accepts at least one byte per call and never fails takes everything.\<close>

lemma write_all_vectored_live:
  assumes live: "\<And>v cs. concat cs \<noteq> [] \<Longrightarrow> \<exists>v' n. poll_write_vectored W v cs = (v', Inr n) \<and> 0 < n"
    and "bs = [] \<or> concat bs \<noteq> []"
  shows "\<exists>w'. write_all_vectored W w bs = (w', Inr ())"
  using assms(2)
proof (induction "length (concat bs)" arbitrary: w bs rule: less_induct)
  case less
  note unfold = write_all_vectored.simps [of W w bs]
  show ?case
  proof (cases "bs = []")
    case False
    then obtain w1 n where poll: "poll_write_vectored W w bs = (w1, Inr n)" "0 < n"
      using live less.prems by blast
    then have n: "n \<le> length (concat bs)" using poll_Ok by blast
    then obtain rest where rest: "advance_slices bs n = Some rest"
      using advance_slices_None_iff [of bs n] by fastforce
    then have c: "concat rest = drop n (concat bs)" using advance_slices_concat by blast
    have "rest = [] \<or> concat rest \<noteq> []"
      using rest by (metis advance_slices_rest)
    moreover have "length (concat rest) < length (concat bs)" using c poll(2) n by simp
    ultimately show ?thesis using less.hyps False poll rest by (simp add: unfold)
  qed (simp add: unfold)
qed

end

section \<open>A scripted writer\<close>

text \<open>
  The contract is satisfiable: a writer driven by a script, one entry per call, that either accepts
  up to the given number of bytes or fails; an exhausted script fails.
\<close>

record script_writer =
  sw_sent :: bytes
  sw_script :: "nat option list"

definition script_poll :: "script_writer \<Rightarrow> bytes list \<Rightarrow> script_writer \<times> (IoError + nat)" where
  "script_poll w bs =
     (case sw_script w of
        Some n # s \<Rightarrow>
          (let m = min n (length (concat bs))
           in (w\<lparr>sw_sent := sw_sent w @ take m (concat bs), sw_script := s\<rparr>, Ok m))
      | None # s \<Rightarrow> (w\<lparr>sw_script := s\<rparr>, Err OtherIo)
      | [] \<Rightarrow> (w, Err OtherIo))"

fun script_write :: "bytes \<Rightarrow> nat option list \<Rightarrow> bytes \<Rightarrow> script_writer \<times> (IoError + unit)" where
  "script_write out s [] = (\<lparr>sw_sent = out, sw_script = s\<rparr>, Ok ())"
| "script_write out [] (c # b) = (\<lparr>sw_sent = out, sw_script = []\<rparr>, Err OtherIo)"
| "script_write out (None # s) (c # b) = (\<lparr>sw_sent = out, sw_script = s\<rparr>, Err OtherIo)"
| "script_write out (Some n # s) (c # b) =
     (if n = 0 then (\<lparr>sw_sent = out, sw_script = s\<rparr>, Err WriteZero)
      else script_write (out @ take n (c # b)) s (drop n (c # b)))"

definition script_api :: "script_writer writer_api" where
  "script_api = \<lparr>poll_write_vectored = script_poll,
                 write_all = (\<lambda>w. script_write (sw_sent w) (sw_script w)),
                 flush = (\<lambda>w. (w, Ok ())),
                 sent = sw_sent\<rparr>"

lemma script_write_Ok: "script_write out s b = (w', Inr ()) \<Longrightarrow> sw_sent w' = out @ b"
  by (induction out s b rule: script_write.induct) (auto split: if_splits)

lemma script_write_Err:
  "script_write out s b = (w', Inl e) \<Longrightarrow> \<exists>p. strict_prefix p b \<and> sw_sent w' = out @ p"
proof (induction out s b rule: script_write.induct)
  case (4 out n s c b)
  show ?case
  proof (cases "n = 0")
    case False
    with 4 obtain p where p: "strict_prefix p (drop n (c # b))"
        "sw_sent w' = (out @ take n (c # b)) @ p" by auto
    from p(1) have "strict_prefix (take n (c # b) @ p) (c # b)"
      by (metis append_take_drop_id same_prefix_prefix strict_prefix_def same_append_eq)
    with p(2) show ?thesis by (intro exI [of _ "take n (c # b) @ p"]) simp
  qed (use 4 in auto)
qed auto

interpretation script: writer_lib script_api
  by unfold_locales
     (auto simp: script_api_def script_poll_def Let_def script_write_Ok script_write_Err
        split: list.splits option.splits)

text \<open>A connection that accepts every write at once.\<close>

definition open_api :: "bytes writer_api" where
  "open_api = \<lparr>poll_write_vectored = (\<lambda>w bs. (w @ concat bs, Inr (length (concat bs)))),
               write_all = (\<lambda>w b. (w @ b, Inr ())), flush = (\<lambda>w. (w, Inr ())), sent = (\<lambda>w. w)\<rparr>"

interpretation open_conn: writer_lib open_api
  by unfold_locales (auto simp: open_api_def)

lemma open_api_simps [simp]:
  "write_all open_api w b = (w @ b, Inr ())" "flush open_api w = (w, Inr ())" "sent open_api w = w"
  by (simp_all add: open_api_def)

lemma write_all_vectored_open:
  assumes "concat bs \<noteq> []"
  shows "write_all_vectored open_api w bs = (w @ concat bs, Inr ())"
proof -
  have "bs \<noteq> []" "length (concat bs) \<noteq> 0" using assms by auto
  then show ?thesis
    by (simp add: write_all_vectored.simps [of _ _ bs] open_api_def advance_slices_all
        del: length_concat concat_eq_Nil_conv)
qed

text \<open>
  C29. \<open>write_all_vectored\<close> delivers exactly its slices: over any writer that meets the \<open>AsyncWrite\<close>
  contract, with partial writes in any pattern, the peer receives a prefix of the concatenated
  slices; success means that it received all of them; and \<open>advance_slices\<close> never panics.
\<close>

theorem write_all_vectored_exact:
  assumes "writer_lib W" and "write_all_vectored W w bs = (w', r)"
  shows "\<exists>p. prefix p (concat bs) \<and> sent W w' = sent W w @ p \<and>
             (r = Inr () \<longrightarrow> p = concat bs) \<and> r \<noteq> Inl AdvancePanic"
  using writer_lib.write_all_vectored_sent [OF assms] .

theorem write_all_vectored_exact_witness:
  "\<exists>w'. write_all_vectored script_api \<lparr>sw_sent = [], sw_script = [Some 2, Some 9]\<rparr>
           [''AB'', '' '', ''CD''] = (w', Inr ()) \<and> sent script_api w' = ''AB CD''"
proof -
  let ?w = "\<lparr>sw_sent = [], sw_script = [Some 2, Some 9]\<rparr>"
  let ?w' = "\<lparr>sw_sent = ''AB CD'', sw_script = []\<rparr>"
  have r: "write_all_vectored script_api ?w [''AB'', '' '', ''CD''] = (?w', Inr ())"
    by (simp add: write_all_vectored.simps script_api_def script_poll_def Let_def)
  from write_all_vectored_exact [OF script.writer_lib_axioms r] r show ?thesis
    by (auto simp: script_api_def)
qed

end
