(* ===== verification/Request.thy ===== *)
theory Request
  imports Types Io
begin

text \<open>
  Typed requests: \<open>src/src/protocol/request.rs\<close>. A client line is parsed into a
  \<open>RequestContext\<close> (classified verb, arguments, span of a message-ID argument), routed by
  \<open>route_class\<close>, written back to a backend by \<open>write_wire_to\<close>, and asked by the response framer
  whether a status has a multiline body. The byte searches of the \<open>memchr\<close> crate are the
  parameter \<open>M\<close>.
\<close>

section \<open>Data\<close>

datatype RequestKind =
    Article | Body | Head | Stat | Group | ListGroup | Last | Next | List | Date | Help
  | Capabilities | Mode | Quit | Over | Xover | Hdr | Xhdr | NewGroups | NewNews | Post | Ihave
  | Check | TakeThis | AuthInfo | StartTls | Compress | Unknown

datatype RequestRouteClass = ArticleByMessageId | Stateless | StatefulRoute | LocalRoute | RejectRoute

datatype RequestCacheStatus = Hit | PartialHit | Miss

datatype RequestCachePayloadKind =
    PayloadMissing | PayloadAvailabilityOnly | PayloadArticle | PayloadHead | PayloadBody | PayloadStat

record RequestResponseMetadata =
  rm_status :: StatusCode
  rm_wire_len :: nat

record RequestCacheAvailability =
  ra_checked :: usize
  ra_missing :: usize

record RequestCacheEntryMetadata =
  re_status :: StatusCode
  re_availability :: RequestCacheAvailability
  re_tier :: u8
  re_timestamp :: u64
  re_payload_kind :: RequestCachePayloadKind
  re_article_number :: "u64 option"

datatype RequestCompletion =
    CompletedLocal RequestResponseMetadata
  | CompletedCache RequestResponseMetadata
  | CompletedBackend BackendId RequestResponseMetadata

record RequestContext =
  rc_kind :: RequestKind
  rc_verb :: bytes
  rc_args :: bytes
  rc_message_id :: "(nat \<times> nat) option"
  rc_cache_status :: "RequestCacheStatus option"
  rc_cache_entry :: "RequestCacheEntryMetadata option"
  rc_completion :: "RequestCompletion option"

definition MAX_COMMAND_LINE_OCTETS :: nat where "MAX_COMMAND_LINE_OCTETS = 512"

section \<open>Verb classification\<close>

definition ascii_upper :: "byte \<Rightarrow> byte" where
  "ascii_upper b = (if 97 \<le> byte_val b \<and> byte_val b \<le> 122 then char_of (byte_val b - 32) else b)"

definition eq_ignore_ascii_case_const :: "bytes \<Rightarrow> bytes \<Rightarrow> bool" where
  "eq_ignore_ascii_case_const left right \<longleftrightarrow>
     length left = length right \<and> list_all2 (\<lambda>a b. ascii_upper a = ascii_upper b) left right"

fun classify_in :: "(bytes \<times> RequestKind) list \<Rightarrow> bytes \<Rightarrow> RequestKind" where
  "classify_in [] verb = Unknown"
| "classify_in ((lit, k) # rest) verb =
     (if eq_ignore_ascii_case_const verb lit then k else classify_in rest verb)"

definition classify_verb :: "bytes \<Rightarrow> RequestKind" where
  "classify_verb verb =
     (let n = length verb in
      if n = 3 then classify_in [(''HDR'', Hdr)] verb
      else if n = 4 then classify_in
        [(''BODY'', Body), (''DATE'', Date), (''HEAD'', Head), (''HELP'', Help), (''LAST'', Last),
         (''LIST'', List), (''MODE'', Mode), (''NEXT'', Next), (''OVER'', Over), (''POST'', Post),
         (''QUIT'', Quit), (''STAT'', Stat), (''XHDR'', Xhdr)] verb
      else if n = 5 then classify_in
        [(''CHECK'', Check), (''GROUP'', Group), (''IHAVE'', Ihave), (''XOVER'', Xover)] verb
      else if n = 7 then classify_in [(''ARTICLE'', Article), (''NEWNEWS'', NewNews)] verb
      else if n = 8 then classify_in
        [(''AUTHINFO'', AuthInfo), (''COMPRESS'', Compress), (''STARTTLS'', StartTls),
         (''TAKETHIS'', TakeThis)] verb
      else if n = 9 then classify_in [(''LISTGROUP'', ListGroup), (''NEWGROUPS'', NewGroups)] verb
      else if n = 12 then classify_in [(''CAPABILITIES'', Capabilities)] verb
      else Unknown)"

section \<open>Parsing\<close>

definition trim_line_end :: "bytes \<Rightarrow> bytes" where
  "trim_line_end line = rev (dropWhile (\<lambda>c. c = CR \<or> c = LF) (rev line))"

definition find_message_id :: "bytes \<Rightarrow> (nat \<times> nat) option" where
  "find_message_id args =
     (case position (\<lambda>b. \<not> is_ascii_whitespace b) args of None \<Rightarrow> None
      | Some start \<Rightarrow>
        (case rposition (\<lambda>b. \<not> is_ascii_whitespace b) args of None \<Rightarrow> None
         | Some e \<Rightarrow>
           (let end = e + 1; trimmed = subrange start end args in
            if \<not> prefix [LT] trimmed \<or> \<not> suffix [GT] trimmed
               \<or> (\<exists>c \<in> set (subrange 1 (length trimmed - 1) trimmed). is_ascii_whitespace c)
            then None
            else case from_utf8 trimmed of None \<Rightarrow> None
              | Some str \<Rightarrow>
                (case message_id_new str of Inl _ \<Rightarrow> None | Inr _ \<Rightarrow> Some (start, end)))))"

definition from_parts ::
    "RequestKind \<Rightarrow> bytes \<Rightarrow> bytes \<Rightarrow> (nat \<times> nat) option \<Rightarrow> RequestContext" where
  "from_parts kind verb args mid =
     \<lparr>rc_kind = kind, rc_verb = verb, rc_args = args, rc_message_id = mid,
      rc_cache_status = None, rc_cache_entry = None, rc_completion = None\<rparr>"

text \<open>\<open>RequestLine::parse\<close>: kind, verb, arguments, message-ID span.\<close>

definition request_line_parse ::
    "memchr_api \<Rightarrow> bytes \<Rightarrow> RequestKind \<times> bytes \<times> bytes \<times> (nat \<times> nat) option" where
  "request_line_parse M line =
     (let bs = trim_line_end line;
          split = (case memchr2 M SP TAB bs of Some i \<Rightarrow> i | None \<Rightarrow> length bs);
          verb = take split bs;
          args = (if split < length bs then drop (split + 1) bs else [])
      in (classify_verb verb, verb, args, find_message_id args))"

definition request_parse :: "memchr_api \<Rightarrow> bytes \<Rightarrow> RequestContext option" where
  "request_parse M line =
     (if length line > MAX_COMMAND_LINE_OCTETS then None
      else case request_line_parse M line of (kind, verb, args, mid) \<Rightarrow>
        if verb \<noteq> [] then Some (from_parts kind verb args mid) else None)"

definition from_verb_args :: "bytes \<Rightarrow> bytes \<Rightarrow> RequestContext" where
  "from_verb_args verb args = from_parts (classify_verb verb) verb args (find_message_id args)"

definition from_verb_arg_slices :: "bytes \<Rightarrow> bytes list \<Rightarrow> RequestContext" where
  "from_verb_arg_slices verb args =
     (let joined = concat args
      in from_parts (classify_verb verb) verb joined (find_message_id joined))"

text \<open>Command builders of \<open>src/src/protocol/commands.rs\<close>.\<close>

definition authinfo_user :: "bytes \<Rightarrow> RequestContext" where
  "authinfo_user username = from_verb_arg_slices ''AUTHINFO'' [''USER '', username]"
definition authinfo_pass :: "bytes \<Rightarrow> RequestContext" where
  "authinfo_pass password = from_verb_arg_slices ''AUTHINFO'' [''PASS '', password]"
definition article_request :: "MessageId \<Rightarrow> RequestContext" where
  "article_request m = from_verb_args ''ARTICLE'' (as_str m)"
definition body_request :: "MessageId \<Rightarrow> RequestContext" where
  "body_request m = from_verb_args ''BODY'' (as_str m)"
definition head_request :: "MessageId \<Rightarrow> RequestContext" where
  "head_request m = from_verb_args ''HEAD'' (as_str m)"
definition stat_request :: "MessageId \<Rightarrow> RequestContext" where
  "stat_request m = from_verb_args ''STAT'' (as_str m)"
definition date_request :: RequestContext where
  "date_request = from_verb_args ''DATE'' []"

section \<open>Accessors and recorded outcomes\<close>

definition message_id_value :: "RequestContext \<Rightarrow> MessageId option" where
  "message_id_value r =
     (case rc_message_id r of None \<Rightarrow> None
      | Some (start, end) \<Rightarrow>
        (case from_utf8 (subrange start end (rc_args r)) of None \<Rightarrow> None
         | Some str \<Rightarrow> (case message_id_new str of Inl _ \<Rightarrow> None | Inr m \<Rightarrow> Some m)))"

definition has_message_id :: "RequestContext \<Rightarrow> bool" where
  "has_message_id r \<longleftrightarrow> rc_message_id r \<noteq> None"

definition route_class_of :: "RequestKind \<Rightarrow> bool \<Rightarrow> RequestRouteClass" where
  "route_class_of kind has_mid =
     (if kind \<in> {Capabilities, Quit, AuthInfo} then LocalRoute
      else if kind \<in> {Post, Ihave, Check, TakeThis, StartTls, Compress} then RejectRoute
      else if kind \<in> {Article, Body, Head, Stat} \<and> has_mid then ArticleByMessageId
      else if kind \<in> {Article, Body, Head, Stat, Group, ListGroup, Last, Next, Over, Xover, Hdr,
                      Xhdr, Unknown} then StatefulRoute
      else Stateless)"

definition route_class :: "RequestContext \<Rightarrow> RequestRouteClass" where
  "route_class r = route_class_of (rc_kind r) (has_message_id r)"

definition is_pipelineable :: "RequestContext \<Rightarrow> bool" where
  "is_pipelineable r \<longleftrightarrow> route_class r = ArticleByMessageId"

definition is_large_transfer :: "RequestContext \<Rightarrow> bool" where
  "is_large_transfer r \<longleftrightarrow> rc_kind r \<in> {Article, Body} \<and> has_message_id r"

definition backend_has_article :: "RequestCacheAvailability \<Rightarrow> BackendId \<Rightarrow> bool" where
  "backend_has_article a b \<longleftrightarrow>
     (let mask = availability_bit b in ra_checked a AND mask \<noteq> 0 \<and> ra_missing a AND mask = 0)"

definition record_backend_response ::
    "BackendId \<Rightarrow> RequestResponseMetadata \<Rightarrow> RequestContext \<Rightarrow> RequestContext" where
  "record_backend_response b m r = r\<lparr>rc_completion := Some (CompletedBackend b m)\<rparr>"

definition record_cache_response ::
    "RequestResponseMetadata \<Rightarrow> RequestContext \<Rightarrow> RequestContext" where
  "record_cache_response m r =
     r\<lparr>rc_cache_status := Some Hit, rc_completion := Some (CompletedCache m)\<rparr>"

definition record_local_response ::
    "RequestResponseMetadata \<Rightarrow> RequestContext \<Rightarrow> RequestContext" where
  "record_local_response m r = r\<lparr>rc_completion := Some (CompletedLocal m)\<rparr>"

definition response_metadata :: "RequestContext \<Rightarrow> RequestResponseMetadata option" where
  "response_metadata r =
     (case rc_completion r of
        Some (CompletedLocal m) \<Rightarrow> Some m | Some (CompletedCache m) \<Rightarrow> Some m
      | Some (CompletedBackend _ m) \<Rightarrow> Some m | None \<Rightarrow> None)"

definition response_status :: "RequestContext \<Rightarrow> StatusCode option" where
  "response_status r = map_option rm_status (response_metadata r)"

definition response_wire_len :: "RequestContext \<Rightarrow> nat option" where
  "response_wire_len r = map_option rm_wire_len (response_metadata r)"

definition completed_backend_id :: "RequestContext \<Rightarrow> BackendId option" where
  "completed_backend_id r =
     (case rc_completion r of Some (CompletedBackend b _) \<Rightarrow> Some b | _ \<Rightarrow> None)"

definition record_cache_status :: "RequestCacheStatus \<Rightarrow> RequestContext \<Rightarrow> RequestContext" where
  "record_cache_status status r = r\<lparr>rc_cache_status := Some status\<rparr>"

definition record_cache_entry_metadata ::
    "RequestCacheEntryMetadata \<Rightarrow> RequestContext \<Rightarrow> RequestContext" where
  "record_cache_entry_metadata m r = r\<lparr>rc_cache_entry := Some m\<rparr>"

definition cache_records_backend_has_article :: "BackendId \<Rightarrow> RequestContext \<Rightarrow> bool" where
  "cache_records_backend_has_article b r =
     (case rc_cache_entry r of None \<Rightarrow> False
      | Some m \<Rightarrow> backend_has_article (re_availability m) b)"

definition clone_for_background_probe :: "RequestContext \<Rightarrow> RequestContext" where
  "clone_for_background_probe r = r\<lparr>rc_completion := None\<rparr>"

section \<open>Writing the request\<close>

text \<open>The slices that \<open>write_wire_to\<close> hands to the vectored writer, and the announced length.\<close>

definition wire_slices :: "RequestContext \<Rightarrow> bytes list" where
  "wire_slices r =
     (if rc_args r = [] then [rc_verb r, CRLF] else [rc_verb r, [SP], rc_args r, CRLF])"

definition request_wire_len :: "RequestContext \<Rightarrow> nat" where
  "request_wire_len r =
     length (rc_verb r) + (if rc_args r \<noteq> [] then 1 else 0) + length (rc_args r) + 2"

definition write_wire_to :: "'w writer_api \<Rightarrow> RequestContext \<Rightarrow> 'w \<Rightarrow> 'w \<times> (IoError + unit)" where
  "write_wire_to W r w = write_all_vectored W w (wire_slices r)"

definition send_to :: "'w writer_api \<Rightarrow> RequestContext \<Rightarrow> 'w \<Rightarrow> 'w \<times> (IoError + unit)" where
  "send_to W r w =
     (case write_wire_to W r w of
        (w', Inl e) \<Rightarrow> (w', Err e)
      | (w', Inr _) \<Rightarrow> flush W w')"

section \<open>Response shape\<close>

definition status_implies_response_body :: "u16 \<Rightarrow> bool" where
  "status_implies_response_body code \<longleftrightarrow>
     code \<in> {100, 101, 215, 220, 221, 222, 224, 225, 230, 231, 282, 288}"

definition request_kind_has_response_body :: "RequestKind \<Rightarrow> StatusCode \<Rightarrow> bool" where
  "request_kind_has_response_body kind status =
     (let code = into_inner status in
      if is_error status then False
      else (case kind of
              Article \<Rightarrow> code = 220 | Head \<Rightarrow> code = 221 | Body \<Rightarrow> code = 222
            | ListGroup \<Rightarrow> code = 211 | Help \<Rightarrow> code = 100 | Capabilities \<Rightarrow> code = 101
            | List \<Rightarrow> code = 215 | Over \<Rightarrow> code = 224 | Xover \<Rightarrow> code = 224 | Hdr \<Rightarrow> code = 225
            | Xhdr \<Rightarrow> code = 221 \<or> code = 225 | NewNews \<Rightarrow> code = 230 | NewGroups \<Rightarrow> code = 231
            | Unknown \<Rightarrow> status_implies_response_body code
            | _ \<Rightarrow> False))"

definition has_response_body :: "RequestContext \<Rightarrow> StatusCode \<Rightarrow> bool" where
  "has_response_body r status = request_kind_has_response_body (rc_kind r) status"

section \<open>Verb classification is case-insensitive table lookup\<close>

definition verb_table :: "(bytes \<times> RequestKind) list" where
  "verb_table =
     [(''HDR'', Hdr), (''BODY'', Body), (''DATE'', Date), (''HEAD'', Head), (''HELP'', Help),
      (''LAST'', Last), (''LIST'', List), (''MODE'', Mode), (''NEXT'', Next), (''OVER'', Over),
      (''POST'', Post), (''QUIT'', Quit), (''STAT'', Stat), (''XHDR'', Xhdr), (''CHECK'', Check),
      (''GROUP'', Group), (''IHAVE'', Ihave), (''XOVER'', Xover), (''ARTICLE'', Article),
      (''NEWNEWS'', NewNews), (''AUTHINFO'', AuthInfo), (''COMPRESS'', Compress),
      (''STARTTLS'', StartTls), (''TAKETHIS'', TakeThis), (''LISTGROUP'', ListGroup),
      (''NEWGROUPS'', NewGroups), (''CAPABILITIES'', Capabilities)]"

definition lookup_kind :: "(bytes \<times> RequestKind) list \<Rightarrow> bytes \<Rightarrow> RequestKind" where
  "lookup_kind tbl v = (case map_of tbl v of Some k \<Rightarrow> k | None \<Rightarrow> Unknown)"

lemma eq_ignore_ascii_case_const_iff:
  "eq_ignore_ascii_case_const xs ys \<longleftrightarrow> map ascii_upper xs = map ascii_upper ys"
proof -
  have "map ascii_upper xs = map ascii_upper ys \<longleftrightarrow>
      list_all2 (=) (map ascii_upper xs) (map ascii_upper ys)"
    by (simp add: list.rel_eq)
  also have "\<dots> \<longleftrightarrow> list_all2 (\<lambda>a b. ascii_upper a = ascii_upper b) xs ys"
    by (simp add: list.rel_map)
  finally show ?thesis
    by (auto simp: eq_ignore_ascii_case_const_def dest: list_all2_lengthD)
qed

lemma classify_in_lookup:
  "(\<And>lit k. (lit, k) \<in> set tbl \<Longrightarrow> map ascii_upper lit = lit) \<Longrightarrow>
   classify_in tbl v = lookup_kind tbl (map ascii_upper v)"
proof (induction tbl)
  case (Cons e tbl)
  obtain lit k where e: "e = (lit, k)" by (cases e)
  then have "map ascii_upper lit = lit" using Cons.prems by auto
  then show ?case
    using Cons.IH Cons.prems e by (auto simp: eq_ignore_ascii_case_const_iff lookup_kind_def)
qed (simp add: lookup_kind_def)

lemma lookup_kind_by_length:
  "lookup_kind tbl v = lookup_kind (filter (\<lambda>(lit, k). length lit = length v) tbl) v"
proof -
  have "map_of tbl v = map_of (filter (\<lambda>(lit, k). length lit = length v) tbl) v"
    by (induction tbl) auto
  then show ?thesis by (simp add: lookup_kind_def)
qed

lemma verb_table_upper: "(lit, k) \<in> set verb_table \<Longrightarrow> map ascii_upper lit = lit"
  by (auto simp: verb_table_def ascii_upper_def)

lemma classify_verb_filter:
  "classify_verb v = classify_in (filter (\<lambda>(lit, k). length lit = length v) verb_table) v"
  unfolding classify_verb_def Let_def verb_table_def by simp

lemma classify_verb_lookup: "classify_verb v = lookup_kind verb_table (map ascii_upper v)"
proof -
  let ?t = "filter (\<lambda>(lit, k). length lit = length v) verb_table"
  have "classify_in ?t v = lookup_kind ?t (map ascii_upper v)"
    by (rule classify_in_lookup) (auto intro: verb_table_upper)
  also have "\<dots> = lookup_kind verb_table (map ascii_upper v)"
    using lookup_kind_by_length [of verb_table "map ascii_upper v"] by simp
  finally show ?thesis by (simp add: classify_verb_filter)
qed

lemma ascii_upper_idem [simp]: "ascii_upper (ascii_upper c) = ascii_upper c"
proof (cases "97 \<le> byte_val c \<and> byte_val c \<le> 122")
  case True
  have "(byte_val c - 32) mod 256 = byte_val c - 32"
    by (rule mod_less) (use True in linarith)
  moreover have "\<not> 97 \<le> byte_val c - 32" using True by linarith
  ultimately show ?thesis using True by (simp add: ascii_upper_def)
qed (auto simp: ascii_upper_def)

text \<open>
  Verb classification: a verb is classified as a known command exactly when its ASCII upper
  case is that command's name.
\<close>

theorem classify_verb_spec:
  assumes "k \<noteq> Unknown"
  shows "classify_verb v = k \<longleftrightarrow> (map ascii_upper v, k) \<in> set verb_table"
proof -
  have d: "distinct (map fst verb_table)" by (simp add: verb_table_def)
  have "(\<exists>u. (u, Unknown) \<in> set verb_table) = False" by (simp add: verb_table_def)
  then show ?thesis
    using assms
    by (auto simp: classify_verb_lookup lookup_kind_def map_of_eq_Some_iff [OF d, symmetric]
        split: option.splits)
qed
theorem classify_verb_spec_witness:
  "classify_verb ''article'' = Article \<longleftrightarrow> (map ascii_upper ''article'', Article) \<in> set verb_table"
  by (rule classify_verb_spec) simp

section \<open>Message-ID arguments\<close>

lemma msgid_char_not_ws: "msgid_char c \<Longrightarrow> \<not> is_ascii_whitespace c"
proof
  assume m: "msgid_char c" and "is_ascii_whitespace c"
  then have "c \<in> {SP, TAB, LF, CHR 0x0C, CR}" by (simp add: is_ascii_whitespace_def)
  then have "byte_val c \<le> 0x20" by auto
  with m show False by (simp add: msgid_char_def)
qed

abbreviation nonws :: "byte \<Rightarrow> bool" where "nonws b \<equiv> \<not> is_ascii_whitespace b"

lemma ws_decomposition:
  assumes "\<exists>b \<in> set args. nonws b"
  obtains pre mid post where "args = pre @ mid @ post" "mid \<noteq> []"
    "\<forall>c \<in> set pre. is_ascii_whitespace c" "\<forall>c \<in> set post. is_ascii_whitespace c"
    "nonws (hd mid)" "nonws (last mid)"
proof -
  obtain pre a rest where 1: "args = pre @ a # rest" "nonws a" "\<forall>c \<in> set pre. is_ascii_whitespace c"
    using split_list_first_prop [OF assms] by auto
  have *: "\<exists>b \<in> set (a # rest). nonws b" using 1(2) by simp
  obtain ys z zs where 2: "a # rest = ys @ z # zs" "nonws z" "\<forall>c \<in> set zs. is_ascii_whitespace c"
    using split_list_last_prop [OF *] by blast
  have "hd (ys @ [z]) = a" using 2(1) by (cases ys) auto
  then show ?thesis
    using that [of pre "ys @ [z]" zs] 1 2 by auto
qed

lemma find_message_id_decomposed:
  assumes args: "args = pre @ mid @ post" and "mid \<noteq> []"
    and ws: "\<forall>c \<in> set pre. is_ascii_whitespace c" "\<forall>c \<in> set post. is_ascii_whitespace c"
    and nonws: "nonws (hd mid)" "nonws (last mid)"
  shows "find_message_id args =
    (if message_id_ok (MessageId mid) then Some (length pre, length pre + length mid) else None)"
proof -
  obtain a mid' where a: "mid = a # mid'" using \<open>mid \<noteq> []\<close> by (cases mid) auto
  obtain mid'' z where z: "mid = mid'' @ [z]" using \<open>mid \<noteq> []\<close> by (metis rev_exhaust)
  have "position nonws args = Some (length pre)"
    using nonws ws by (simp add: args a)
  moreover have "rposition nonws args = Some (length pre + length mid - 1)"
  proof -
    have "position nonws (rev post @ z # rev mid'' @ rev pre) = Some (length (rev post))"
      by (rule position_append_hit) (use ws nonws z in auto)
    then show ?thesis by (simp add: args z rposition_def)
  qed
  moreover have "subrange (length pre) (length pre + length mid) args = mid"
    by (simp add: args subrange_def)
  moreover have "length pre + length mid - 1 + 1 = length pre + length mid"
    using \<open>mid \<noteq> []\<close> by (cases mid) auto
  ultimately have "find_message_id args =
      (if \<not> prefix [LT] mid \<or> \<not> suffix [GT] mid
               \<or> (\<exists>c \<in> set (subrange 1 (length mid - 1) mid). is_ascii_whitespace c)
            then None
            else case from_utf8 mid of None \<Rightarrow> None
              | Some str \<Rightarrow>
                (case message_id_new str of Inl _ \<Rightarrow> None
                 | Inr _ \<Rightarrow> Some (length pre, length pre + length mid)))"
    by (simp add: find_message_id_def Let_def del: One_nat_def)
  also have "\<dots> = (if message_id_ok (MessageId mid) then Some (length pre, length pre + length mid) else None)"
  proof (cases "message_id_ok (MessageId mid)")
    case False
    then have "message_id_new mid \<noteq> Inr m" for m by (simp add: message_id_new_Inr_iff)
    then show ?thesis
      using False by (auto simp: from_utf8_def split: sum.splits)
  next
    case True
    then obtain inner where inner: "mid = [LT] @ inner @ [GT]" "\<forall>c \<in> set inner. msgid_char c"
      by (auto simp: message_id_ok_def)
    have "\<not> is_ascii_whitespace c" if "c \<in> set inner" for c
      using inner(2) that by (metis msgid_char_not_ws)
    moreover have "subrange 1 (length mid - 1) mid = inner" by (simp add: inner(1) subrange_def)
    moreover have "prefix [LT] mid" "suffix [GT] mid" by (simp_all add: inner(1) suffix_def)
    moreover have "message_id_new mid = Inr (MessageId mid)"
      using True by (simp add: message_id_new_Inr_iff)
    moreover have "from_utf8 mid = Some mid"
      using message_id_ok_utf8 [OF True] by (simp add: from_utf8_def)
    ultimately show ?thesis using True by auto
  qed
  finally show ?thesis .
qed

lemma message_id_ok_literal: "message_id_ok (MessageId ''<a@b>'')"
  unfolding message_id_ok_def by (rule exI [of _ "''a@b''"]) (simp add: msgid_char_def)

lemma message_id_ok_ends:
  assumes "message_id_ok (MessageId mid)"
  shows "mid \<noteq> []" "nonws (hd mid)" "nonws (last mid)"
proof -
  obtain inner where "mid = [LT] @ inner @ [GT]" using assms by (auto simp: message_id_ok_def)
  then show "mid \<noteq> []" "nonws (hd mid)" "nonws (last mid)"
    by (simp_all add: is_ascii_whitespace_def)
qed

lemma find_message_id_Some_iff:
  "find_message_id args = Some (start, stop) \<longleftrightarrow>
     (\<exists>pre mid post. args = pre @ mid @ post \<and> start = length pre \<and> stop = start + length mid \<and>
        (\<forall>c \<in> set pre. is_ascii_whitespace c) \<and> (\<forall>c \<in> set post. is_ascii_whitespace c) \<and>
        message_id_ok (MessageId mid))"
  (is "?l \<longleftrightarrow> ?r")
proof
  assume ?r
  then show ?l
    using find_message_id_decomposed message_id_ok_ends by (metis (no_types, lifting))
next
  assume l: ?l
  show ?r
  proof (cases "\<exists>b \<in> set args. nonws b")
    case False
    then have "position nonws args = None" by (auto simp: position_None_iff)
    with l show ?thesis by (simp add: find_message_id_def)
  next
    case True
    then obtain pre mid post where d: "args = pre @ mid @ post" "mid \<noteq> []"
      "\<forall>c \<in> set pre. is_ascii_whitespace c" "\<forall>c \<in> set post. is_ascii_whitespace c"
      "nonws (hd mid)" "nonws (last mid)"
      by (rule ws_decomposition)
    from find_message_id_decomposed [OF d] l
    have "message_id_ok (MessageId mid)" "start = length pre" "stop = length pre + length mid"
      by (simp_all split: if_splits)
    with d show ?thesis by blast
  qed
qed

text \<open>
  C34. A request argument is a message-ID argument exactly when it is a valid message ID with ASCII
  whitespace around it, and the recorded span is the span of the message ID.
\<close>

theorem find_message_id_spec:
  "find_message_id args = Some (start, stop) \<longleftrightarrow>
     (\<exists>pre mid post. args = pre @ mid @ post \<and> start = length pre \<and> stop = start + length mid \<and>
        (\<forall>c \<in> set pre. is_ascii_whitespace c) \<and> (\<forall>c \<in> set post. is_ascii_whitespace c) \<and>
        message_id_ok (MessageId mid))"
  by (rule find_message_id_Some_iff)

theorem find_message_id_spec_witness: "find_message_id '' <a@b> '' = Some (1, 6)"
  unfolding find_message_id_spec
proof (intro exI conjI)
  show "'' <a@b> '' = '' '' @ ''<a@b>'' @ '' ''" by simp
  show "message_id_ok (MessageId ''<a@b>'')" by (rule message_id_ok_literal)
qed (simp_all add: is_ascii_whitespace_def)

lemma find_message_id_exact:
  assumes "message_id_ok (MessageId mid)"
  shows "find_message_id mid = Some (0, length mid)"
  using find_message_id_decomposed [of mid "[]" mid "[]"] message_id_ok_ends [OF assms] assms by simp

text \<open>The invariant of a request: its kind and message-ID span are those of its verb and arguments.\<close>

definition request_wf :: "RequestContext \<Rightarrow> bool" where
  "request_wf r \<longleftrightarrow>
     rc_kind r = classify_verb (rc_verb r) \<and> rc_message_id r = find_message_id (rc_args r)"

lemma request_wf_new [simp]:
  "request_parse M line = Some r \<Longrightarrow> request_wf r"
  "request_wf (from_verb_args v a)"
  "request_wf (from_verb_arg_slices v as)"
  by (auto simp: request_parse_def request_line_parse_def request_wf_def from_parts_def
      from_verb_args_def from_verb_arg_slices_def Let_def split: if_splits)

text \<open>The recorded outcomes change neither the request nor, once set, its wire form.\<close>

lemma request_wf_record [simp]:
  "request_wf (record_backend_response b m r) = request_wf r"
  "request_wf (record_cache_response m r) = request_wf r"
  "request_wf (record_local_response m r) = request_wf r"
  by (simp_all add: request_wf_def record_backend_response_def record_cache_response_def
      record_local_response_def)

lemma message_id_value_wf:
  assumes "request_wf r" "has_message_id r"
  obtains m where "message_id_value r = Some m" "message_id_ok m"
proof -
  obtain start stop where m: "rc_message_id r = Some (start, stop)"
    using assms(2) by (auto simp: has_message_id_def)
  then have "find_message_id (rc_args r) = Some (start, stop)"
    using assms(1) by (simp add: request_wf_def)
  then obtain pre mid post where d: "rc_args r = pre @ mid @ post" "start = length pre"
      "stop = start + length mid" and ok: "message_id_ok (MessageId mid)"
    by (auto simp: find_message_id_Some_iff)
  have "subrange start stop (rc_args r) = mid" using d by (simp add: subrange_def)
  moreover have "from_utf8 mid = Some mid"
    using message_id_ok_utf8 [OF ok] by (simp add: from_utf8_def)
  moreover have "message_id_new mid = Inr (MessageId mid)" using ok by (simp add: message_id_new_Inr_iff)
  ultimately have "message_id_value r = Some (MessageId mid)"
    using m by (simp add: message_id_value_def)
  then show ?thesis using ok that by blast
qed

section \<open>Round trip of the wire form\<close>

definition request_wire :: "RequestContext \<Rightarrow> bytes" where
  "request_wire r = concat (wire_slices r)"

lemma length_request_wire: "length (request_wire r) = request_wire_len r"
  by (simp add: request_wire_def wire_slices_def request_wire_len_def)

lemma trim_line_end_crlf [simp]:
  "(\<And>c. c \<in> set body \<Longrightarrow> c \<noteq> CR \<and> c \<noteq> LF) \<Longrightarrow> trim_line_end (body @ CRLF) = body"
  by (cases body rule: rev_cases) (auto simp: trim_line_end_def)

context memchr_lib
begin

lemma request_parse_body:
  assumes "\<And>c. c \<in> set body \<Longrightarrow> c \<noteq> CR \<and> c \<noteq> LF" and "length body \<le> 510"
    and sep: "\<And>c. c \<in> set verb \<Longrightarrow> c \<noteq> SP \<and> c \<noteq> TAB" and "verb \<noteq> []"
    and body: "body = verb @ rest" "rest = [] \<and> args = [] \<or> (\<exists>s \<in> {SP, TAB}. rest = s # args)"
  shows "request_parse M (body @ CRLF) = Some (from_verb_args verb args)"
proof -
  have trim: "trim_line_end (body @ CRLF) = body" using assms(1) by simp
  have "position (\<lambda>c. c = SP \<or> c = TAB) body = (if rest = [] then None else Some (length verb))"
  proof (cases "rest = []")
    case True
    then show ?thesis using sep by (auto simp: body(1) position_None_iff)
  next
    case False
    then obtain s where s: "s \<in> {SP, TAB}" "rest = s # args" using body(2) by blast
    have "position (\<lambda>c. c = SP \<or> c = TAB) (verb @ s # args) = Some (length verb)"
      by (rule position_append_hit) (use sep s(1) in auto)
    with s False show ?thesis by (simp add: body(1))
  qed
  then have "request_line_parse M (body @ CRLF) =
      (classify_verb verb, verb, args, find_message_id args)"
    unfolding request_line_parse_def trim using body by (auto simp: Let_def)
  then show ?thesis
    using assms(2) \<open>verb \<noteq> []\<close>
    by (simp add: request_parse_def MAX_COMMAND_LINE_OCTETS_def from_verb_args_def)
qed

lemma request_parse_crlf:
  assumes parse: "request_parse M (body @ CRLF) = Some r"
    and nocrlf: "\<And>c. c \<in> set body \<Longrightarrow> c \<noteq> CR \<and> c \<noteq> LF"
  obtains verb rest args where "r = from_verb_args verb args" "length body \<le> 510" "verb \<noteq> []"
    "\<forall>c \<in> set verb. c \<noteq> SP \<and> c \<noteq> TAB" "body = verb @ rest"
    "rest = [] \<and> args = [] \<or> (\<exists>s \<in> {SP, TAB}. rest = s # args)"
proof -
  define verb where "verb = takeWhile (\<lambda>c. c \<noteq> SP \<and> c \<noteq> TAB) body"
  define rest where "rest = dropWhile (\<lambda>c. c \<noteq> SP \<and> c \<noteq> TAB) body"
  define args where "args = drop 1 rest"
  have b: "body = verb @ rest" by (simp add: verb_def rest_def)
  have sep: "c \<noteq> SP \<and> c \<noteq> TAB" if "c \<in> set verb" for c
    using set_takeWhileD [OF that [unfolded verb_def]] by simp
  have rest: "rest = [] \<and> args = [] \<or> (\<exists>s \<in> {SP, TAB}. rest = s # args)"
  proof (cases rest)
    case (Cons s xs)
    then have "\<not> (s \<noteq> SP \<and> s \<noteq> TAB)"
      using hd_dropWhile [of "\<lambda>c. c \<noteq> SP \<and> c \<noteq> TAB" body] by (simp add: rest_def)
    with Cons show ?thesis by (auto simp: args_def)
  qed (simp add: args_def)
  have len: "length body \<le> 510"
    using parse by (simp add: request_parse_def MAX_COMMAND_LINE_OCTETS_def split: if_splits)
  have "verb \<noteq> []"
  proof
    assume "verb = []"
    then have "position (\<lambda>c. c = SP \<or> c = TAB) body = (if body = [] then None else Some 0)"
      using rest b by auto
    then have "fst (snd (request_line_parse M (body @ CRLF))) = []"
      using nocrlf by (simp add: request_line_parse_def Let_def)
    then show False using parse by (auto simp: request_parse_def split: if_splits prod.splits)
  qed
  moreover have "r = from_verb_args verb args"
    using request_parse_body [OF nocrlf len sep \<open>verb \<noteq> []\<close> b rest] parse by simp
  ultimately show ?thesis using that len sep b rest by blast
qed

lemma request_parse_wire:
  assumes parse: "request_parse M (body @ CRLF) = Some r"
    and nocrlf: "\<And>c. c \<in> set body \<Longrightarrow> c \<noteq> CR \<and> c \<noteq> LF"
  shows "request_parse M (request_wire r) = Some r"
    and "request_wire_len r \<le> length (body @ CRLF)"
proof -
  obtain verb rest args where r: "r = from_verb_args verb args" and len: "length body \<le> 510"
    and "verb \<noteq> []" and sep: "\<forall>c \<in> set verb. c \<noteq> SP \<and> c \<noteq> TAB"
    and b: "body = verb @ rest" "rest = [] \<and> args = [] \<or> (\<exists>s \<in> {SP, TAB}. rest = s # args)"
    using request_parse_crlf [OF assms] by metis
  define body' where "body' = verb @ (if args = [] then [] else SP # args)"
  have wire: "request_wire r = body' @ CRLF"
    by (simp add: request_wire_def wire_slices_def r body'_def from_verb_args_def from_parts_def)
  have le: "length body' \<le> length body" using b by (auto simp: body'_def)
  have sub: "set body' \<subseteq> insert SP (set body)" using b by (auto simp: body'_def)
  have "c \<noteq> CR \<and> c \<noteq> LF" if "c \<in> set body'" for c
    using subsetD [OF sub that] nocrlf [of c] by auto
  then have "request_parse M (body' @ CRLF) = Some (from_verb_args verb args)"
    by (rule request_parse_body [OF _ _ bspec [OF sep] \<open>verb \<noteq> []\<close> body'_def]) (use le len in auto)
  then show "request_parse M (request_wire r) = Some r" by (simp only: wire r [symmetric])
  show "request_wire_len r \<le> length (body @ CRLF)"
    using le by (simp add: wire flip: length_request_wire)
qed

end

lemma send_to_sent:
  assumes "writer_lib W" "send_to W r w = (w', res)"
  shows "\<exists>p. prefix p (request_wire r) \<and> sent W w' = sent W w @ p \<and>
             (res = Inr () \<longrightarrow> p = request_wire r)"
proof -
  obtain w1 r1 where w1: "write_all_vectored W w (wire_slices r) = (w1, r1)" by fastforce
  from writer_lib.write_all_vectored_sent [OF assms(1) w1] obtain p where
    p: "prefix p (request_wire r)" "sent W w1 = sent W w @ p" "r1 = Inr () \<longrightarrow> p = request_wire r"
    by (auto simp: request_wire_def)
  have "sent W w' = sent W w1" "res = Inr () \<longrightarrow> r1 = Inr ()"
    using assms(2) w1 writer_lib.flush_sent [OF assms(1), of w1]
    by (auto simp: send_to_def write_wire_to_def split: sum.splits)
  with p show ?thesis by auto
qed



section \<open>Response shape\<close>

text \<open>The commands and statuses of RFC 3977 whose response is a multiline block.\<close>

definition rfc_multiline :: "(RequestKind \<times> u16) set" where
  "rfc_multiline = {(Article, 220), (Head, 221), (Body, 222), (ListGroup, 211), (Help, 100),
     (Capabilities, 101), (List, 215), (Over, 224), (Xover, 224), (Hdr, 225), (Xhdr, 221),
     (Xhdr, 225), (NewNews, 230), (NewGroups, 231)}"

text \<open>
  Response shape: a multiline body never follows an error status, for every known command the
  multiline statuses are those RFC 3977 gives that command, and commands outside that table never
  have a body; in particular 211 is multiline for \<open>LISTGROUP\<close> only.
\<close>

theorem response_body_shape:
  "(request_kind_has_response_body kind status \<longrightarrow> \<not> is_error status) \<and>
   (kind \<noteq> Unknown \<longrightarrow>
      request_kind_has_response_body kind status = ((kind, into_inner status) \<in> rfc_multiline)) \<and>
   (into_inner status = 211 \<longrightarrow> request_kind_has_response_body kind status = (kind = ListGroup))"
  by (cases kind; cases status)
     (auto simp: request_kind_has_response_body_def is_error_def rfc_multiline_def Let_def
        status_implies_response_body_def)

theorem response_body_shape_witness:
  "request_kind_has_response_body ListGroup (StatusCode 211) \<and>
   \<not> request_kind_has_response_body Group (StatusCode 211) \<and>
   \<not> request_kind_has_response_body Article (StatusCode 430)"
  using response_body_shape [of ListGroup "StatusCode 211"] response_body_shape [of Group "StatusCode 211"]
    response_body_shape [of Article "StatusCode 430"]
  by (simp add: is_error_def rfc_multiline_def)

end
