(* ===== verification/Command.thy ===== *)
theory Command
  imports Request
begin

text \<open>
  Command classification: \<open>src/src/command/handler.rs\<close>. A parsed request, the client's access and
  the routing mode of the session determine the plan that the session executes: intercept an
  \<open>AUTHINFO\<close> or \<open>CAPABILITIES\<close>, forward, reject with a fixed response, demand authentication, or
  switch a hybrid session to stateful routing.
\<close>

section \<open>Data\<close>

datatype RoutingMode = StatefulMode | PerCommandMode | HybridMode

datatype AuthenticationAccess = Required | AuthenticatedAccess | Unrestricted

definition from_auth_enabled :: "bool \<Rightarrow> AuthenticationAccess" where
  "from_auth_enabled auth_enabled = (if auth_enabled then Required else Unrestricted)"

definition can_access_backend :: "AuthenticationAccess \<Rightarrow> bool" where
  "can_access_backend a \<longleftrightarrow> a \<noteq> Required"

definition access_auth_enabled :: "AuthenticationAccess \<Rightarrow> bool" where
  "access_auth_enabled a \<longleftrightarrow> a \<noteq> Unrestricted"

definition after_success :: "AuthenticationAccess \<Rightarrow> AuthenticationAccess" where
  "after_success a =
     (case a of Required \<Rightarrow> AuthenticatedAccess
      | AuthenticatedAccess \<Rightarrow> a | Unrestricted \<Rightarrow> a)"

datatype AuthAction =
    RequestPassword bytes | ValidateAndRespond bytes | UnknownSubcommand

record RejectResponse =
  rej_status :: StatusCode
  rej_wire :: bytes

datatype CommandPlan =
    InterceptAuth AuthAction
  | Reject RejectResponse
  | Forward
  | RequireAuth
  | SwitchToStateful RequestContext
  | InterceptCapabilities

section \<open>Rejections\<close>

definition wire_status :: "bytes \<Rightarrow> u16" where
  "wire_status bs =
     (if length bs < 3 then 0
      else let d0 = digit_of (bs ! 0); d1 = digit_of (bs ! 1); d2 = digit_of (bs ! 2)
           in if d0 > 9 \<or> d1 > 9 \<or> d2 > 9 then 0 else combine_digits d0 d1 d2)"

text \<open>\<open>RejectResponse::new\<close>; \<open>None\<close> is the failing assertion.\<close>

definition reject_new :: "StatusCode \<Rightarrow> bytes \<Rightarrow> RejectResponse option" where
  "reject_new status wire =
     (if wire_status wire = into_inner status
      then Some \<lparr>rej_status = status, rej_wire = wire\<rparr> else None)"

definition reject_metadata :: "RejectResponse \<Rightarrow> RequestResponseMetadata" where
  "reject_metadata r = \<lparr>rm_status = rej_status r, rm_wire_len = length (rej_wire r)\<rparr>"

definition POST_REJECT :: RejectResponse where
  "POST_REJECT = \<lparr>rej_status = StatusCode 440, rej_wire = ''440 Posting not permitted'' @ CRLF\<rparr>"
definition TRANSIT_REJECT :: RejectResponse where
  "TRANSIT_REJECT = \<lparr>rej_status = StatusCode 503,
     rej_wire = ''503 Feature not supported in per-command routing mode'' @ CRLF\<rparr>"
definition STATEFUL_REJECT :: RejectResponse where
  "STATEFUL_REJECT = \<lparr>rej_status = StatusCode 503,
     rej_wire = ''503 Feature not supported in stateless proxy mode'' @ CRLF\<rparr>"
definition TRANSPORT_REJECT :: RejectResponse where
  "TRANSPORT_REJECT = \<lparr>rej_status = StatusCode 503,
     rej_wire = ''503 Transport-changing command not supported'' @ CRLF\<rparr>"

lemmas reject_constants =
  POST_REJECT_def TRANSIT_REJECT_def STATEFUL_REJECT_def TRANSPORT_REJECT_def

definition rejection_for :: "RequestContext \<Rightarrow> RejectResponse" where
  "rejection_for r =
     (case rc_kind r of
        Post \<Rightarrow> POST_REJECT
      | Ihave \<Rightarrow> TRANSIT_REJECT
      | Compress \<Rightarrow> TRANSPORT_REJECT
      | StartTls \<Rightarrow> TRANSPORT_REJECT
      | _ \<Rightarrow> (case route_class r of StatefulRoute \<Rightarrow> STATEFUL_REJECT | _ \<Rightarrow> TRANSIT_REJECT))"

section \<open>\<open>AUTHINFO\<close> arguments\<close>

definition trim_ascii :: "bytes \<Rightarrow> bytes" where
  "trim_ascii bs =
     (let start = (case position (\<lambda>b. \<not> is_ascii_whitespace b) bs of
                     Some i \<Rightarrow> i | None \<Rightarrow> length bs);
          end = (case rposition (\<lambda>b. \<not> is_ascii_whitespace b) bs of
                   Some i \<Rightarrow> i + 1 | None \<Rightarrow> start)
      in subrange start end bs)"

definition strip_authinfo_arg :: "bytes \<Rightarrow> bytes \<Rightarrow> bytes option" where
  "strip_authinfo_arg args0 subcommand =
     (let args = trim_ascii args0;
          split = (case position is_ascii_whitespace args of Some i \<Rightarrow> i | None \<Rightarrow> length args);
          head = take split args;
          tail = trim_ascii (drop split args)
      in if eq_ignore_ascii_case head subcommand then from_utf8 tail else None)"

definition classify_auth :: "bytes \<Rightarrow> AuthAction" where
  "classify_auth args =
     (case strip_authinfo_arg args ''USER'' of
        Some username \<Rightarrow> RequestPassword username
      | None \<Rightarrow>
          (case strip_authinfo_arg args ''PASS'' of
             Some password \<Rightarrow> ValidateAndRespond password
           | None \<Rightarrow> UnknownSubcommand))"

section \<open>Classification\<close>

definition classify_request ::
    "RequestContext \<Rightarrow> AuthenticationAccess \<Rightarrow> RoutingMode \<Rightarrow> CommandPlan" where
  "classify_request request auth_access routing_mode =
     (case rc_kind request of
        AuthInfo \<Rightarrow> InterceptAuth (classify_auth (rc_args request))
      | Capabilities \<Rightarrow> InterceptCapabilities
      | Quit \<Rightarrow> Forward
      | _ \<Rightarrow>
        (case route_class request of
           ArticleByMessageId \<Rightarrow> if can_access_backend auth_access then Forward else RequireAuth
         | Stateless \<Rightarrow> if can_access_backend auth_access then Forward else RequireAuth
         | StatefulRoute \<Rightarrow>
             if routing_mode = HybridMode then
               (if can_access_backend auth_access then SwitchToStateful request else RequireAuth)
             else if \<not> can_access_backend auth_access then RequireAuth
             else Reject (rejection_for request)
         | RejectRoute \<Rightarrow>
             if \<not> can_access_backend auth_access then RequireAuth
             else Reject (rejection_for request)
         | LocalRoute \<Rightarrow>
             if routing_mode = StatefulMode then Forward else Reject TRANSIT_REJECT))"

definition prepare_stateful_handoff ::
    "RequestContext \<Rightarrow> AuthenticationAccess \<Rightarrow> RoutingMode \<Rightarrow> RequestContext + RequestContext" where
  "prepare_stateful_handoff request auth_access routing_mode =
     (case classify_request request auth_access routing_mode of
        SwitchToStateful _ \<Rightarrow> Ok request | _ \<Rightarrow> Err request)"

text \<open>\<open>ArticleLookupRequest::new\<close> and its accessor; the outer \<open>None\<close> of the accessor is the panic.\<close>

definition article_lookup_request :: "RequestContext \<Rightarrow> RequestContext option" where
  "article_lookup_request r = (if route_class r = ArticleByMessageId then Some r else None)"

definition article_lookup_message_id :: "RequestContext \<Rightarrow> MessageId option" where
  "article_lookup_message_id r = message_id_value r"

section \<open>Lemmas\<close>

lemma route_class_local: "route_class r = LocalRoute \<longleftrightarrow> rc_kind r \<in> {Capabilities, Quit, AuthInfo}"
  by (simp add: route_class_def route_class_of_def)

lemma classify_request_Forward_iff:
  "classify_request r acc m = Forward \<longleftrightarrow>
     rc_kind r = Quit \<or> can_access_backend acc \<and> route_class r \<in> {ArticleByMessageId, Stateless}"
  by (cases "rc_kind r"; cases "route_class r")
     (auto simp: classify_request_def route_class_def route_class_of_def split: if_splits)

lemma classify_request_Switch_iff:
  "classify_request r acc m = SwitchToStateful r' \<longleftrightarrow>
     r' = r \<and> m = HybridMode \<and> can_access_backend acc \<and> route_class r = StatefulRoute"
  by (cases "rc_kind r"; cases "route_class r")
     (auto simp: classify_request_def route_class_def route_class_of_def split: if_splits)

lemma classify_request_Reject_iff:
  "classify_request r acc m = Reject rej \<longleftrightarrow>
     rej = rejection_for r \<and> can_access_backend acc \<and>
     (route_class r = RejectRoute \<or> route_class r = StatefulRoute \<and> m \<noteq> HybridMode)"
  by (cases "rc_kind r"; cases "route_class r")
     (auto simp: classify_request_def route_class_def route_class_of_def split: if_splits)

lemma classify_request_RequireAuth_iff:
  "classify_request r acc m = RequireAuth \<longleftrightarrow> \<not> can_access_backend acc \<and> route_class r \<noteq> LocalRoute"
  by (cases "rc_kind r"; cases "route_class r")
     (auto simp: classify_request_def route_class_def route_class_of_def split: if_splits)

lemma classify_request_InterceptAuth_iff:
  "classify_request r acc m = InterceptAuth a \<longleftrightarrow> rc_kind r = AuthInfo \<and> a = classify_auth (rc_args r)"
  by (cases "rc_kind r"; cases "route_class r")
     (auto simp: classify_request_def route_class_def route_class_of_def split: if_splits)

lemma classify_request_InterceptCapabilities_iff:
  "classify_request r acc m = InterceptCapabilities \<longleftrightarrow> rc_kind r = Capabilities"
  by (cases "rc_kind r"; cases "route_class r")
     (auto simp: classify_request_def route_class_def route_class_of_def split: if_splits)

lemmas classify_request_iffs =
  classify_request_Forward_iff classify_request_Switch_iff classify_request_Reject_iff
  classify_request_RequireAuth_iff classify_request_InterceptAuth_iff
  classify_request_InterceptCapabilities_iff



lemma wire_status_try_new: "status_parse bs = (if wire_status bs = 0 then None else try_new (wire_status bs))"
  by (auto simp: status_parse_def wire_status_def Let_def try_new_def STATUS_MIN_def)

lemma wire_status_constants [simp]:
  "wire_status (rej_wire POST_REJECT) = 440" "wire_status (rej_wire TRANSIT_REJECT) = 503"
  "wire_status (rej_wire STATEFUL_REJECT) = 503" "wire_status (rej_wire TRANSPORT_REJECT) = 503"
  by code_simp+

lemma reject_status_constants [simp]:
  "rej_status POST_REJECT = StatusCode 440" "rej_status TRANSIT_REJECT = StatusCode 503"
  "rej_status STATEFUL_REJECT = StatusCode 503" "rej_status TRANSPORT_REJECT = StatusCode 503"
  by (simp_all add: reject_constants)

text \<open>
  A request that the classifier rejects gets a well-formed response: the compile-time assertion
  of \<open>RejectResponse::new\<close> holds for it, its text parses to the status it is recorded with, that
  status is an error (so no body follows for any request kind), and it ends with CRLF.
\<close>

theorem classify_reject_response:
  assumes "classify_request r acc mode = Reject rej"
  shows "reject_new (rej_status rej) (rej_wire rej) = Some rej \<and>
         status_parse (rej_wire rej) = Some (rej_status rej) \<and>
         \<not> has_response_body r (rej_status rej) \<and> suffix CRLF (rej_wire rej)"
proof -
  have rej: "rej \<in> {POST_REJECT, TRANSIT_REJECT, STATEFUL_REJECT, TRANSPORT_REJECT}"
    using assms unfolding classify_request_Reject_iff rejection_for_def
    by (cases "rc_kind r"; cases "route_class r") simp_all
  then have "suffix CRLF (rej_wire rej)" by (auto simp: reject_constants suffix_def)
  moreover have "is_error (rej_status rej)" using rej by (auto simp: is_error_def)
  moreover have "wire_status (rej_wire rej) = into_inner (rej_status rej)" using rej by auto
  moreover have "try_new (into_inner (rej_status rej)) = Some (rej_status rej)"
    "into_inner (rej_status rej) \<noteq> 0"
    using rej by (auto simp: try_new_def STATUS_MIN_def STATUS_MAX_def)
  ultimately show ?thesis
    by (simp add: reject_new_def wire_status_try_new has_response_body_def
        request_kind_has_response_body_def)
qed

theorem classify_reject_response_witness:
  "classify_request (from_verb_args ''POST'' []) Unrestricted HybridMode = Reject POST_REJECT \<and>
   status_parse (rej_wire POST_REJECT) = Some (StatusCode 440)"
proof -
  have "rc_kind (from_verb_args ''POST'' []) = Post"
    by (simp add: from_verb_args_def from_parts_def classify_verb_def Let_def
        eq_ignore_ascii_case_const_def ascii_upper_def)
  then have c: "classify_request (from_verb_args ''POST'' []) Unrestricted HybridMode = Reject POST_REJECT"
    by (simp add: classify_request_def route_class_def route_class_of_def can_access_backend_def
        rejection_for_def)
  with classify_reject_response [OF c] show ?thesis by simp
qed

text \<open>
  \<open>ArticleLookupRequest::message_id\<close> never panics: whenever a parsed request is granted the
  article-lookup capability, it is an \<open>ARTICLE\<close>, \<open>BODY\<close>, \<open>HEAD\<close> or \<open>STAT\<close>, and its message ID is
  present and valid.
\<close>

theorem article_lookup_total:
  assumes "request_parse M line = Some r" "article_lookup_request r = Some r'"
  shows "rc_kind r' \<in> {Article, Body, Head, Stat} \<and>
         (\<exists>m. article_lookup_message_id r' = Some m \<and> message_id_ok m)"
proof -
  have "route_class r = ArticleByMessageId" "r' = r"
    using assms(2) by (auto simp: article_lookup_request_def split: if_splits)
  then have "has_message_id r" "rc_kind r' \<in> {Article, Body, Head, Stat}"
    by (auto simp: route_class_def route_class_of_def split: if_splits)
  with \<open>r' = r\<close> show ?thesis
    using message_id_value_wf [OF request_wf_new(1) [OF assms(1)]]
    by (metis article_lookup_message_id_def)
qed

theorem article_lookup_total_witness:
  "\<exists>r m. request_parse memchr_ref (''STAT <a@b>'' @ CRLF) = Some r \<and>
         article_lookup_message_id r = Some m"
proof -
  let ?r = "from_verb_args ''STAT'' ''<a@b>''"
  have p: "request_parse memchr_ref (''STAT <a@b>'' @ CRLF) = Some ?r"
    by (simp add: request_parse_def request_line_parse_def trim_line_end_def Let_def
        MAX_COMMAND_LINE_OCTETS_def from_verb_args_def)
  have "find_message_id ''<a@b>'' = Some (0, 5)"
    using find_message_id_exact [OF message_id_ok_literal] by simp
  then have "has_message_id ?r"
    by (simp add: from_verb_args_def from_parts_def has_message_id_def)
  moreover have "rc_kind ?r = Stat"
    by (simp add: from_verb_args_def from_parts_def classify_verb_def Let_def
        eq_ignore_ascii_case_const_def ascii_upper_def)
  ultimately have "article_lookup_request ?r = Some ?r"
    by (simp add: article_lookup_request_def route_class_def route_class_of_def)
  from article_lookup_total [OF p this] p show ?thesis by blast
qed

section \<open>\<open>AUTHINFO\<close> round trip\<close>

lemma trim_ascii_decomposed:
  assumes "mid \<noteq> []"
    and ws: "\<forall>c \<in> set pre. is_ascii_whitespace c" "\<forall>c \<in> set post. is_ascii_whitespace c"
    and nonws: "nonws (hd mid)" "nonws (last mid)"
  shows "trim_ascii (pre @ mid @ post) = mid"
proof -
  obtain a mid' where a: "mid = a # mid'" using \<open>mid \<noteq> []\<close> by (cases mid) auto
  obtain mid'' z where z: "mid = mid'' @ [z]" using \<open>mid \<noteq> []\<close> by (metis rev_exhaust)
  have "position nonws (pre @ mid @ post) = Some (length pre)"
    using nonws ws by (simp add: a)
  moreover have "position nonws (rev post @ z # rev mid'' @ rev pre) = Some (length (rev post))"
    by (rule position_append_hit) (use ws nonws z in auto)
  then have "rposition nonws (pre @ mid @ post) = Some (length pre + length mid - 1)"
    by (simp add: z rposition_def)
  ultimately show ?thesis
    using \<open>mid \<noteq> []\<close> by (simp add: trim_ascii_def Let_def subrange_def)
qed

lemma trim_ascii_trimmed: "mid \<noteq> [] \<Longrightarrow> nonws (hd mid) \<Longrightarrow> nonws (last mid) \<Longrightarrow> trim_ascii mid = mid"
  using trim_ascii_decomposed [of mid "[]" "[]"] by simp

lemma trim_ascii_Nil [simp]: "trim_ascii [] = []"
  by (simp add: trim_ascii_def subrange_def)

lemma trim_ascii_ws: "\<forall>c \<in> set s. is_ascii_whitespace c \<Longrightarrow> trim_ascii s = []"
proof -
  assume "\<forall>c \<in> set s. is_ascii_whitespace c"
  then have "position nonws s = None" "position nonws (rev s) = None"
    by (auto simp: position_None_iff)
  then show ?thesis by (simp add: trim_ascii_def rposition_def subrange_def)
qed

lemma strip_authinfo_arg_word:
  assumes sub: "sub \<noteq> []" "\<forall>c \<in> set sub. nonws c"
    and u: "u = [] \<or> nonws (hd u) \<and> nonws (last u)"
  shows "strip_authinfo_arg (sub @ [SP] @ u) cmd =
    (if eq_ignore_ascii_case sub cmd then from_utf8 u else None)"
proof (cases "u = []")
  case True
  have "trim_ascii ([] @ sub @ [SP]) = sub"
    by (rule trim_ascii_decomposed) (use sub in \<open>auto simp: is_ascii_whitespace_def\<close>)
  moreover have "position is_ascii_whitespace sub = None"
    using sub by (auto simp: position_None_iff)
  ultimately show ?thesis using True by (simp add: strip_authinfo_arg_def Let_def)
next
  case False
  then have ends: "nonws (hd u)" "nonws (last u)" using u by auto
  have t: "trim_ascii (sub @ [SP] @ u) = sub @ SP # u"
    using trim_ascii_trimmed [of "sub @ [SP] @ u"] sub ends False by simp
  have "is_ascii_whitespace SP" by (simp add: is_ascii_whitespace_def)
  then have p: "position is_ascii_whitespace (sub @ SP # u) = Some (length sub)"
    using sub by simp
  have "trim_ascii ([SP] @ u @ []) = u"
    by (rule trim_ascii_decomposed) (use False ends in \<open>auto simp: is_ascii_whitespace_def\<close>)
  with t p show ?thesis by (simp add: strip_authinfo_arg_def Let_def)
qed

text \<open>
  \<open>AUTHINFO\<close> round trip: the commands that the proxy builds to log in to a backend are read
  back by its own classifier as the same user name and password, for every UTF-8 string that does
  not start or end with ASCII whitespace (inner blanks included).
\<close>

theorem authinfo_roundtrip:
  assumes "utf8_valid u" and "u = [] \<or> nonws (hd u) \<and> nonws (last u)"
  shows "classify_request (authinfo_user u) acc mode = InterceptAuth (RequestPassword u) \<and>
         classify_request (authinfo_pass u) acc mode = InterceptAuth (ValidateAndRespond u)"
proof -
  have k: "classify_verb ''AUTHINFO'' = AuthInfo"
    by (simp add: classify_verb_def Let_def eq_ignore_ascii_case_const_def ascii_upper_def)
  have w: "\<forall>c \<in> set ''USER''. nonws c" "\<forall>c \<in> set ''PASS''. nonws c"
    by (simp_all add: is_ascii_whitespace_def)
  have c: "eq_ignore_ascii_case ''USER'' ''USER''" "eq_ignore_ascii_case ''PASS'' ''PASS''"
    "\<not> eq_ignore_ascii_case ''PASS'' ''USER''"
    by (simp_all add: eq_ignore_ascii_case_def to_ascii_lowercase_def)
  show ?thesis
    using strip_authinfo_arg_word [OF _ w(1) assms(2)] strip_authinfo_arg_word [OF _ w(2) assms(2)]
      c assms(1) k
    by (simp add: classify_request_iffs authinfo_user_def authinfo_pass_def from_verb_arg_slices_def
        from_parts_def classify_auth_def from_utf8_def Let_def)
qed

theorem authinfo_roundtrip_witness:
  "classify_request (authinfo_user ''a user'') Required PerCommandMode =
     InterceptAuth (RequestPassword ''a user'')"
  using authinfo_roundtrip [of "''a user''" Required PerCommandMode]
  by (simp add: is_ascii_whitespace_def)

end
