(* ===== verification/Auth.thy ===== *)
theory Auth
  imports Command Io "HOL-Library.AList"
begin

text \<open>
  Client authentication: the credential table of \<open>src/src/auth/handler.rs\<close>, the reducer and the
  write-once identity of \<open>src/src/session/auth_state.rs\<close>, and the \<open>AUTHINFO\<close> handling of
  \<open>src/src/session/common.rs\<close>, over an abstract client writer. A \<open>HashMap\<close> is an association list
  updated with \<open>AList.update\<close>; the \<open>OnceLock\<close> identity is an option that \<open>mark_authenticated\<close> sets
  at most once.
\<close>

section \<open>Credential table\<close>

record Credentials =
  cr_username :: Username
  cr_password :: bytes

type_synonym AuthHandler = "(Username \<times> Credentials) list"

definition credentials_new :: "Username \<Rightarrow> Password \<Rightarrow> Credentials" where
  "credentials_new u p = \<lparr>cr_username = u, cr_password = password_str p\<rparr>"

definition users_insert :: "bytes \<Rightarrow> bytes \<Rightarrow> AuthHandler \<Rightarrow> ValidationError + AuthHandler" where
  "users_insert u p users =
     and_then (username_try_new u) (\<lambda>username.
     and_then (password_try_new p) (\<lambda>password.
       Ok (AList.update username (credentials_new username password) users)))"

definition auth_handler_new :: "bytes option \<Rightarrow> bytes option \<Rightarrow> ValidationError + AuthHandler" where
  "auth_handler_new username password =
     (case (username, password) of
        (Some u, Some p) \<Rightarrow> users_insert u p []
      | _ \<Rightarrow> Ok [])"

fun insert_users :: "(bytes \<times> bytes) list \<Rightarrow> AuthHandler \<Rightarrow> ValidationError + AuthHandler" where
  "insert_users [] users = Ok users"
| "insert_users ((u, p) # rest) users = and_then (users_insert u p users) (insert_users rest)"

definition with_users :: "(bytes \<times> bytes) list \<Rightarrow> ValidationError + AuthHandler" where
  "with_users user_list = insert_users user_list []"

definition is_enabled :: "AuthHandler \<Rightarrow> bool" where
  "is_enabled h \<longleftrightarrow> h \<noteq> []"

definition validate_credentials_bytes :: "AuthHandler \<Rightarrow> bytes \<Rightarrow> bytes \<Rightarrow> bool" where
  "validate_credentials_bytes h username password =
     (if h = [] then True
      else case username_try_new username of
             Inl _ \<Rightarrow> False
           | Inr u \<Rightarrow> (case map_of h u of None \<Rightarrow> False | Some c \<Rightarrow> cr_password c = password))"

section \<open>Reducer\<close>

datatype ClientAuthState = Anonymous | AwaitingPassword Username | Authenticated Username

datatype ClientAuthEvent = User Username | PasswordEvent bytes | UnknownEvent

datatype AuthReducerResult =
    PasswordRequired | Accepted | Rejected | OutOfSequence | AlreadyAuthenticated | UnknownResult

definition client_username :: "ClientAuthState \<Rightarrow> bytes option" where
  "client_username s =
     (case s of Anonymous \<Rightarrow> None
      | AwaitingPassword u \<Rightarrow> Some (username_str u) | Authenticated u \<Rightarrow> Some (username_str u))"

fun decide ::
    "ClientAuthState \<Rightarrow> ClientAuthEvent \<Rightarrow> bool \<Rightarrow> ClientAuthState \<times> AuthReducerResult" where
  "decide (Authenticated u) _ _ = (Authenticated u, AlreadyAuthenticated)"
| "decide Anonymous (User u) _ = (AwaitingPassword u, PasswordRequired)"
| "decide (AwaitingPassword _) (User u) _ = (AwaitingPassword u, PasswordRequired)"
| "decide Anonymous (PasswordEvent _) _ = (Anonymous, OutOfSequence)"
| "decide (AwaitingPassword u) (PasswordEvent _) credentials_valid =
     (if credentials_valid then (Authenticated u, Accepted) else (AwaitingPassword u, Rejected))"
| "decide s UnknownEvent _ = (s, UnknownResult)"

section \<open>Write-once identity\<close>

datatype AuthenticationTransition = NewlyAuthenticated | AlreadyAuthenticatedBefore

type_synonym AuthState = "bytes option"

definition is_authenticated :: "AuthState \<Rightarrow> bool" where
  "is_authenticated a \<longleftrightarrow> a \<noteq> None"

definition mark_authenticated :: "bytes \<Rightarrow> AuthState \<Rightarrow> AuthState \<times> AuthenticationTransition" where
  "mark_authenticated username a =
     (case a of None \<Rightarrow> (Some username, NewlyAuthenticated)
      | Some u \<Rightarrow> (Some u, AlreadyAuthenticatedBefore))"

definition is_authenticated_or_skipped :: "AuthState \<Rightarrow> bool \<Rightarrow> bool" where
  "is_authenticated_or_skipped a skip_check \<longleftrightarrow> skip_check \<or> is_authenticated a"

section \<open>Handling \<open>AUTHINFO\<close>\<close>

datatype SessionErr = IoFailed IoError | Invalid ValidationError

datatype AuthResult =
    AuthOk nat RequestResponseMetadata | AuthNotOk nat RequestResponseMetadata

definition local_response_metadata :: "u16 \<Rightarrow> bytes \<Rightarrow> RequestResponseMetadata" where
  "local_response_metadata status text =
     \<lparr>rm_status = StatusCode status, rm_wire_len = length text\<rparr>"

definition auth_response :: "AuthReducerResult \<Rightarrow> bytes \<times> RequestResponseMetadata" where
  "auth_response result =
     (let (status, text) =
        (case result of
           PasswordRequired \<Rightarrow> (381, AUTH_REQUIRED)
         | Accepted \<Rightarrow> (281, AUTH_ACCEPTED)
         | Rejected \<Rightarrow> (481, AUTH_FAILED)
         | OutOfSequence \<Rightarrow> (482, AUTH_OUT_OF_SEQUENCE)
         | AlreadyAuthenticated \<Rightarrow> (502, AUTH_ALREADY_AUTHENTICATED)
         | UnknownResult \<Rightarrow> (501, AUTH_UNKNOWN_SUBCOMMAND))
      in (text, local_response_metadata status text))"

definition reducer_event :: "AuthAction \<Rightarrow> SessionErr + ClientAuthEvent" where
  "reducer_event auth_action =
     (case auth_action of
        RequestPassword username \<Rightarrow>
          (case username_try_new username of Inl e \<Rightarrow> Err (Invalid e) | Inr u \<Rightarrow> Ok (User u))
      | ValidateAndRespond password \<Rightarrow> Ok (PasswordEvent password)
      | UnknownSubcommand \<Rightarrow> Ok UnknownEvent)"

definition credentials_valid :: "AuthHandler \<Rightarrow> ClientAuthState \<Rightarrow> ClientAuthEvent \<Rightarrow> bool" where
  "credentials_valid h st event =
     (case event of
        PasswordEvent bs \<Rightarrow>
          (case client_username st of None \<Rightarrow> False
           | Some username \<Rightarrow> validate_credentials_bytes h username bs)
      | _ \<Rightarrow> False)"

text \<open>
  \<open>handle_auth_command\<close>: the writer and the reducer state after the call, and the result. The
  reducer state is replaced only after the response was written.
\<close>

definition handle_auth_command ::
    "'w writer_api \<Rightarrow> AuthHandler \<Rightarrow> AuthAction \<Rightarrow> 'w \<Rightarrow> ClientAuthState \<Rightarrow> AuthState
       \<Rightarrow> 'w \<times> ClientAuthState \<times> (SessionErr + AuthResult)" where
  "handle_auth_command W h auth_action w auth_username auth_state =
     (if is_authenticated auth_state then
        (case write_all W w AUTH_ALREADY_AUTHENTICATED of
           (w', Inl e) \<Rightarrow> (w', auth_username, Err (IoFailed e))
         | (w', Inr _) \<Rightarrow>
             (w', auth_username,
              Ok (AuthNotOk (length AUTH_ALREADY_AUTHENTICATED)
                    (local_response_metadata 502 AUTH_ALREADY_AUTHENTICATED))))
      else case reducer_event auth_action of
        Inl e \<Rightarrow> (w, auth_username, Err e)
      | Inr event \<Rightarrow>
          (let valid = credentials_valid h auth_username event;
               (next_state, result) = decide auth_username event valid;
               (text, metadata) = auth_response result
           in case write_all W w text of
                (w', Inl e) \<Rightarrow> (w', auth_username, Err (IoFailed e))
              | (w', Inr _) \<Rightarrow>
                  (w', next_state,
                   Ok (if result = Accepted then AuthOk (length text) metadata
                       else AuthNotOk (length text) metadata))))"

datatype QuitStatus = QuitDetected nat | QuitContinue

definition handle_quit_command ::
    "'w writer_api \<Rightarrow> RequestContext \<Rightarrow> 'w \<Rightarrow> 'w \<times> (SessionErr + QuitStatus)" where
  "handle_quit_command W request w =
     (if rc_kind request = Quit then
        (case write_all W w CONNECTION_CLOSING of
           (w', Inl e) \<Rightarrow> (w', Err (IoFailed e))
         | (w', Inr _) \<Rightarrow> (w', Ok (QuitDetected (length CONNECTION_CLOSING))))
      else (w, Ok QuitContinue))"

text \<open>
  \<open>on_authentication_success\<close> with the session's \<open>set_username\<close> callback: it publishes the
  identity. Its logging and connection-statistics calls leave the session state alone.
\<close>

definition on_authentication_success :: "bytes option \<Rightarrow> AuthState \<Rightarrow> AuthState" where
  "on_authentication_success username auth_state =
     (case username of None \<Rightarrow> auth_state
      | Some u \<Rightarrow> fst (mark_authenticated u auth_state))"

section \<open>Authentication check of a stateful session\<close>

datatype AuthHandlerResult = HAuthenticated nat | HNotAuthenticated nat | HRejected nat

definition handler_bytes_written :: "AuthHandlerResult \<Rightarrow> nat" where
  "handler_bytes_written r = (case r of HAuthenticated n \<Rightarrow> n | HNotAuthenticated n \<Rightarrow> n | HRejected n \<Rightarrow> n)"

definition should_skip_further_checks :: "AuthHandlerResult \<Rightarrow> bool" where
  "should_skip_further_checks r \<longleftrightarrow> (case r of HAuthenticated _ \<Rightarrow> True | _ \<Rightarrow> False)"

definition CAPABILITIES_WITHOUT_AUTHINFO_RESPONSE :: bytes where
  "CAPABILITIES_WITHOUT_AUTHINFO_RESPONSE =
     ''101 Capability list:'' @ CRLF @ ''VERSION 2'' @ CRLF @ ''READER'' @ CRLF @ ''OVER'' @ CRLF
       @ ''HDR'' @ CRLF @ ''.'' @ CRLF"

definition CAPABILITIES_WITH_AUTHINFO_RESPONSE :: bytes where
  "CAPABILITIES_WITH_AUTHINFO_RESPONSE =
     ''101 Capability list:'' @ CRLF @ ''VERSION 2'' @ CRLF @ ''READER'' @ CRLF
       @ ''AUTHINFO USER PASS'' @ CRLF @ ''OVER'' @ CRLF @ ''HDR'' @ CRLF @ ''.'' @ CRLF"

definition capabilities_response :: "bool \<Rightarrow> bytes" where
  "capabilities_response auth_enabled =
     (if auth_enabled then CAPABILITIES_WITH_AUTHINFO_RESPONSE
      else CAPABILITIES_WITHOUT_AUTHINFO_RESPONSE)"

text \<open>The state of a session that authentication reads and changes.\<close>

record 'w AuthSession =
  as_writer :: 'w
  as_client :: ClientAuthState
  as_identity :: AuthState

text \<open>
  Executing an intercepted \<open>AUTHINFO\<close>: the handler, then, on acceptance, the publication of the
  identity. Per-command and stateful sessions share this sequence.
\<close>

definition execute_auth ::
    "'w writer_api \<Rightarrow> AuthHandler \<Rightarrow> AuthAction \<Rightarrow> 'w AuthSession
       \<Rightarrow> 'w AuthSession \<times> (SessionErr + AuthResult)" where
  "execute_auth W h a s =
     (case handle_auth_command W h a (as_writer s) (as_client s) (as_identity s) of
        (w', st', Inr (AuthOk n m)) \<Rightarrow>
          (\<lparr>as_writer = w', as_client = st',
            as_identity = on_authentication_success (client_username st') (as_identity s)\<rparr>,
           Inr (AuthOk n m))
      | (w', st', r) \<Rightarrow> (\<lparr>as_writer = w', as_client = st', as_identity = as_identity s\<rparr>, r))"

definition handle_stateful_auth_check ::
    "'w writer_api \<Rightarrow> AuthHandler \<Rightarrow> RoutingMode \<Rightarrow> RequestContext \<Rightarrow> 'w AuthSession
       \<Rightarrow> 'w AuthSession \<times> (SessionErr + AuthHandlerResult)" where
  "handle_stateful_auth_check W h routing_mode request s =
     (let reply = (\<lambda>bs. case write_all W (as_writer s) bs of
                     (w', Inl e) \<Rightarrow> (s\<lparr>as_writer := w'\<rparr>, Err (IoFailed e))
                   | (w', Inr _) \<Rightarrow> (s\<lparr>as_writer := w'\<rparr>, Ok (HRejected (length bs))))
      in case classify_request request Required routing_mode of
           InterceptCapabilities \<Rightarrow> reply (capabilities_response True)
         | InterceptAuth auth_action \<Rightarrow>
             (case execute_auth W h auth_action s of
                (s', Inl e) \<Rightarrow> (s', Err e)
              | (s', Inr (AuthOk n m)) \<Rightarrow> (s', Ok (HAuthenticated n))
              | (s', Inr (AuthNotOk n m)) \<Rightarrow> (s', Ok (HNotAuthenticated n)))
         | _ \<Rightarrow> reply AUTH_REQUIRED_FOR_COMMAND)"

section \<open>Credential table: lookups\<close>

lemma str_trim_Nil_iff_username:
  "username_try_new s = Inr u \<longleftrightarrow> str_trim s \<noteq> [] \<and> u = Username (str_trim s)"
  by (auto simp: username_try_new_def)

lemma password_try_new_Inr_iff:
  "password_try_new s = Inr p \<longleftrightarrow> str_trim s \<noteq> [] \<and> p = Password (str_trim s)"
  by (auto simp: password_try_new_def)

lemma users_insert_Inr_iff:
  "users_insert u p h = Inr h' \<longleftrightarrow>
     str_trim u \<noteq> [] \<and> str_trim p \<noteq> [] \<and>
     h' = AList.update (Username (str_trim u))
            \<lparr>cr_username = Username (str_trim u), cr_password = str_trim p\<rparr> h"
  by (auto simp: users_insert_def and_then_Inr_iff str_trim_Nil_iff_username
      password_try_new_Inr_iff credentials_new_def)

definition trimmed_users :: "(bytes \<times> bytes) list \<Rightarrow> (bytes \<times> bytes) list" where
  "trimmed_users us = map (\<lambda>(a, b). (str_trim a, str_trim b)) us"

lemma insert_users_lookup:
  "insert_users us h = Inr h' \<Longrightarrow>
     map_option cr_password (map_of h' (Username n)) =
       (case map_of (rev (trimmed_users us)) n of Some p \<Rightarrow> Some p
        | None \<Rightarrow> map_option cr_password (map_of h (Username n)))"
proof (induction us arbitrary: h)
  case Nil
  then show ?case by (simp add: trimmed_users_def)
next
  case (Cons up us)
  obtain u p where up: "up = (u, p)" by (cases up)
  from Cons.prems obtain h1 where h1: "users_insert u p h = Inr h1" "insert_users us h1 = Inr h'"
    by (auto simp: up and_then_Inr_iff)
  from Cons.IH [OF h1(2)] h1(1) show ?case
    by (auto simp: up users_insert_Inr_iff update_conv' trimmed_users_def map_add_def
        split: option.splits)
qed

lemma insert_users_nonempty: "insert_users us h = Inr h' \<Longrightarrow> h' = [] \<longleftrightarrow> us = [] \<and> h = []"
proof (induction us arbitrary: h)
  case (Cons up us)
  obtain u p where up: "up = (u, p)" by (cases up)
  from Cons.prems obtain h1 where h1: "users_insert u p h = Inr h1" "insert_users us h1 = Inr h'"
    by (auto simp: up and_then_Inr_iff)
  have "h1 \<noteq> []" using h1(1) by (cases h) (auto simp: users_insert_Inr_iff)
  with Cons.IH [OF h1(2)] show ?case by simp
qed simp

lemma with_users_validate_iff:
  assumes "with_users us = Inr h"
  shows "validate_credentials_bytes h u p \<longleftrightarrow>
           us = [] \<or> str_trim u \<noteq> [] \<and> map_of (rev (trimmed_users us)) (str_trim u) = Some p"
proof -
  have lookup: "map_option cr_password (map_of h (Username n)) = map_of (rev (trimmed_users us)) n" for n
    using insert_users_lookup [OF assms [unfolded with_users_def], of n]
    by (auto split: option.splits)
  have empty: "h = [] \<longleftrightarrow> us = []"
    using insert_users_nonempty [OF assms [unfolded with_users_def]] by simp
  show ?thesis
  proof (cases "str_trim u = [] \<or> h = []")
    case False
    then have "validate_credentials_bytes h u p \<longleftrightarrow>
        map_option cr_password (map_of h (Username (str_trim u))) = Some p"
      by (auto simp: validate_credentials_bytes_def username_try_new_def split: option.splits)
    with False empty show ?thesis by (simp add: lookup)
  qed (use empty in \<open>auto simp: validate_credentials_bytes_def username_try_new_def\<close>)
qed

text \<open>
  C33. The credential table built by \<open>with_users\<close>: with no users every login is accepted; otherwise
  a login is accepted exactly when its user name, trimmed, is non-empty and the last entry of the
  list with that trimmed name has the given password (trimmed at construction, compared byte for
  byte at login).
\<close>

theorem with_users_validate:
  assumes "with_users us = Inr h"
  shows "validate_credentials_bytes h u p \<longleftrightarrow>
           us = [] \<or> str_trim u \<noteq> [] \<and> map_of (rev (trimmed_users us)) (str_trim u) = Some p"
  by (rule with_users_validate_iff [OF assms])

theorem with_users_validate_witness:
  "\<exists>h. with_users [(''bob'', ''x''), (''bob'', ''y'')] = Inr h \<and>
       validate_credentials_bytes h ''bob'' ''y'' \<and> \<not> validate_credentials_bytes h ''bob'' ''x''"
proof -
  let ?us = "[(''bob'', ''x''), (''bob'', ''y'')]"
  have t: "str_trim ''bob'' = ''bob''" "str_trim ''x'' = ''x''" "str_trim ''y'' = ''y''"
    by code_simp+
  then obtain h where h: "with_users ?us = Inr h"
    by (auto simp: with_users_def and_then_Inr_iff users_insert_Inr_iff)
  from with_users_validate [OF h, of "''bob''" "''y''"] with_users_validate [OF h, of "''bob''" "''x''"]
  show ?thesis using h t by (simp add: trimmed_users_def)
qed

section \<open>One \<open>AUTHINFO\<close> exchange\<close>

lemma decide_Authenticated_iff:
  "decide st ev v = (Authenticated u, r) \<longleftrightarrow>
     st = Authenticated u \<and> r = AlreadyAuthenticated \<or>
     st = AwaitingPassword u \<and> (\<exists>p. ev = PasswordEvent p) \<and> v \<and> r = Accepted"
  by (induction st ev v rule: decide.induct) auto

lemma decide_Accepted_iff:
  "decide st ev v = (st', Accepted) \<longleftrightarrow>
     (\<exists>u p. st = AwaitingPassword u \<and> ev = PasswordEvent p \<and> v \<and> st' = Authenticated u)"
  by (induction st ev v rule: decide.induct) auto

lemma decide_Awaiting:
  "decide st ev v = (AwaitingPassword u, r) \<Longrightarrow> st = AwaitingPassword u \<and> (\<forall>u'. ev \<noteq> User u') \<or> ev = User u"
  by (induction st ev v rule: decide.induct) (auto split: if_splits)

lemma reducer_event_Inr_iff:
  "reducer_event a = Inr ev \<longleftrightarrow>
     (\<exists>s u. a = RequestPassword s \<and> username_try_new s = Inr u \<and> ev = User u) \<or>
     (\<exists>p. a = ValidateAndRespond p \<and> ev = PasswordEvent p) \<or>
     a = UnknownSubcommand \<and> ev = UnknownEvent"
  by (cases a) (auto simp: reducer_event_def split: sum.splits)

lemma handle_auth_command_committed:
  assumes "reducer_event a = Inr ev" "decide st ev (credentials_valid h st ev) = (st', res)"
    and "write_all W w (fst (auth_response res)) = (w', Inr x)"
  shows "handle_auth_command W h a w st None =
    (w', st', Inr ((if res = Accepted then AuthOk else AuthNotOk)
                     (length (fst (auth_response res))) (snd (auth_response res))))"
  using assms by (auto simp: handle_auth_command_def is_authenticated_def Let_def split: prod.splits)

text \<open>The outcomes of \<open>execute_auth\<close>: nothing changes but the writer, or the reducer commits.\<close>

lemma execute_auth_cases:
  assumes "execute_auth W h a s = (s', r)"
  obtains (unchanged) "as_client s' = as_client s" "as_identity s' = as_identity s"
      "\<forall>n m. r \<noteq> Inr (AuthOk n m)"
  | (reduced) ev st' res where "as_identity s = None" "reducer_event a = Inr ev"
      "decide (as_client s) ev (credentials_valid h (as_client s) ev) = (st', res)"
      "res \<noteq> Accepted" "as_client s' = st'" "as_identity s' = None"
      "write_all W (as_writer s) (fst (auth_response res)) = (as_writer s', Inr ())"
  | (accepted) u p where "as_identity s = None" "a = ValidateAndRespond p"
      "as_client s = AwaitingPassword u" "validate_credentials_bytes h (username_str u) p"
      "as_client s' = Authenticated u" "as_identity s' = Some (username_str u)"
      "write_all W (as_writer s) AUTH_ACCEPTED = (as_writer s', Inr ())"
proof (cases "as_identity s")
  case (Some i)
  with assms show ?thesis
    by (intro unchanged)
       (auto simp: execute_auth_def handle_auth_command_def is_authenticated_def
         split: prod.splits sum.splits)
next
  case None
  show ?thesis
  proof (cases "reducer_event a")
    case (Inl e)
    with None assms show ?thesis
      by (intro unchanged) (auto simp: execute_auth_def handle_auth_command_def is_authenticated_def)
  next
    case (Inr ev)
    obtain st' res where d: "decide (as_client s) ev (credentials_valid h (as_client s) ev) = (st', res)"
      by fastforce
    obtain w' wr where w: "write_all W (as_writer s) (fst (auth_response res)) = (w', wr)" by fastforce
    show ?thesis
    proof (cases wr)
      case (Inl e)
      with None Inr d w assms show ?thesis
        by (intro unchanged)
           (auto simp: execute_auth_def handle_auth_command_def is_authenticated_def Let_def
             split: prod.splits)
    next
      case wok: (Inr x)
      show ?thesis
      proof (cases "res = Accepted")
        case False
        with None d w wok assms handle_auth_command_committed [OF Inr d w [unfolded wok]] show ?thesis
          by (intro reduced [OF None Inr d]) (auto simp: execute_auth_def)
      next
        case True
        with d obtain u p where u: "as_client s = AwaitingPassword u" "ev = PasswordEvent p"
            "credentials_valid h (as_client s) ev" "st' = Authenticated u"
          by (auto simp: decide_Accepted_iff)
        have "a = ValidateAndRespond p" "validate_credentials_bytes h (username_str u) p"
          using Inr u by (auto simp: reducer_event_Inr_iff credentials_valid_def client_username_def)
        with u None d w wok True assms handle_auth_command_committed [OF Inr d w [unfolded wok]]
        show ?thesis
          by (intro accepted [of p u])
             (auto simp: execute_auth_def client_username_def on_authentication_success_def
               mark_authenticated_def auth_response_def)
      qed
    qed
  qed
qed

text \<open>
  C23. One \<open>AUTHINFO\<close> exchange, whatever the writer does. If it fails (an invalid user name or a
  failed write), neither the reducer state nor the identity changes, so a failed write never
  publishes an authentication. Once an identity is published it never changes: every later
  \<open>AUTHINFO\<close> leaves the state alone and is answered with \<open>502\<close>.
\<close>

theorem execute_auth_transition:
  assumes "writer_lib W" and "execute_auth W h a s = (s', r)"
  shows "(\<forall>e. r = Inl e \<longrightarrow> as_client s' = as_client s \<and> as_identity s' = as_identity s) \<and>
         (\<forall>n. as_identity s = Some n \<longrightarrow>
            as_client s' = as_client s \<and> as_identity s' = Some n \<and>
            (\<exists>p. prefix p AUTH_ALREADY_AUTHENTICATED \<and>
                 sent W (as_writer s') = sent W (as_writer s) @ p \<and>
                 (\<forall>x. r = Inr x \<longrightarrow> p = AUTH_ALREADY_AUTHENTICATED)))"
proof (intro conjI allI impI)
  fix e assume "r = Inl e"
  with assms(2) show "as_client s' = as_client s" "as_identity s' = as_identity s"
    by (auto simp: execute_auth_def handle_auth_command_def Let_def
        split: if_splits sum.splits prod.splits AuthResult.splits)
next
  fix n assume i: "as_identity s = Some n"
  obtain w' wr where w: "write_all W (as_writer s) AUTH_ALREADY_AUTHENTICATED = (w', wr)" by fastforce
  with assms(2) i have "as_writer s' = w'" "as_client s' = as_client s" "as_identity s' = Some n"
    and r: "\<forall>x. r = Inr x \<longrightarrow> wr = Inr ()"
    by (auto simp: execute_auth_def handle_auth_command_def is_authenticated_def
        split: sum.splits)
  with writer_lib.write_all_prefix [OF assms(1) w]
  show "as_client s' = as_client s" "as_identity s' = Some n"
    "\<exists>p. prefix p AUTH_ALREADY_AUTHENTICATED \<and> sent W (as_writer s') = sent W (as_writer s) @ p \<and>
         (\<forall>x. r = Inr x \<longrightarrow> p = AUTH_ALREADY_AUTHENTICATED)"
    by auto
qed

theorem execute_auth_transition_witness:
  "let s = \<lparr>as_writer = \<lparr>sw_sent = [], sw_script = [Some 100]\<rparr>,
            as_client = Authenticated (Username ''bob''), as_identity = Some ''bob''\<rparr>
   in sent script_api (as_writer (fst (execute_auth script_api [] UnknownSubcommand s)))
        = AUTH_ALREADY_AUTHENTICATED"
proof -
  let ?s = "\<lparr>as_writer = \<lparr>sw_sent = [], sw_script = [Some 100]\<rparr>,
             as_client = Authenticated (Username ''bob''), as_identity = Some ''bob''\<rparr>"
  obtain s' r where x: "execute_auth script_api [] UnknownSubcommand ?s = (s', r)" by fastforce
  moreover from x have "\<exists>y. r = Inr y"
    by (auto simp: execute_auth_def handle_auth_command_def is_authenticated_def script_api_def
        AUTH_ALREADY_AUTHENTICATED_def)
  ultimately show ?thesis
    using execute_auth_transition [OF script.writer_lib_axioms x] by (auto simp: script_api_def)
qed

section \<open>Sequences of \<open>AUTHINFO\<close> commands\<close>

inductive auth_trace ::
    "'w writer_api \<Rightarrow> AuthHandler \<Rightarrow> 'w \<Rightarrow> AuthAction list \<Rightarrow> 'w AuthSession \<Rightarrow> bool"
  for W h w0 where
  start: "auth_trace W h w0 [] \<lparr>as_writer = w0, as_client = Anonymous, as_identity = None\<rparr>"
| step: "auth_trace W h w0 as s \<Longrightarrow> execute_auth W h a s = (s', r) \<Longrightarrow> auth_trace W h w0 (as @ [a]) s'"

text \<open>A \<open>USER\<close> with that name followed, later, by a \<open>PASS\<close> that the table accepts for it.\<close>

definition asked_user :: "AuthAction list \<Rightarrow> Username \<Rightarrow> bool" where
  "asked_user as u \<longleftrightarrow> (\<exists>xs t ys. as = xs @ RequestPassword t # ys \<and> username_try_new t = Inr u)"

definition logged_in :: "AuthHandler \<Rightarrow> AuthAction list \<Rightarrow> Username \<Rightarrow> bool" where
  "logged_in h as u \<longleftrightarrow>
     (\<exists>xs p zs. as = xs @ ValidateAndRespond p # zs \<and> asked_user xs u \<and>
                validate_credentials_bytes h (username_str u) p)"

lemma asked_user_append: "asked_user as u \<Longrightarrow> asked_user (as @ bs) u"
  unfolding asked_user_def by (metis append.assoc append_Cons)

lemma logged_in_append: "logged_in h as u \<Longrightarrow> logged_in h (as @ bs) u"
  unfolding logged_in_def by (metis append.assoc append_Cons)

definition auth_inv :: "AuthHandler \<Rightarrow> AuthAction list \<Rightarrow> 'w AuthSession \<Rightarrow> bool" where
  "auth_inv h as s \<longleftrightarrow>
     (case as_client s of
        Anonymous \<Rightarrow> as_identity s = None
      | AwaitingPassword u \<Rightarrow> as_identity s = None \<and> asked_user as u
      | Authenticated u \<Rightarrow> as_identity s = Some (username_str u) \<and> logged_in h as u)"

lemma auth_inv_step:
  assumes inv: "auth_inv h as s" and "execute_auth W h a s = (s', r)"
  shows "auth_inv h (as @ [a]) s'"
  using assms(2)
proof (cases rule: execute_auth_cases)
  case unchanged
  with inv show ?thesis
    by (auto simp: auth_inv_def split: ClientAuthState.splits
        intro: asked_user_append logged_in_append)
next
  case (reduced ev st' res)
  show ?thesis
  proof (cases st')
    case (AwaitingPassword u)
    with reduced(3) consider "as_client s = AwaitingPassword u" | "ev = User u"
      by (auto dest: decide_Awaiting)
    then have "asked_user (as @ [a]) u"
    proof cases
      case 1
      with inv show ?thesis by (simp add: auth_inv_def asked_user_append)
    next
      case 2
      with reduced(2) show ?thesis by (auto simp: asked_user_def reducer_event_Inr_iff)
    qed
    with AwaitingPassword reduced show ?thesis by (simp add: auth_inv_def)
  next
    case (Authenticated u)
    with reduced(3,4) inv reduced(1) show ?thesis by (auto simp: decide_Authenticated_iff auth_inv_def)
  qed (use reduced in \<open>simp add: auth_inv_def\<close>)
next
  case (accepted u p)
  then have "asked_user as u" using inv by (simp add: auth_inv_def)
  with accepted have "logged_in h (as @ [a]) u" by (auto simp: logged_in_def)
  with accepted show ?thesis by (simp add: auth_inv_def)
qed

lemma auth_trace_inv: "auth_trace W h w0 as s \<Longrightarrow> auth_inv h as s"
proof (induction rule: auth_trace.induct)
  case start
  then show ?case by (simp add: auth_inv_def)
next
  case (step as s a s' r)
  then show ?case using auth_inv_step by blast
qed

text \<open>
  C5. Soundness of client authentication: with a non-empty table built by \<open>with_users\<close>, in every
  sequence of \<open>AUTHINFO\<close> commands, with any pattern of failing and partial writes, an identity is
  published only if some \<open>AUTHINFO USER\<close> named it and a later \<open>AUTHINFO PASS\<close> gave the password
  that the table holds for it.
\<close>

theorem auth_sound:
  assumes "with_users us = Inr h" "us \<noteq> []" "auth_trace W h w0 as s" "as_identity s = Some n"
  shows "\<exists>xs t ys p zs. as = xs @ RequestPassword t # ys @ ValidateAndRespond p # zs \<and>
           str_trim t = n \<and> map_of (rev (trimmed_users us)) n = Some p"
proof -
  obtain u where u: "n = username_str u" "logged_in h as u"
    using auth_trace_inv [OF assms(3)] assms(4) by (auto simp: auth_inv_def split: ClientAuthState.splits)
  then obtain xs t ys p zs where as: "as = (xs @ RequestPassword t # ys) @ ValidateAndRespond p # zs"
      "username_try_new t = Inr u" "validate_credentials_bytes h (username_str u) p"
    by (auto simp: logged_in_def asked_user_def)
  then have t: "str_trim t = n" using u(1) by (auto simp: str_trim_Nil_iff_username)
  then have "str_trim n = n" by (metis str_trim_idem)
  with as(3) u(1) assms(2) have "map_of (rev (trimmed_users us)) n = Some p"
    by (auto simp: with_users_validate_iff [OF assms(1)])
  with as(1) t show ?thesis by auto
qed

lemma execute_auth_user:
  assumes "as_identity s = None" "\<forall>u. as_client s \<noteq> Authenticated u" "username_try_new t = Inr u"
    and "write_all W (as_writer s) AUTH_REQUIRED = (w', Inr ())"
  shows "fst (execute_auth W h (RequestPassword t) s) =
    \<lparr>as_writer = w', as_client = AwaitingPassword u, as_identity = None\<rparr>"
proof -
  have e: "reducer_event (RequestPassword t) = Inr (User u)" using assms by (simp add: reducer_event_def)
  have d: "decide (as_client s) (User u) b = (AwaitingPassword u, PasswordRequired)" for b
    using assms(2) by (cases "as_client s") auto
  have "write_all W (as_writer s) (fst (auth_response PasswordRequired)) = (w', Inr ())"
    using assms(4) by (simp add: auth_response_def)
  from handle_auth_command_committed [OF e d this] show ?thesis
    using assms(1) by (simp add: execute_auth_def)
qed

lemma execute_auth_pass:
  assumes "as_identity s = None" "as_client s = AwaitingPassword u"
    and "validate_credentials_bytes h (username_str u) p"
    and "write_all W (as_writer s) AUTH_ACCEPTED = (w', Inr ())"
  shows "fst (execute_auth W h (ValidateAndRespond p) s) =
    \<lparr>as_writer = w', as_client = Authenticated u, as_identity = Some (username_str u)\<rparr>"
proof -
  have e: "reducer_event (ValidateAndRespond p) = Inr (PasswordEvent p)" by (simp add: reducer_event_def)
  have v: "credentials_valid h (as_client s) (PasswordEvent p)"
    using assms by (simp add: credentials_valid_def client_username_def)
  have d: "decide (as_client s) (PasswordEvent p) (credentials_valid h (as_client s) (PasswordEvent p))
      = (Authenticated u, Accepted)"
    using assms(2) v by simp
  have "write_all W (as_writer s) (fst (auth_response Accepted)) = (w', Inr ())"
    using assms(4) by (simp add: auth_response_def)
  from handle_auth_command_committed [OF e d this] show ?thesis
    using assms(1) by (simp add: execute_auth_def on_authentication_success_def client_username_def
        mark_authenticated_def)
qed

lemma execute_auth_login:
  assumes ok: "with_users us = Inr h" "str_trim t \<noteq> []"
      "us = [] \<or> map_of (rev (trimmed_users us)) (str_trim t) = Some p"
    and s: "as_identity s = None" "\<forall>u. as_client s \<noteq> Authenticated u"
    and w: "write_all W (as_writer s) AUTH_REQUIRED = (w1, Inr ())"
      "write_all W w1 AUTH_ACCEPTED = (w2, Inr ())"
  shows "fst (execute_auth W h (ValidateAndRespond p) (fst (execute_auth W h (RequestPassword t) s))) =
    \<lparr>as_writer = w2, as_client = Authenticated (Username (str_trim t)), as_identity = Some (str_trim t)\<rparr>"
proof -
  have "username_try_new t = Inr (Username (str_trim t))"
    using ok(2) by (simp add: username_try_new_def)
  moreover have "validate_credentials_bytes h (str_trim t) p"
    using ok by (simp add: with_users_validate_iff)
  ultimately show ?thesis
    using execute_auth_pass [of "fst (execute_auth W h (RequestPassword t) s)" "Username (str_trim t)"]
    by (simp add: execute_auth_user [OF s _ w(1)] w(2))
qed

lemma auth_trace_execute:
  "auth_trace W h w0 as s \<Longrightarrow> auth_trace W h w0 (as @ [a]) (fst (execute_auth W h a s))"
  by (erule auth_trace.step) (rule prod.collapse [symmetric])

theorem auth_sound_witness:
  "\<exists>h w as s. with_users [(''bob'', ''x'')] = Inr h \<and> auth_trace open_api h w as s \<and>
     as_identity s = Some ''bob'' \<and>
     (\<exists>xs t ys p zs. as = xs @ RequestPassword t # ys @ ValidateAndRespond p # zs \<and>
        str_trim t = ''bob'' \<and> map_of (rev (trimmed_users [(''bob'', ''x'')])) ''bob'' = Some p)"
proof -
  let ?us = "[(''bob'', ''x'')]"
  let ?s = "\<lparr>as_writer = [], as_client = Anonymous, as_identity = None\<rparr>"
  have t: "str_trim ''bob'' = ''bob''" "str_trim ''x'' = ''x''" by code_simp+
  then obtain h where h: "with_users ?us = Inr h"
    by (auto simp: with_users_def and_then_Inr_iff users_insert_Inr_iff)
  let ?s1 = "fst (execute_auth open_api h (RequestPassword ''bob'') ?s)"
  let ?s2 = "fst (execute_auth open_api h (ValidateAndRespond ''x'') ?s1)"
  have "auth_trace open_api h [] ([] @ [RequestPassword ''bob'']) ?s1"
    by (rule auth_trace_execute [OF auth_trace.start])
  then have tr: "auth_trace open_api h [] (([] @ [RequestPassword ''bob'']) @ [ValidateAndRespond ''x'']) ?s2"
    by (rule auth_trace_execute)
  have i: "as_identity ?s2 = Some ''bob''"
    using t by (subst execute_auth_login [OF h])
      (auto simp: trimmed_users_def open_api_def)
  from auth_sound [OF h _ tr i] h tr i show ?thesis by blast
qed

text \<open>
  C24. A correct login succeeds: over a client connection that accepts the responses, \<open>AUTHINFO USER\<close>
  followed by \<open>AUTHINFO PASS\<close> with the password of the table is answered \<open>381\<close> and \<open>281\<close>, and
  publishes the trimmed user name as the session's identity.
\<close>

theorem auth_login:
  assumes "writer_lib W" "with_users us = Inr h" "str_trim t \<noteq> []"
    and "us = [] \<or> map_of (rev (trimmed_users us)) (str_trim t) = Some p"
    and "as_identity s = None" "\<forall>u. as_client s \<noteq> Authenticated u"
    and "\<forall>w b. snd (write_all W w b) = Inr ()"
    and "s2 = fst (execute_auth W h (ValidateAndRespond p)
                     (fst (execute_auth W h (RequestPassword t) s)))"
  shows "as_identity s2 = Some (str_trim t) \<and>
         sent W (as_writer s2) = sent W (as_writer s) @ AUTH_REQUIRED @ AUTH_ACCEPTED"
proof -
  obtain w1 where w1: "write_all W (as_writer s) AUTH_REQUIRED = (w1, Inr ())"
    using assms(7) by (metis prod.collapse)
  obtain w2 where w2: "write_all W w1 AUTH_ACCEPTED = (w2, Inr ())"
    using assms(7) by (metis prod.collapse)
  have "sent W w2 = sent W (as_writer s) @ AUTH_REQUIRED @ AUTH_ACCEPTED"
    using writer_lib.write_all_Ok [OF assms(1) w1] writer_lib.write_all_Ok [OF assms(1) w2] by simp
  then show ?thesis by (simp add: assms(8) execute_auth_login [OF assms(2-6) w1 w2])
qed

theorem auth_login_witness:
  "as_identity (fst (execute_auth open_api [] (ValidateAndRespond ''x'')
      (fst (execute_auth open_api [] (RequestPassword ''bob'')
         \<lparr>as_writer = [], as_client = Anonymous, as_identity = None\<rparr>)))) = Some ''bob''"
proof -
  have t: "str_trim ''bob'' = ''bob''" by code_simp
  show ?thesis
    using auth_login [OF open_conn.writer_lib_axioms _ _ _ _ _ _ refl, of "[]" "[]" "''bob''" "''x''"
        "\<lparr>as_writer = [], as_client = Anonymous, as_identity = None\<rparr>"] t
    by (simp add: with_users_def open_api_def)
qed

section \<open>The check of a stateful session\<close>

lemma execute_auth_identity_iff:
  assumes "execute_auth W h a s = (s', r)"
  shows "(\<exists>n m. r = Inr (AuthOk n m)) \<longleftrightarrow> as_identity s = None \<and> as_identity s' \<noteq> None"
proof (cases "as_identity s")
  case (Some i)
  with assms show ?thesis
    by (auto simp: execute_auth_def handle_auth_command_def is_authenticated_def
        split: prod.splits sum.splits)
next
  case None
  show ?thesis
  proof (cases "\<exists>n m. r = Inr (AuthOk n m)")
    case True
    with assms show ?thesis
    proof (cases rule: execute_auth_cases)
      case (reduced ev st' res)
      then show ?thesis
        using assms None handle_auth_command_committed [OF reduced(2,3,7)] True
        by (auto simp: execute_auth_def)
    qed (use None True in auto)
  next
    case False
    with assms show ?thesis
    proof (cases rule: execute_auth_cases)
      case (accepted u p)
      have "decide (as_client s) (PasswordEvent p) (credentials_valid h (as_client s) (PasswordEvent p))
          = (Authenticated u, Accepted)"
        using accepted by (simp add: credentials_valid_def client_username_def)
      moreover have "reducer_event a = Inr (PasswordEvent p)"
        using accepted by (simp add: reducer_event_def)
      moreover have "write_all W (as_writer s) (fst (auth_response Accepted)) = (as_writer s', Inr ())"
        using accepted by (simp add: auth_response_def)
      ultimately have "\<exists>n m. r = Inr (AuthOk n m)"
        using assms None handle_auth_command_committed by (fastforce simp: execute_auth_def)
      with False show ?thesis by blast
    qed (use None in auto)
  qed
qed



end
