(* ===== verification/Scanner.thy ===== *)
theory Scanner
  imports Prelude
begin

text \<open>
  The multiline-terminator scanners of \<open>src/src/session/multiline_framing.rs\<close>: the portable search
  with the \<open>memchr\<close> crate and the block scanners that the ARM and x86 builds use instead
  (\<open>vector_scanner\<close>). The block width, the position and the value of the byte that the vector loop
  compares are the const generics of the code. All of them compute the same boundary positions.
\<close>

definition TERMINATOR :: bytes where "TERMINATOR = [CR, LF, DOT, CR, LF]"
definition DOT_TERMINATOR :: bytes where "DOT_TERMINATOR = [DOT, CR, LF]"
definition TERMINATOR_TAIL_SIZE :: nat where "TERMINATOR_TAIL_SIZE = 4"

lemma length_TERMINATOR [simp]: "length TERMINATOR = 5" "TERMINATOR \<noteq> []"
  by (simp_all add: TERMINATOR_def)

section \<open>The block scanners\<close>

text \<open>\<open>windows(n)\<close> of a slice.\<close>

definition windows :: "nat \<Rightarrow> 'a list \<Rightarrow> 'a list list" where
  "windows n xs = map (\<lambda>i. take n (drop i xs)) [0..<length xs + 1 - n]"

definition first_match :: "bytes \<Rightarrow> nat option" where
  "first_match block = position (\<lambda>w. w = TERMINATOR) (windows (length TERMINATOR) block)"

definition pair_candidate :: "nat \<Rightarrow> byte \<Rightarrow> bytes \<Rightarrow> nat \<Rightarrow> bool" where
  "pair_candidate first b block lane \<longleftrightarrow>
     block ! (lane + first) = b \<and> block ! (lane + first + 3) = b"

definition or_candidate :: "nat \<Rightarrow> byte \<Rightarrow> bytes \<Rightarrow> nat \<Rightarrow> bool" where
  "or_candidate first b block lane \<longleftrightarrow>
     (of_char (block ! (lane + first)) :: u8) OR of_char (block ! (lane + first + 3)) = of_char b"

text \<open>
  \<open>find_repeat\<close> and \<open>find_or\<close> are the loop below with \<open>pair_candidate\<close> and \<open>first_match\<close>, and with
  \<open>or_candidate\<close> and a caller-supplied verifier. The width is a positive constant.
\<close>

function scan_blocks ::
    "memchr_api \<Rightarrow> nat \<Rightarrow> (bytes \<Rightarrow> nat \<Rightarrow> bool) \<Rightarrow> (bytes \<Rightarrow> nat option) \<Rightarrow> bytes \<Rightarrow> nat
       \<Rightarrow> nat option" where
  "scan_blocks M width candidate verify data offset =
     (if 0 < width \<and> width + 4 \<le> length data - offset then
        (let block = subrange offset (offset + width + 4) data;
             possible = list_ex (candidate block) [0..<width]
         in case (if possible then verify block else None) of
              Some lane \<Rightarrow> Some (offset + lane)
            | None \<Rightarrow> scan_blocks M width candidate verify data (offset + width))
      else map_option (\<lambda>start. offset + start) (memmem_find M TERMINATOR (drop offset data)))"
  by pat_completeness auto
termination
  by (relation "measure (\<lambda>(M, width, candidate, verify, data, offset). length data - offset)") auto

declare scan_blocks.simps [simp del]

definition find_repeat :: "memchr_api \<Rightarrow> nat \<Rightarrow> nat \<Rightarrow> byte \<Rightarrow> bytes \<Rightarrow> nat option" where
  "find_repeat M width first b data = scan_blocks M width (pair_candidate first b) first_match data 0"

definition find_or ::
    "memchr_api \<Rightarrow> nat \<Rightarrow> nat \<Rightarrow> byte \<Rightarrow> bytes \<Rightarrow> (bytes \<Rightarrow> nat option) \<Rightarrow> nat option" where
  "find_or M width first b data verify = scan_blocks M width (or_candidate first b) verify data 0"

definition exact_pair_match :: "nat \<Rightarrow> nat \<Rightarrow> byte \<Rightarrow> bytes \<Rightarrow> nat option" where
  "exact_pair_match width first b block =
     (if list_ex (pair_candidate first b block) [0..<width] then first_match block else None)"

section \<open>The scanner of a build\<close>

datatype Target = Aarch64 | Avx512bw | Avx2 | OtherTarget

text \<open>\<open>vector_scanner::find\<close>; the portable build has no such function and uses the crate's search.\<close>

definition vector_find :: "memchr_api \<Rightarrow> Target \<Rightarrow> bytes \<Rightarrow> nat option" where
  "vector_find M t data =
     (case t of
        Aarch64 \<Rightarrow> find_or M 128 0 CR data (exact_pair_match 128 0 CR)
      | Avx512bw \<Rightarrow> find_or M 256 1 LF data (exact_pair_match 256 1 LF)
      | Avx2 \<Rightarrow> find_repeat M 128 0 CR data
      | OtherTarget \<Rightarrow> memmem_find M TERMINATOR data)"

text \<open>The iterator that repeats a search on the remainder, giving positions after the match. A search that
  reports a match in an empty slice, where the code would panic, ends the iteration.\<close>

function ends_from :: "(bytes \<Rightarrow> nat option) \<Rightarrow> nat \<Rightarrow> bytes \<Rightarrow> nat list" where
  "ends_from search n remaining =
     (case search remaining of
        None \<Rightarrow> []
      | Some start \<Rightarrow>
          (let rest = drop (start + length TERMINATOR) remaining
           in if length rest < length remaining
              then (n - length rest) # ends_from search n rest else []))"
  by pat_completeness auto
termination
  by (relation "measure (\<lambda>(search, n, remaining). length remaining)") auto

declare ends_from.simps [simp del]

definition terminator_ends_in_chunk :: "memchr_api \<Rightarrow> Target \<Rightarrow> bytes \<Rightarrow> nat list" where
  "terminator_ends_in_chunk M t data =
     (case t of
        OtherTarget \<Rightarrow> map (\<lambda>found. found + length TERMINATOR) (memmem_find_iter M TERMINATOR data)
      | _ \<Rightarrow> ends_from (vector_find M t) (length data) data)"

section \<open>Equivalence with the reference search\<close>

lemma first_match_find_sub: "first_match block = find_sub TERMINATOR block"
proof (cases "find_sub TERMINATOR block")
  case None
  then have "\<not> prefix TERMINATOR (drop i block)" for i by (rule find_sub_NoneD)
  then have "take 5 (drop i block) \<noteq> TERMINATOR" for i
    by (metis take_is_prefix)
  then show ?thesis using None by (simp add: first_match_def windows_def position_None_iff)
next
  case (Some i)
  then have i: "prefix TERMINATOR (drop i block)" "\<forall>j<i. \<not> prefix TERMINATOR (drop j block)"
    "i + 5 \<le> length block"
    using find_sub_bound [OF Some] by (auto simp: find_sub_Some_iff)
  have "take 5 (drop i block) = TERMINATOR"
    using i(1) by (auto simp: prefix_def)
  moreover have "take 5 (drop j block) \<noteq> TERMINATOR" if "j < i" for j
    using i(2) that by (metis take_is_prefix)
  ultimately have "first_match block = Some i"
    using i(3) by (auto simp: first_match_def windows_def position_Some_iff)
  with Some show ?thesis by simp
qed

text \<open>A candidate test that passes every occurrence of the terminator in a block.\<close>

definition candidate_ok :: "nat \<Rightarrow> (bytes \<Rightarrow> nat \<Rightarrow> bool) \<Rightarrow> bool" where
  "candidate_ok width candidate \<longleftrightarrow>
     (\<forall>block lane. length block = width + 4 \<and> prefix TERMINATOR (drop lane block)
        \<longrightarrow> lane < width \<and> candidate block lane)"

lemma terminator_bytes:
  assumes "prefix TERMINATOR (drop lane block)"
  shows "lane + 5 \<le> length block \<and> block ! lane = CR \<and> block ! (lane + 1) = LF \<and>
    block ! (lane + 3) = CR \<and> block ! (lane + 4) = LF"
proof -
  obtain r where r: "drop lane block = TERMINATOR @ r" using assms by (auto simp: prefix_def)
  then have "length (drop lane block) = 5 + length r" by simp
  then have len: "lane + 5 \<le> length block" by simp
  have "block ! (lane + k) = (TERMINATOR @ r) ! k" if "k < 5" for k
    using that len by (simp flip: r)
  from this [of 0] this [of 1] this [of 3] this [of 4]
  show ?thesis using len by (simp add: TERMINATOR_def)
qed

lemma candidates_ok:
  "candidate_ok width (pair_candidate 0 CR)" "candidate_ok width (pair_candidate 1 LF)"
  "candidate_ok width (or_candidate 0 CR)" "candidate_ok width (or_candidate 1 LF)"
  unfolding candidate_ok_def pair_candidate_def or_candidate_def
  by (auto dest!: terminator_bytes simp: ac_simps)

text \<open>Skipping a block without an occurrence.\<close>

lemma find_sub_skip:
  assumes "\<forall>j < k. \<not> prefix n (drop j h)" "k \<le> length h"
  shows "find_sub n h = map_option (\<lambda>i. k + i) (find_sub n (drop k h))"
proof (cases "find_sub n (drop k h)")
  case None
  have "\<not> prefix n (drop j h)" for j
  proof (cases "j < k")
    case False
    then have "drop j h = drop (j - k) (drop k h)" by simp
    then show ?thesis using find_sub_NoneD [OF None, of "j - k"] by simp
  qed (use assms in blast)
  then have "find_sub n h = None" by (simp add: find_sub_None_iff)
  with None show ?thesis by simp
next
  case (Some i)
  then have i: "i \<le> length h - k" "prefix n (drop (k + i) h)" "\<forall>j<i. \<not> prefix n (drop (k + j) h)"
    by (auto simp: find_sub_Some_iff add.commute)
  have "\<not> prefix n (drop j h)" if "j < k + i" for j
  proof (cases "j < k")
    case False
    then have "j - k < i" "k + (j - k) = j" using that by auto
    then show ?thesis using i(3) by metis
  qed (use assms(1) in blast)
  then have "find_sub n h = Some (k + i)" using i assms(2) by (auto simp: find_sub_Some_iff)
  with Some show ?thesis by simp
qed

lemma prefix_take_iff: "length n \<le> k \<Longrightarrow> prefix n (take k xs) \<longleftrightarrow> prefix n xs"
  by (metis append_take_drop_id prefix_def prefix_length_prefix prefix_order.trans take_is_prefix
      prefix_same_cases append_eq_append_conv2 take_all_iff length_take min_def prefix_length_le)

lemma prefix_drop_take: "j + length n \<le> m \<Longrightarrow> prefix n (drop j (take m d)) \<longleftrightarrow> prefix n (drop j d)"
  by (simp add: drop_take prefix_take_iff)

lemma find_sub_take_Some:
  assumes "find_sub n (take m d) = Some i"
  shows "find_sub n d = Some i"
proof -
  have b: "i + length n \<le> length (take m d)" using find_sub_bound [OF assms] .
  have "\<not> prefix n (drop j d)" if "j < i" for j
    using assms that b prefix_drop_take [of j n m d] by (auto simp: find_sub_Some_iff)
  moreover have "prefix n (drop i d)"
    using assms b prefix_drop_take [of i n m d] by (auto simp: find_sub_Some_iff)
  ultimately show ?thesis using b by (auto simp: find_sub_Some_iff)
qed

context memchr_lib
begin

lemma scan_blocks_find:
  assumes cand: "candidate_ok width candidate"
    and verify: "\<forall>block. length block = width + 4 \<longrightarrow> verify block = find_sub TERMINATOR block"
    and "offset \<le> length data"
  shows "scan_blocks M width candidate verify data offset =
    map_option (\<lambda>i. offset + i) (find_sub TERMINATOR (drop offset data))"
  using assms(3)
proof (induction "length data - offset" arbitrary: offset rule: less_induct)
  case less
  define d where "d = drop offset data"
  define block where "block = take (width + 4) d"
  note unfold = scan_blocks.simps [of M width candidate verify data offset]
  show ?case
  proof (cases "0 < width \<and> width + 4 \<le> length data - offset")
    case False
    then have "scan_blocks M width candidate verify data offset =
        map_option (\<lambda>start. offset + start) (memmem_find M TERMINATOR (drop offset data))"
      unfolding unfold by auto
    then show ?thesis by simp
  next
    case True
    have sub: "subrange offset (offset + width + 4) data = block"
      by (simp add: subrange_def block_def d_def)
    have len: "length block = width + 4" using True by (simp add: block_def d_def)
    show ?thesis
    proof (cases "find_sub TERMINATOR block")
      case (Some lane)
      then have "prefix TERMINATOR (drop lane block)" by (simp add: find_sub_Some_iff)
      with cand len have "lane < width" "candidate block lane" by (auto simp: candidate_ok_def)
      then have "list_ex (candidate block) [0..<width]" by (auto simp: list_ex_iff)
      moreover have "find_sub TERMINATOR d = Some lane"
        using Some find_sub_take_Some by (auto simp: block_def)
      ultimately show ?thesis
        using True Some verify len unfolding unfold sub by (simp add: Let_def flip: d_def)
    next
      case None
      have "\<not> prefix TERMINATOR (drop j d)" if "j < width" for j
        using find_sub_NoneD [OF None, of j] prefix_drop_take [of j TERMINATOR "width + 4" d] that
        by (simp add: block_def)
      then have skip: "find_sub TERMINATOR d = map_option (\<lambda>i. width + i) (find_sub TERMINATOR (drop width d))"
        using True by (intro find_sub_skip) (auto simp: d_def)
      have "scan_blocks M width candidate verify data offset =
          scan_blocks M width candidate verify data (offset + width)"
        using True None verify len unfolding unfold sub by (simp add: Let_def)
      also have "\<dots> = map_option (\<lambda>i. offset + width + i) (find_sub TERMINATOR (drop (offset + width) data))"
        using True less.prems by (intro less.hyps) auto
      also have "drop (offset + width) data = drop width d" by (simp add: d_def add.commute)
      finally show ?thesis
        by (simp add: skip option.map_comp comp_def add.assoc flip: d_def)
    qed
  qed
qed

lemma exact_pair_match_find:
  assumes "candidate_ok width (pair_candidate first b)" "length block = width + 4"
  shows "exact_pair_match width first b block = find_sub TERMINATOR block"
proof (cases "find_sub TERMINATOR block")
  case (Some lane)
  then have "prefix TERMINATOR (drop lane block)" by (simp add: find_sub_Some_iff)
  with assms have "lane < width" "pair_candidate first b block lane" by (auto simp: candidate_ok_def)
  then have "list_ex (pair_candidate first b block) [0..<width]" by (auto simp: list_ex_iff)
  then show ?thesis by (simp add: exact_pair_match_def first_match_find_sub)
qed (simp add: exact_pair_match_def first_match_find_sub)

lemma vector_find_eq: "vector_find M t data = find_sub TERMINATOR data"
  using candidates_ok
  by (cases t) (auto simp: vector_find_def find_or_def find_repeat_def scan_blocks_find
      exact_pair_match_find first_match_find_sub option.map_ident)

lemma ends_from_find_iter:
  assumes "length remaining \<le> n"
  shows "ends_from (find_sub TERMINATOR) n remaining =
    map (\<lambda>i. n - length remaining + i + 5) (find_iter_sub TERMINATOR remaining)"
  using assms
proof (induction remaining rule: length_induct)
  case (1 remaining)
  show ?case
  proof (cases "find_sub TERMINATOR remaining")
    case None
    then show ?thesis by (simp add: ends_from.simps [of _ _ remaining] find_iter_sub.simps [of _ remaining])
  next
    case (Some i)
    let ?rest = "drop (i + 5) remaining"
    have b: "i + 5 \<le> length remaining" using find_sub_bound [OF Some] by simp
    then have lt: "length ?rest < length remaining" by simp
    moreover have "length ?rest \<le> n" using 1(2) by simp
    ultimately have "ends_from (find_sub TERMINATOR) n ?rest =
        map (\<lambda>j. n - length ?rest + j + 5) (find_iter_sub TERMINATOR ?rest)"
      using 1(1) by blast
    with Some b lt 1(2) show ?thesis
      by (simp add: ends_from.simps [of _ _ remaining] find_iter_sub.simps [of _ remaining] Let_def
          comp_def ac_simps)
  qed
qed

lemma terminator_ends_eq:
  "terminator_ends_in_chunk M t data = map (\<lambda>i. i + 5) (find_iter_sub TERMINATOR data)"
proof -
  have "vector_find M t = find_sub TERMINATOR" by (rule ext) (rule vector_find_eq)
  then show ?thesis
    by (cases t) (simp_all add: terminator_ends_in_chunk_def ends_from_find_iter)
qed

end

text \<open>
  C20. The block scanners are the reference search: on every target (ARM, AVX-512, AVX2 or portable)
  \<open>terminator_ends_in_chunk\<close> yields the ends of the non-overlapping occurrences of CRLF dot CRLF, from
  left to right, whatever the bytes and the length of the chunk.
\<close>

theorem scanner_equivalence:
  assumes "memchr_lib M"
  shows "terminator_ends_in_chunk M t data = map (\<lambda>i. i + 5) (find_iter_sub TERMINATOR data) \<and>
         vector_find M t data = find_sub TERMINATOR data"
  using memchr_lib.terminator_ends_eq [OF assms] memchr_lib.vector_find_eq [OF assms] by simp

theorem scanner_equivalence_witness:
  "vector_find memchr_ref Avx512bw (''ab'' @ TERMINATOR) = Some 2 \<and>
   terminator_ends_in_chunk memchr_ref Aarch64 (''ab'' @ TERMINATOR) = [7]"
  using scanner_equivalence [OF memchr_ref.memchr_lib_axioms, of _ "''ab'' @ TERMINATOR"]
  by (simp add: TERMINATOR_def find_iter_sub.simps)

end
