(* ===== verification/Framer.thy ===== *)
theory Framer
  imports Scanner Request
begin

text \<open>
  Streaming detection of the end of a multiline response: \<open>MultilineFramer\<close> and the functions around
  it in \<open>src/src/session/multiline_framing.rs\<close>. The framer keeps the last four bytes it has seen in a
  fixed array, so that a terminator split over several reads is found.
\<close>

section \<open>Data\<close>

datatype PackedPendingBytesPolicy = PolicyReject | AllowIfStatusPrefix

datatype FramingError =
    UnexpectedTrailingResponseBytes | InvalidFrameMetadata | BackendEof | FramingIo
  | CapturedResponseTooLarge nat nat

text \<open>A complete chunk carries the number of consumed bytes.\<close>

datatype ChunkProgress = Complete nat | Incomplete

datatype ResponseWindow =
    CompleteWindow "nat \<times> nat" "nat \<times> nat"
  | IncompleteWindow "nat \<times> nat"

record MultilineFramer =
  mf_data :: bytes
  mf_len :: nat

definition framer_default :: MultilineFramer where
  "framer_default = \<lparr>mf_data = replicate 4 (CHR 0x00), mf_len = 0\<rparr>"

definition in_window :: "ChunkProgress \<Rightarrow> nat \<Rightarrow> nat \<Rightarrow> ResponseWindow" where
  "in_window p origin window_len =
     (case p of
        Complete consumed \<Rightarrow>
          (let end = origin + consumed in CompleteWindow (0, end) (end, window_len))
      | Incomplete \<Rightarrow> IncompleteWindow (0, window_len))"

section \<open>Status lines\<close>

definition status_line_len :: "memchr_api \<Rightarrow> bytes \<Rightarrow> nat option" where
  "status_line_len M bs = map_option (\<lambda>pos. pos + 1) (memchr M LF bs)"

definition plausible_status_prefix :: "memchr_api \<Rightarrow> bytes \<Rightarrow> bool" where
  "plausible_status_prefix M bs =
     (if bs = [] then True
      else if \<not> (49 \<le> byte_val (hd bs) \<and> byte_val (hd bs) \<le> 53) then False
      else case status_line_len M bs of
             Some end \<Rightarrow> status_parse (take end bs) \<noteq> None
           | None \<Rightarrow> list_all is_ascii_digit (take 3 bs))"

section \<open>The framer\<close>

definition framer_update :: "MultilineFramer \<Rightarrow> bytes \<Rightarrow> MultilineFramer" where
  "framer_update f chunk =
     (if TERMINATOR_TAIL_SIZE \<le> length chunk then
        \<lparr>mf_data = copy_into 0 (drop (length chunk - TERMINATOR_TAIL_SIZE) chunk) (mf_data f),
         mf_len = TERMINATOR_TAIL_SIZE\<rparr>
      else if chunk \<noteq> [] then
        (let combined_len = mf_len f + length chunk in
         if TERMINATOR_TAIL_SIZE \<le> combined_len then
           (let keep = TERMINATOR_TAIL_SIZE - length chunk;
                data = copy_within (mf_len f - keep) (mf_len f) 0 (mf_data f)
            in \<lparr>mf_data = copy_into keep chunk data, mf_len = TERMINATOR_TAIL_SIZE\<rparr>)
         else \<lparr>mf_data = copy_into (mf_len f) chunk (mf_data f), mf_len = combined_len\<rparr>)
      else f)"

definition find_spanning_terminator_at :: "bytes \<Rightarrow> nat \<Rightarrow> bytes \<Rightarrow> nat \<Rightarrow> nat option" where
  "find_spanning_terminator_at tail tail_len current current_len =
     (if tail_len < 1 \<or> current_len < 1 then None
      else if 1 \<le> tail_len \<and> 4 \<le> current_len \<and> tail ! (tail_len - 1) = CR
              \<and> take 4 current = [LF, DOT, CR, LF] then Some 4
      else if 2 \<le> tail_len \<and> 3 \<le> current_len \<and> subrange (tail_len - 2) tail_len tail = [CR, LF]
              \<and> take 3 current = [DOT, CR, LF] then Some 3
      else if 3 \<le> tail_len \<and> 2 \<le> current_len \<and> subrange (tail_len - 3) tail_len tail = [CR, LF, DOT]
              \<and> take 2 current = [CR, LF] then Some 2
      else if 4 \<le> tail_len \<and> 1 \<le> current_len
              \<and> subrange (tail_len - 4) tail_len tail = [CR, LF, DOT, CR] \<and> current ! 0 = LF
      then Some 1
      else None)"

definition find_spanning_terminator :: "MultilineFramer \<Rightarrow> bytes \<Rightarrow> nat option" where
  "find_spanning_terminator f chunk =
     (if mf_len f = 0 then None
      else find_spanning_terminator_at (take (mf_len f) (mf_data f)) (mf_len f) chunk (length chunk))"

definition next_terminator_end :: "memchr_api \<Rightarrow> Target \<Rightarrow> MultilineFramer \<Rightarrow> bytes \<Rightarrow> nat option" where
  "next_terminator_end M t f chunk =
     (case find_spanning_terminator f chunk of
        Some e \<Rightarrow> Some e
      | None \<Rightarrow> (case terminator_ends_in_chunk M t chunk of [] \<Rightarrow> None | e # _ \<Rightarrow> Some e))"

definition advance_to_next_terminator_end ::
    "memchr_api \<Rightarrow> Target \<Rightarrow> MultilineFramer \<Rightarrow> bytes \<Rightarrow> MultilineFramer \<times> nat option" where
  "advance_to_next_terminator_end M t f chunk =
     (let pos = next_terminator_end M t f chunk
      in (if pos = None then framer_update f chunk else f, pos))"

fun split_ends ::
    "memchr_api \<Rightarrow> bytes \<Rightarrow> PackedPendingBytesPolicy \<Rightarrow> nat list \<Rightarrow> (FramingError + nat) option" where
  "split_ends M chunk policy [] = None"
| "split_ends M chunk policy (e # es) =
     (if e = length chunk then Some (Ok e)
      else case policy of
             PolicyReject \<Rightarrow> Some (Err UnexpectedTrailingResponseBytes)
           | AllowIfStatusPrefix \<Rightarrow>
               if plausible_status_prefix M (drop e chunk) then Some (Ok e)
               else split_ends M chunk policy es)"

definition split_chunk ::
    "memchr_api \<Rightarrow> Target \<Rightarrow> MultilineFramer \<Rightarrow> bytes \<Rightarrow> PackedPendingBytesPolicy
       \<Rightarrow> MultilineFramer \<times> (FramingError + ChunkProgress)" where
  "split_chunk M t f chunk policy =
     (let spanning =
        (case find_spanning_terminator f chunk of
           None \<Rightarrow> None
         | Some e \<Rightarrow>
             if e = length chunk
                \<or> policy = AllowIfStatusPrefix \<and> plausible_status_prefix M (drop e chunk)
             then Some (Ok e)
             else if policy = PolicyReject then Some (Err UnexpectedTrailingResponseBytes)
             else None)
      in case (case spanning of
                 Some r \<Rightarrow> Some r
               | None \<Rightarrow> split_ends M chunk policy (terminator_ends_in_chunk M t chunk)) of
           Some (Inl err) \<Rightarrow> (f, Err err)
         | Some (Inr e) \<Rightarrow> (f, Ok (Complete e))
         | None \<Rightarrow> (framer_update f chunk, Ok Incomplete))"

definition frame_with_policy ::
    "memchr_api \<Rightarrow> Target \<Rightarrow> MultilineFramer \<Rightarrow> bytes \<Rightarrow> PackedPendingBytesPolicy
       \<Rightarrow> MultilineFramer \<times> (FramingError + ResponseWindow)" where
  "frame_with_policy M t f chunk policy =
     (case split_chunk M t f chunk policy of
        (f', r) \<Rightarrow> (f', map_sum id (\<lambda>p. in_window p 0 (length chunk)) r))"

text \<open>\<open>split_appended\<close>: the new bytes of a buffer that already held \<open>previous_len\<close> bytes.\<close>

definition split_appended ::
    "memchr_api \<Rightarrow> Target \<Rightarrow> MultilineFramer \<Rightarrow> bytes \<Rightarrow> nat \<Rightarrow> PackedPendingBytesPolicy
       \<Rightarrow> MultilineFramer \<times> (FramingError + ResponseWindow)" where
  "split_appended M t f buffer previous_len policy =
     (let new_bytes = drop previous_len buffer in
      case split_chunk M t f new_bytes policy of
        (f', r) \<Rightarrow>
          (f', map_sum id (\<lambda>p. in_window p previous_len (previous_len + length new_bytes)) r))"

text \<open>\<open>ResponseCursor::begin_after_status_line\<close>: the framer and the first window.\<close>

definition begin_after_status_line ::
    "memchr_api \<Rightarrow> Target \<Rightarrow> bytes \<Rightarrow> nat \<Rightarrow> PackedPendingBytesPolicy
       \<Rightarrow> FramingError + (MultilineFramer \<times> ResponseWindow)" where
  "begin_after_status_line M t buffer status_line_end policy =
     (if status_line_end > length buffer then Err InvalidFrameMetadata
      else let f = framer_update framer_default (take status_line_end buffer)
           in case split_chunk M t f (drop status_line_end buffer) policy of
                (f', Inl e) \<Rightarrow> Err e
              | (f', Inr p) \<Rightarrow> Ok (f', in_window p status_line_end (length buffer)))"

section \<open>Captured payloads\<close>

definition MAX_CAPTURED_MULTILINE_RESPONSE_BYTES :: nat where
  "MAX_CAPTURED_MULTILINE_RESPONSE_BYTES = 4 * 1024 * 1024"

definition ensure_capture_len_with_limit :: "nat \<Rightarrow> nat \<Rightarrow> FramingError + unit" where
  "ensure_capture_len_with_limit len limit =
     (if len > limit then Err (CapturedResponseTooLarge len limit) else Ok ())"

text \<open>The body range and the range of the dot line.\<close>

definition complete_multiline_payload_split ::
    "memchr_api \<Rightarrow> Target \<Rightarrow> bytes \<Rightarrow> ((nat \<times> nat) \<times> (nat \<times> nat)) option" where
  "complete_multiline_payload_split M t payload =
     (if payload = [DOT, CR, LF] then Some ((0, 0), (0, 3))
      else case split_chunk M t framer_default payload PolicyReject of
             (_, Inr (Complete response_end)) \<Rightarrow>
               (if response_end < length DOT_TERMINATOR then None
                else let body_end = response_end - length DOT_TERMINATOR
                     in Some ((0, body_end), (body_end, response_end)))
           | _ \<Rightarrow> None)"

definition complete_multiline_payload_body :: "memchr_api \<Rightarrow> Target \<Rightarrow> bytes \<Rightarrow> bytes option" where
  "complete_multiline_payload_body M t payload =
     map_option (\<lambda>((a, b), _). subrange a b payload) (complete_multiline_payload_split M t payload)"

definition captured_article_payload_sections ::
    "memchr_api \<Rightarrow> bytes \<Rightarrow> ((nat \<times> nat) \<times> (nat \<times> nat)) option" where
  "captured_article_payload_sections M payload =
     (if prefix [CR, LF] payload then Some ((0, 0), (2, length payload))
      else map_option (\<lambda>split. ((0, split + 2), (split + 4, length payload)))
             (memmem_find M [CR, LF, CR, LF] payload))"

section \<open>The rolling tail refines the stream\<close>

definition last_n :: "nat \<Rightarrow> 'a list \<Rightarrow> 'a list" where
  "last_n n xs = drop (length xs - n) xs"

definition framer_tail :: "MultilineFramer \<Rightarrow> bytes" where
  "framer_tail f = take (mf_len f) (mf_data f)"

definition framer_wf :: "MultilineFramer \<Rightarrow> bool" where
  "framer_wf f \<longleftrightarrow> length (mf_data f) = 4 \<and> mf_len f \<le> 4"

lemma framer_default_wf [simp]: "framer_wf framer_default" "framer_tail framer_default = []"
  by (simp_all add: framer_wf_def framer_default_def framer_tail_def)

lemma length_framer_tail: "framer_wf f \<Longrightarrow> length (framer_tail f) = mf_len f"
  by (simp add: framer_wf_def framer_tail_def)

lemma last_n_append: "last_n n (xs @ ys) = last_n (n - length ys) xs @ last_n n ys"
  by (cases "length ys \<le> n") (simp_all add: last_n_def)

lemma last_n_le: "m \<le> n \<Longrightarrow> last_n m (last_n n xs) = last_n m xs"
  by (cases "n \<le> length xs") (simp_all add: last_n_def)

lemma last_n_last_n: "last_n n (last_n n xs @ ys) = last_n n (xs @ ys)"
  by (simp add: last_n_append last_n_le)

lemma last_n_all [simp]: "length xs \<le> n \<Longrightarrow> last_n n xs = xs"
  by (simp add: last_n_def)

lemma length_last_n [simp]: "length (last_n n xs) = min n (length xs)"
  by (simp add: last_n_def)

lemma framer_update_wf:
  assumes "framer_wf f"
  shows "framer_wf (framer_update f c)"
  using assms
  by (auto simp: framer_update_def framer_wf_def copy_into_def copy_within_def Let_def
      TERMINATOR_TAIL_SIZE_def subrange_length)

text \<open>The array operations keep the last four bytes of the stream.\<close>

lemma framer_update_tail:
  assumes "framer_wf f"
  shows "framer_tail (framer_update f c) = last_n 4 (framer_tail f @ c)"
proof -
  consider (full) "4 \<le> length c" | (shift) "length c < 4" "c \<noteq> []" "4 \<le> mf_len f + length c"
    | (fit) "length c < 4" "c \<noteq> []" "mf_len f + length c < 4" | (empty) "c = []"
    by fastforce
  then show ?thesis
  proof cases
    case full
    then show ?thesis
      by (simp add: framer_update_def framer_tail_def TERMINATOR_TAIL_SIZE_def copy_into_def last_n_def)
  next
    case shift
    let ?k = "4 - length c"
    let ?A = "subrange (mf_len f - ?k) (mf_len f) (mf_data f)"
    have k: "?k \<le> mf_len f" "mf_len f \<le> 4" "length (mf_data f) = 4"
      using shift assms by (auto simp: framer_wf_def)
    have lA2: "mf_len f - (mf_len f - ?k) = ?k" using k(1) by (rule diff_diff_cancel)
    have "length ?A = min ?k (4 - (mf_len f - ?k))" by (simp only: subrange_length lA2 k(3))
    moreover have "?k \<le> 4 - (mf_len f - ?k)" using k by arith
    ultimately have lA: "length ?A = ?k" by (simp only: min.absorb1)
    from lA2 have cw: "copy_within (mf_len f - ?k) (mf_len f) 0 (mf_data f) = ?A @ drop ?k (mf_data f)"
      by (simp add: copy_within_def)
    have "copy_into ?k c (?A @ drop ?k (mf_data f)) = ?A @ c @ drop 4 (?A @ drop ?k (mf_data f))"
      using lA shift by (simp add: copy_into_def)
    then have "framer_tail (framer_update f c) = ?A @ c"
      using shift lA cw
      by (simp add: framer_update_def framer_tail_def TERMINATOR_TAIL_SIZE_def Let_def)
    also have "subrange (mf_len f - ?k) (mf_len f) (mf_data f) = last_n ?k (framer_tail f)"
      using shift assms
      by (simp add: last_n_def framer_tail_def subrange_def framer_wf_def drop_take)
    finally show ?thesis using shift by (simp add: last_n_append)
  next
    case fit
    then show ?thesis
      using assms
      by (simp add: framer_update_def framer_tail_def TERMINATOR_TAIL_SIZE_def copy_into_def
          framer_wf_def Let_def)
  next
    case empty
    then show ?thesis
      using assms by (simp add: framer_update_def TERMINATOR_TAIL_SIZE_def length_framer_tail framer_wf_def)
  qed
qed

text \<open>The framer has seen the stream \<open>S\<close>.\<close>

definition framer_seen :: "MultilineFramer \<Rightarrow> bytes \<Rightarrow> bool" where
  "framer_seen f S \<longleftrightarrow> framer_wf f \<and> framer_tail f = last_n 4 S"

lemma framer_seen_default [simp]: "framer_seen framer_default []"
  by (simp add: framer_seen_def)

lemma framer_seen_update [intro]: "framer_seen f S \<Longrightarrow> framer_seen (framer_update f c) (S @ c)"
  by (simp add: framer_seen_def framer_update_wf framer_update_tail last_n_last_n)

section \<open>Terminator ends\<close>

definition term_end :: "bytes \<Rightarrow> nat \<Rightarrow> bool" where
  "term_end data e \<longleftrightarrow> e \<le> length data \<and> suffix TERMINATOR (take e data)"

definition first_term_end :: "bytes \<Rightarrow> nat option" where
  "first_term_end data = map_option (\<lambda>i. i + 5) (find_sub TERMINATOR data)"

lemma term_end_iff: "term_end data e \<longleftrightarrow> 5 \<le> e \<and> prefix TERMINATOR (drop (e - 5) data)"
proof
  assume "term_end data e"
  then obtain p where p: "e \<le> length data" "take e data = p @ TERMINATOR"
    by (auto simp: term_end_def suffix_def)
  then have "length p = e - 5" "5 \<le> e"
    by (metis add_diff_cancel_right' length_TERMINATOR(1) length_append length_take min.absorb2,
        metis le_add2 length_TERMINATOR(1) length_append length_take min.absorb2)
  moreover have "data = p @ TERMINATOR @ drop e data" using p(2) by (metis append_take_drop_id append.assoc)
  ultimately have "drop (e - 5) data = TERMINATOR @ drop e data" by (metis append_eq_conv_conj)
  with \<open>5 \<le> e\<close> show "5 \<le> e \<and> prefix TERMINATOR (drop (e - 5) data)" by simp
next
  assume r: "5 \<le> e \<and> prefix TERMINATOR (drop (e - 5) data)"
  then obtain z where z: "drop (e - 5) data = TERMINATOR @ z" by (auto simp: prefix_def)
  then have "length data - (e - 5) = 5 + length z" by (metis length_TERMINATOR(1) length_append length_drop)
  then have "e \<le> length data" using r by linarith
  have "data = take (e - 5) data @ TERMINATOR @ z" using z by (metis append_take_drop_id)
  moreover have "length (take (e - 5) data) = e - 5" using \<open>e \<le> length data\<close> by simp
  ultimately have "take e data = take (e - 5) data @ TERMINATOR"
    using r by (metis append_eq_conv_conj length_TERMINATOR(1) length_append le_add_diff_inverse2 append.assoc)
  with \<open>e \<le> length data\<close> show "term_end data e" by (simp add: term_end_def suffix_def)
qed

lemma first_term_end_Some_iff:
  "first_term_end data = Some e \<longleftrightarrow> term_end data e \<and> (\<forall>e' < e. \<not> term_end data e')"
proof -
  have "first_term_end data = Some e \<longleftrightarrow> 5 \<le> e \<and> find_sub TERMINATOR data = Some (e - 5)"
    by (cases "find_sub TERMINATOR data") (auto simp: first_term_end_def)
  also have "\<dots> \<longleftrightarrow> term_end data e \<and> (\<forall>e' < e. \<not> term_end data e')"
  proof (cases "term_end data e")
    case True
    then have "5 \<le> e" "e - 5 \<le> length data" by (auto simp: term_end_iff, auto simp: term_end_def)
    moreover have "(\<forall>j < e - 5. \<not> prefix TERMINATOR (drop j data)) \<longleftrightarrow> (\<forall>e' < e. \<not> term_end data e')"
    proof
      assume a: "\<forall>j < e - 5. \<not> prefix TERMINATOR (drop j data)"
      show "\<forall>e' < e. \<not> term_end data e'" using a by (auto simp: term_end_iff)
    next
      assume a: "\<forall>e' < e. \<not> term_end data e'"
      show "\<forall>j < e - 5. \<not> prefix TERMINATOR (drop j data)"
      proof (intro allI impI)
        fix j assume "j < e - 5"
        then show "\<not> prefix TERMINATOR (drop j data)"
          using spec [OF a, of "j + 5"] by (simp add: term_end_iff)
      qed
    qed
    ultimately show ?thesis using True by (auto simp: find_sub_Some_iff term_end_iff)
  next
    case False
    then show ?thesis by (auto simp: find_sub_Some_iff term_end_iff)
  qed
  finally show ?thesis .
qed

lemma first_term_end_None_iff: "first_term_end data = None \<longleftrightarrow> (\<forall>e. \<not> term_end data e)"
  using find_sub_NoneD [of TERMINATOR data]
  by (auto simp: first_term_end_def term_end_iff find_sub_None_iff) (metis diff_add_inverse le_add1)

section \<open>Spanning terminators\<close>

lemma suffix_iff_last_n: "suffix A S \<longleftrightarrow> last_n (length A) S = A"
  by (metis append_eq_conv_conj diff_add_inverse2 last_n_def length_append suffix_def suffix_drop)

lemma suffix_append_same_length:
  "length D = length B \<Longrightarrow> suffix (A @ B) (S @ D) \<longleftrightarrow> D = B \<and> suffix A S"
  by (auto simp: suffix_def) (metis append.assoc append_eq_append_conv)+

lemma tail_suffix:
  assumes "framer_seen f S" "length A \<le> 4"
  shows "suffix A S \<longleftrightarrow>
    length A \<le> mf_len f \<and> subrange (mf_len f - length A) (mf_len f) (framer_tail f) = A"
proof -
  have tail: "framer_tail f = last_n 4 S" using assms(1) by (simp add: framer_seen_def)
  have len: "length (framer_tail f) = mf_len f"
    by (rule length_framer_tail) (use assms(1) in \<open>simp add: framer_seen_def\<close>)
  have "last_n (length A) S = last_n (length A) (framer_tail f)"
    using assms(2) by (simp add: tail last_n_le)
  then have *: "suffix A S \<longleftrightarrow> drop (mf_len f - length A) (framer_tail f) = A"
    by (simp add: suffix_iff_last_n last_n_def len)
  show ?thesis
  proof (cases "length A \<le> mf_len f")
    case True
    then show ?thesis by (simp add: * subrange_def len)
  next
    case False
    then have "length (drop (mf_len f - length A) (framer_tail f)) \<noteq> length A" by (simp add: len)
    with False * show ?thesis by metis
  qed
qed

text \<open>The terminator ends at byte \<open>k\<close> of the chunk \<open>c\<close> that follows the stream \<open>S\<close>.\<close>

definition ends_at :: "bytes \<Rightarrow> bytes \<Rightarrow> nat \<Rightarrow> bool" where
  "ends_at S c k \<longleftrightarrow> k \<le> length c \<and> suffix TERMINATOR (S @ take k c)"

lemma ends_at_term_end: "ends_at S c k \<longleftrightarrow> k \<le> length c \<and> term_end (S @ c) (length S + k)"
  by (auto simp: ends_at_def term_end_def)

lemma ends_at_split:
  assumes "framer_seen f S" "TERMINATOR = A @ B" "length B = k" "length A = n" "n \<le> 4"
  shows "ends_at S c k \<longleftrightarrow>
    n \<le> mf_len f \<and> k \<le> length c \<and> subrange (mf_len f - n) (mf_len f) (framer_tail f) = A \<and>
    take k c = B"
proof (cases "k \<le> length c")
  case True
  then show ?thesis
    using suffix_append_same_length [of "take k c" B A S] assms tail_suffix [OF assms(1), of A]
    by (auto simp: ends_at_def)
qed (simp add: ends_at_def)

lemma find_spanning_terminator_ends:
  assumes "framer_seen f S"
  shows "find_spanning_terminator f c =
    (if ends_at S c 4 then Some 4 else if ends_at S c 3 then Some 3
     else if ends_at S c 2 then Some 2 else if ends_at S c 1 then Some 1 else None)"
proof -
  have len: "length (framer_tail f) = mf_len f"
    by (rule length_framer_tail) (use assms in \<open>simp add: framer_seen_def\<close>)
  have one: "1 \<le> mf_len f \<Longrightarrow>
      subrange (mf_len f - 1) (mf_len f) (framer_tail f) = [CR] \<longleftrightarrow> framer_tail f ! (mf_len f - 1) = CR"
    unfolding len [symmetric] by (cases "framer_tail f" rule: rev_cases) (auto simp: subrange_def)
  have e4: "ends_at S c 4 \<longleftrightarrow> 1 \<le> mf_len f \<and> 4 \<le> length c \<and> framer_tail f ! (mf_len f - 1) = CR
      \<and> take 4 c = [LF, DOT, CR, LF]"
    using ends_at_split [OF assms, of "[CR]" "[LF, DOT, CR, LF]" 4 1 c] one
    by (simp add: TERMINATOR_def del: One_nat_def) metis
  have e3: "ends_at S c 3 \<longleftrightarrow> 2 \<le> mf_len f \<and> 3 \<le> length c
      \<and> subrange (mf_len f - 2) (mf_len f) (framer_tail f) = [CR, LF] \<and> take 3 c = [DOT, CR, LF]"
    using ends_at_split [OF assms, of "[CR, LF]" "[DOT, CR, LF]" 3 2 c] by (simp add: TERMINATOR_def)
  have e2: "ends_at S c 2 \<longleftrightarrow> 3 \<le> mf_len f \<and> 2 \<le> length c
      \<and> subrange (mf_len f - 3) (mf_len f) (framer_tail f) = [CR, LF, DOT] \<and> take 2 c = [CR, LF]"
    using ends_at_split [OF assms, of "[CR, LF, DOT]" "[CR, LF]" 2 3 c] by (simp add: TERMINATOR_def)
  have e1: "ends_at S c 1 \<longleftrightarrow> 4 \<le> mf_len f \<and> 1 \<le> length c
      \<and> subrange (mf_len f - 4) (mf_len f) (framer_tail f) = [CR, LF, DOT, CR] \<and> c ! 0 = LF"
    using ends_at_split [OF assms, of "[CR, LF, DOT, CR]" "[LF]" 1 4 c]
    by (cases c) (simp_all add: TERMINATOR_def)
  show ?thesis
    unfolding find_spanning_terminator_def find_spanning_terminator_at_def framer_tail_def [symmetric]
      e4 e3 e2 e1
    by (cases "mf_len f = 0"; cases "length c = 0") simp_all
qed

section \<open>Streaming detection\<close>

lemma term_end_gap:
  assumes "term_end d a" "term_end d b" "a < b"
  shows "b = a + 3 \<or> a + 5 \<le> b"
proof (rule ccontr)
  assume n: "\<not> ?thesis"
  have a: "5 \<le> a" "prefix TERMINATOR (drop (a - 5) d)" and b: "prefix TERMINATOR (drop (b - 5) d)"
    using assms by (auto simp: term_end_iff)
  obtain k where k: "a = k + 5" using a(1) by (metis le_add_diff_inverse2)
  note ta = terminator_bytes [OF a(2)] and tb = terminator_bytes [OF b]
  consider "b = a + 1" | "b = a + 2" | "b = a + 4" using n assms(3) by linarith
  then show False using ta tb by cases (simp_all add: k numeral_eq_Suc)
qed

lemma term_end_append: "term_end (S @ c) e \<Longrightarrow> e \<le> length S \<Longrightarrow> term_end S e"
  by (simp add: term_end_def)

lemma term_end_prefix: "term_end S e \<Longrightarrow> term_end (S @ c) e"
  by (simp add: term_end_def)

lemma ends_at_in_chunk: "5 \<le> k \<Longrightarrow> ends_at S c k \<longleftrightarrow> term_end c k"
proof -
  assume "5 \<le> k"
  have "k \<le> length c \<Longrightarrow> suffix TERMINATOR (S @ take k c) \<longleftrightarrow> suffix TERMINATOR (take k c)"
    using \<open>5 \<le> k\<close> by (auto simp: suffix_append) (metis length_TERMINATOR(1) length_take min.absorb2 suffix_length_le suffix_def suffix_same_cases suffixI suffix_length_suffix)
  then show ?thesis by (auto simp: ends_at_def term_end_def)
qed

lemma term_end_append_iff:
  assumes "first_term_end S = None"
  shows "term_end (S @ c) e \<longleftrightarrow> length S < e \<and> ends_at S c (e - length S)"
proof
  assume t: "term_end (S @ c) e"
  have "\<not> e \<le> length S" using assms t term_end_append by (metis first_term_end_None_iff)
  moreover have "e \<le> length S + length c" using t by (simp add: term_end_def)
  ultimately show "length S < e \<and> ends_at S c (e - length S)"
    using t by (auto simp: ends_at_term_end)
qed (auto simp: ends_at_term_end)

lemma ends_at_gap: "ends_at S c a \<Longrightarrow> ends_at S c b \<Longrightarrow> a < b \<Longrightarrow> b = a + 3 \<or> a + 5 \<le> b"
  using term_end_gap [of "S @ c" "length S + a" "length S + b"] by (auto simp: ends_at_term_end)

context memchr_lib
begin

lemma terminator_ends_hd:
  "(case terminator_ends_in_chunk M t c of [] \<Rightarrow> None | e # _ \<Rightarrow> Some e) = first_term_end c"
  by (cases "find_sub TERMINATOR c")
     (simp_all add: terminator_ends_eq find_iter_sub.simps [of _ c] first_term_end_def)

text \<open>
  The end that the framer reports after the stream \<open>S\<close>: the first terminator end of \<open>S @ c\<close>, except
  when two terminators overlap across the chunk boundary, where it reports the second.
\<close>

lemma next_terminator_end_cases:
  assumes seen: "framer_seen f S" and none: "first_term_end S = None"
  shows "next_terminator_end M t f c = None \<longleftrightarrow> first_term_end (S @ c) = None"
    and "next_terminator_end M t f c = Some k \<Longrightarrow>
      ends_at S c k \<and> 0 < k \<and>
      first_term_end (S @ c) = Some (length S + (if ends_at S c 1 \<and> ends_at S c 4 then 1 else k))"
proof -
  have gap: "\<And>a b. ends_at S c a \<Longrightarrow> ends_at S c b \<Longrightarrow> a < b \<Longrightarrow> b = a + 3 \<or> a + 5 \<le> b"
    by (rule ends_at_gap)
  have e0: "\<not> ends_at S c 0"
    using none by (auto simp: ends_at_term_end first_term_end_None_iff dest: term_end_append)
  have first: "first_term_end (S @ c) = Some (length S + k) \<longleftrightarrow>
      ends_at S c k \<and> (\<forall>j < k. \<not> ends_at S c j)" for k
  proof -
    have "(\<forall>e' < length S + k. \<not> term_end (S @ c) e') \<longleftrightarrow> (\<forall>j < k. \<not> ends_at S c j)"
      unfolding term_end_append_iff [OF none]
      using e0 by (auto dest: spec [of _ "length S + _"])
    moreover have "ends_at S c k \<Longrightarrow> 0 < k" using e0 by (cases k) auto
    ultimately show ?thesis by (auto simp: first_term_end_Some_iff term_end_append_iff [OF none])
  qed
  let ?sp = "find_spanning_terminator f c"
  have sp: "?sp = (if ends_at S c 4 then Some 4 else if ends_at S c 3 then Some 3
     else if ends_at S c 2 then Some 2 else if ends_at S c 1 then Some 1 else None)"
    using seen by (rule find_spanning_terminator_ends)
  have small: "?sp = None \<Longrightarrow> ends_at S c j \<Longrightarrow> 5 \<le> j" for j
    using e0 sp by (cases "j \<le> 4") (auto simp: le_Suc_eq numeral_eq_Suc split: if_splits)
  have all: "first_term_end (S @ c) = None \<longleftrightarrow> (\<forall>j. \<not> ends_at S c j)"
  proof
    assume "first_term_end (S @ c) = None"
    then show "\<forall>j. \<not> ends_at S c j" by (auto simp: ends_at_term_end first_term_end_None_iff)
  qed (auto simp: first_term_end_None_iff term_end_append_iff [OF none])
  have nxt: "next_terminator_end M t f c = (case ?sp of Some e \<Rightarrow> Some e | None \<Rightarrow> first_term_end c)"
    by (simp only: next_terminator_end_def terminator_ends_hd)
  show "next_terminator_end M t f c = None \<longleftrightarrow> first_term_end (S @ c) = None"
  proof (cases ?sp)
    case None
    then have "(\<forall>j. \<not> ends_at S c j) \<longleftrightarrow> first_term_end c = None"
      using small ends_at_in_chunk by (metis first_term_end_None_iff term_end_iff)
    with None show ?thesis by (simp add: nxt all)
  next
    case (Some e)
    then have "ends_at S c e" using sp by (auto split: if_splits)
    with Some show ?thesis by (auto simp: nxt all)
  qed
  show "ends_at S c k \<and> 0 < k \<and>
      first_term_end (S @ c) = Some (length S + (if ends_at S c 1 \<and> ends_at S c 4 then 1 else k))"
    if n: "next_terminator_end M t f c = Some k"
  proof (cases ?sp)
    case None
    then have "first_term_end c = Some k" using n by (simp add: nxt)
    then have k: "term_end c k" "\<forall>j < k. \<not> term_end c j" by (auto simp: first_term_end_Some_iff)
    then have "ends_at S c k" by (metis ends_at_in_chunk term_end_iff)
    moreover have "\<not> ends_at S c j" if "j < k" for j
      using k(2) that small [OF None, of j] ends_at_in_chunk [of j S c] by blast
    moreover have "\<not> ends_at S c 1" using small [OF None, of 1] by auto
    moreover have "0 < k" using k(1) by (simp add: term_end_iff)
    ultimately show ?thesis using first [of k] by simp
  next
    case (Some e)
    then have k: "?sp = Some k" "ends_at S c k" "0 < k" "k \<le> 4"
      using n sp by (auto simp: nxt split: if_splits)
    show ?thesis
    proof (cases "ends_at S c 1 \<and> ends_at S c 4")
      case True
      then show ?thesis using k first [of 1] e0 by simp
    next
      case False
      have "\<not> ends_at S c j" if "j < k" for j
      proof
        assume j: "ends_at S c j"
        then have "k = j + 3" using gap [OF j k(2) that] k(4) by linarith
        moreover have "j \<noteq> 0" using j e0 by (cases j) auto
        ultimately have "j = 1" "k = 4" using k(4) by linarith+
        with False j k(2) show False by simp
      qed
      then show ?thesis using False k first by simp
    qed
  qed
qed

end

lemma first_term_end_append:
  assumes "first_term_end d = Some e"
  shows "first_term_end (d @ r) = Some e"
proof -
  have e: "term_end d e" "\<forall>e'<e. \<not> term_end d e'" using assms by (auto simp: first_term_end_Some_iff)
  moreover have "\<not> term_end (d @ r) e'" if "e' < e" for e'
    using that e term_end_append [of d r e'] by (auto simp: term_end_def)
  ultimately show ?thesis by (auto simp: first_term_end_Some_iff intro: term_end_prefix)
qed

text \<open>Feeding a list of reads; the result is the end of the response in their concatenation.\<close>

fun frame_stream ::
    "memchr_api \<Rightarrow> Target \<Rightarrow> MultilineFramer \<Rightarrow> nat \<Rightarrow> bytes list \<Rightarrow> nat option" where
  "frame_stream M t f offset [] = None"
| "frame_stream M t f offset (c # cs) =
     (case advance_to_next_terminator_end M t f c of
        (_, Some pos) \<Rightarrow> Some (offset + pos)
      | (f', None) \<Rightarrow> frame_stream M t f' (offset + length c) cs)"

context memchr_lib
begin

lemma advance_None:
  assumes "framer_seen f S" "first_term_end S = None" "advance_to_next_terminator_end M t f c = (f', None)"
  shows "framer_seen f' (S @ c)" "first_term_end (S @ c) = None"
  using assms next_terminator_end_cases(1) [OF assms(1,2), of t c]
  by (auto simp: advance_to_next_terminator_end_def Let_def)

lemma frame_stream_cases:
  assumes "framer_seen f S" "first_term_end S = None"
  shows "frame_stream M t f (length S) cs = None \<and> first_term_end (S @ concat cs) = None \<or>
    (\<exists>e. first_term_end (S @ concat cs) = Some e \<and>
       (frame_stream M t f (length S) cs = Some e \<or>
        frame_stream M t f (length S) cs = Some (e + 3) \<and> term_end (S @ concat cs) (e + 3)))"
  using assms
proof (induction cs arbitrary: f S)
  case Nil
  then show ?case by simp
next
  case (Cons c cs)
  obtain f' r where adv: "advance_to_next_terminator_end M t f c = (f', r)" by fastforce
  show ?case
  proof (cases r)
    case None
    from advance_None [OF Cons.prems adv [unfolded None]] Cons.IH [of f' "S @ c"] None adv
    show ?thesis by simp
  next
    case (Some k)
    then have "next_terminator_end M t f c = Some k"
      using adv by (auto simp: advance_to_next_terminator_end_def Let_def)
    from next_terminator_end_cases(2) [OF Cons.prems this]
    have k: "ends_at S c k"
      "first_term_end (S @ c) = Some (length S + (if ends_at S c 1 \<and> ends_at S c 4 then 1 else k))"
      by auto
    have first: "first_term_end (S @ concat (c # cs)) =
        Some (length S + (if ends_at S c 1 \<and> ends_at S c 4 then 1 else k))"
      using first_term_end_append [OF k(2), of "concat cs"] by simp
    have s: "frame_stream M t f (length S) (c # cs) = Some (length S + k)" using adv Some by simp
    show ?thesis
    proof (cases "ends_at S c 1 \<and> ends_at S c 4")
      case True
      have "k = 4"
        using \<open>next_terminator_end M t f c = Some k\<close> True
        by (simp add: next_terminator_end_def find_spanning_terminator_ends [OF Cons.prems(1)])
      moreover have "term_end (S @ concat (c # cs)) (length S + 4)"
        using True term_end_prefix [of "S @ c" "length S + 4" "concat cs"] by (auto simp: ends_at_term_end)
      ultimately show ?thesis using first s True by (auto simp: add.commute)
    next
      case False
      then show ?thesis using first s by auto
    qed
  qed
qed

end

lemma overlapping_ends:
  assumes "term_end d e" "term_end d (e + 3)"
  shows "prefix (TERMINATOR @ [DOT, CR, LF]) (drop (e - 5) d)"
proof -
  obtain z z' where z: "5 \<le> e" "drop (e - 5) d = TERMINATOR @ z" "drop (e - 2) d = TERMINATOR @ z'"
    using assms by (auto simp: term_end_iff prefix_def)
  have "drop (e - 2) d = drop 3 (drop (e - 5) d)" using z(1) by (simp add: drop_drop)
  then have "z = [DOT, CR, LF] @ z'" unfolding z(2,3) by (simp add: TERMINATOR_def)
  then show ?thesis using z(2) by simp
qed




section \<open>Captured payloads\<close>

lemma find_spanning_default [simp]: "find_spanning_terminator framer_default c = None"
  by (simp add: find_spanning_terminator_def framer_default_def)

lemma suffix_TERMINATOR_dot: "suffix TERMINATOR p \<longleftrightarrow> (\<exists>q. p = (q @ [CR, LF]) @ DOT_TERMINATOR)"
  by (auto simp: suffix_def TERMINATOR_def DOT_TERMINATOR_def)

context memchr_lib
begin

lemma split_chunk_default_reject:
  "split_chunk M t framer_default c PolicyReject =
     (case first_term_end c of
        None \<Rightarrow> (framer_update framer_default c, Inr Incomplete)
      | Some e \<Rightarrow> (framer_default,
          if e = length c then Inr (Complete e) else Inl UnexpectedTrailingResponseBytes))"
  unfolding terminator_ends_hd [of t c, symmetric]
  by (cases "terminator_ends_in_chunk M t c") (simp_all add: split_chunk_def)

lemma payload_body_iff:
  "complete_multiline_payload_body M t p = Some b \<longleftrightarrow>
     p = b @ DOT_TERMINATOR \<and> (b = [] \<or> first_term_end p = Some (length p))"
proof (cases "p = DOT_TERMINATOR")
  case True
  have "first_term_end DOT_TERMINATOR = None"
    by (simp add: first_term_end_def DOT_TERMINATOR_def TERMINATOR_def)
  with True show ?thesis
    by (auto simp: complete_multiline_payload_body_def complete_multiline_payload_split_def
        DOT_TERMINATOR_def subrange_def)
next
  case False
  show ?thesis
  proof (cases "first_term_end p = Some (length p)")
    case True
    then have "suffix TERMINATOR p" by (auto simp: first_term_end_Some_iff term_end_def)
    then obtain q where q: "p = (q @ [CR, LF]) @ DOT_TERMINATOR" by (auto simp: suffix_TERMINATOR_dot)
    have "complete_multiline_payload_body M t p = Some (q @ [CR, LF])"
      using True False q
      by (simp add: complete_multiline_payload_body_def complete_multiline_payload_split_def
          split_chunk_default_reject DOT_TERMINATOR_def subrange_def)
    with True q show ?thesis by auto
  next
    case no: False
    then have "complete_multiline_payload_body M t p = None"
      using False
      by (auto simp: complete_multiline_payload_body_def complete_multiline_payload_split_def
          split_chunk_default_reject DOT_TERMINATOR_def split: option.splits)
    with no False show ?thesis by auto
  qed
qed

end

text \<open>
  C35. A captured multiline payload has a body exactly when it is that body followed by the dot line and
  the dot line is its first terminator; the body is returned unchanged, with its final CRLF, and
  payloads with further bytes, without a terminator or with an earlier one have none.
\<close>

theorem payload_body_spec:
  assumes "memchr_lib M"
  shows "complete_multiline_payload_body M t p = Some b \<longleftrightarrow>
     p = b @ DOT_TERMINATOR \<and> (b = [] \<or> first_term_end p = Some (length p))"
  by (rule memchr_lib.payload_body_iff [OF assms])

theorem payload_body_spec_witness:
  "complete_multiline_payload_body memchr_ref Avx2 (''a'' @ CRLF @ DOT_TERMINATOR) = Some (''a'' @ CRLF)"
  using payload_body_spec [OF memchr_ref.memchr_lib_axioms, of Avx2 "''a'' @ CRLF @ DOT_TERMINATOR"]
  by (simp add: first_term_end_def TERMINATOR_def DOT_TERMINATOR_def)

lemma article_sections_facts:
  assumes "memchr_lib M"
  shows "(captured_article_payload_sections M p = None \<longleftrightarrow>
            \<not> prefix CRLF p \<and> find_sub (CRLF @ CRLF) p = None) \<and>
         (\<forall>a b c d. captured_article_payload_sections M p = Some ((a, b), (c, d)) \<longrightarrow>
            p = subrange a b p @ CRLF @ subrange c d p \<and>
            (subrange a b p = [] \<or> suffix CRLF (subrange a b p)) \<and>
            find_sub (CRLF @ CRLF) (subrange a b p) = None)"
proof (intro conjI allI impI)
  have m: "memmem_find M [CR, LF, CR, LF] p = find_sub [CR, LF, CR, LF] p"
    using memchr_lib.memmem_find_eq [OF assms] by simp
  show "captured_article_payload_sections M p = None \<longleftrightarrow>
      \<not> prefix CRLF p \<and> find_sub (CRLF @ CRLF) p = None"
    by (simp add: captured_article_payload_sections_def m)
  fix a b c d
  assume s: "captured_article_payload_sections M p = Some ((a, b), (c, d))"
  have "p = subrange a b p @ CRLF @ subrange c d p \<and>
      (subrange a b p = [] \<or> suffix CRLF (subrange a b p)) \<and>
      find_sub (CRLF @ CRLF) (subrange a b p) = None"
  proof (cases "prefix CRLF p")
    case True
    then obtain r where "p = CRLF @ r" by (auto simp: prefix_def)
    with s show ?thesis by (auto simp: captured_article_payload_sections_def subrange_def)
  next
    case False
    with s obtain i where i: "find_sub (CRLF @ CRLF) p = Some i" "(a, b) = (0, i + 2)"
        "(c, d) = (i + 4, length p)"
      by (auto simp: captured_article_payload_sections_def m)
    obtain r where r: "drop i p = CRLF @ CRLF @ r"
      using i(1) by (auto simp: find_sub_Some_iff prefix_def)
    define h where "h = take i p"
    have p: "p = h @ CRLF @ CRLF @ r" and h: "length h = i"
      using r find_sub_bound [OF i(1)] by (metis append_take_drop_id h_def, simp add: h_def)
    have ab: "subrange a b p = h @ CRLF" and cd: "subrange c d p = r"
      using i p h by (simp_all add: subrange_def)
    have "find_sub (CRLF @ CRLF) (h @ CRLF) = None"
    proof (rule ccontr)
      assume "find_sub (CRLF @ CRLF) (h @ CRLF) \<noteq> None"
      then obtain j where j: "find_sub (CRLF @ CRLF) (h @ CRLF) = Some j" by auto
      then have "j + 4 \<le> i + 2" using find_sub_bound [OF j] h by simp
      have "h @ CRLF = take (i + 2) p" using p h by simp
      then have "find_sub (CRLF @ CRLF) p = Some j" using j find_sub_take_Some by metis
      then show False using i(1) \<open>j + 4 \<le> i + 2\<close> by simp
    qed
    then show ?thesis using p ab cd by (auto simp: suffix_def)
  qed
  then show "p = subrange a b p @ CRLF @ subrange c d p"
    "subrange a b p = [] \<or> suffix CRLF (subrange a b p)"
    "find_sub (CRLF @ CRLF) (subrange a b p) = None"
    by blast+
qed



end
