(* ===== verification/Tracker.thy ===== *)
theory Tracker
  imports Framer
begin

text \<open>
  Pipelined backend replies: \<open>PendingRequestFrame\<close>, \<open>BackendReplyTracker\<close> and
  \<open>BackendResponseOrder\<close> of \<open>src/src/session/multiline_framing.rs\<close>. A stateful session forwards
  requests without waiting; the tracker cuts the backend's byte stream into the replies of the
  pending requests, and the ordering layer releases deferred local replies between them.
\<close>

section \<open>Data\<close>

text \<open>\<open>buffer::COMMAND\<close> of \<open>src/src/constants.rs\<close>.\<close>

definition COMMAND :: nat where "COMMAND = 512"

datatype PendingRequestFrameState =
    AwaitingStatusLine
  | DiscardingOverlongStatusLine
  | ReadingMultiline MultilineFramer

record PendingRequestFrame =
  pf_kind :: RequestKind
  pf_state :: PendingRequestFrameState
  pf_status_line :: bytes

datatype BackendReplyBytes = CompletedTrackedReply bytes | ForwardUntracked bytes

datatype OrderedResponse = Backend | Local bytes

record BackendResponseOrder =
  bo_inner :: "PendingRequestFrame list"
  bo_ordered :: "OrderedResponse list"

definition order_default :: BackendResponseOrder where
  "order_default = \<lparr>bo_inner = [], bo_ordered = []\<rparr>"

section \<open>The tracker\<close>

definition tracker_push_request ::
    "RequestKind \<Rightarrow> PendingRequestFrame list \<Rightarrow> PendingRequestFrame list" where
  "tracker_push_request kind pending =
     pending @ [\<lparr>pf_kind = kind, pf_state = AwaitingStatusLine, pf_status_line = []\<rparr>]"

text \<open>\<open>consume\<close>: the frame after the call, and the range of the chunk that ends the reply.\<close>

definition consume ::
    "memchr_api \<Rightarrow> Target \<Rightarrow> PendingRequestFrame \<Rightarrow> bytes \<Rightarrow> nat
       \<Rightarrow> PendingRequestFrame \<times> (nat \<times> nat) option" where
  "consume M t frame chunk offset =
     (let offset_bytes = drop offset chunk in
      case pf_state frame of
        AwaitingStatusLine \<Rightarrow>
          (case memchr M LF offset_bytes of
             None \<Rightarrow>
               if length (pf_status_line frame) + length offset_bytes > COMMAND
               then (frame\<lparr>pf_status_line := [], pf_state := DiscardingOverlongStatusLine\<rparr>, None)
               else (frame\<lparr>pf_status_line := pf_status_line frame @ offset_bytes\<rparr>, None)
           | Some pos \<Rightarrow>
               let end = offset + (pos + 1) in
               if length (pf_status_line frame) + end - offset > COMMAND
               then (frame, Some (offset, end))
               else
                 let frame1 = frame\<lparr>pf_status_line := pf_status_line frame @ subrange offset end chunk\<rparr>
                 in case status_parse (pf_status_line frame1) of
                      None \<Rightarrow> (frame1, Some (offset, end))
                    | Some status \<Rightarrow>
                        if \<not> request_kind_has_response_body (pf_kind frame1) status
                        then (frame1, Some (offset, end))
                        else
                          let framer = framer_update framer_default (pf_status_line frame1);
                              frame2 = frame1\<lparr>pf_status_line := []\<rparr>
                          in case advance_to_next_terminator_end M t framer (drop end chunk) of
                               (_, Some consumed) \<Rightarrow> (frame2, Some (offset, end + consumed))
                             | (framer', None) \<Rightarrow>
                                 (frame2\<lparr>pf_state := ReadingMultiline framer'\<rparr>, None))
      | DiscardingOverlongStatusLine \<Rightarrow>
          (frame, map_option (\<lambda>pos. (offset, offset + (pos + 1))) (memchr M LF offset_bytes))
      | ReadingMultiline framer \<Rightarrow>
          (case advance_to_next_terminator_end M t framer offset_bytes of
             (framer', r) \<Rightarrow>
               (frame\<lparr>pf_state := ReadingMultiline framer'\<rparr>,
                map_option (\<lambda>consumed. (offset, offset + consumed)) r)))"

text \<open>The loop of \<open>accept_backend_bytes\<close> from an offset; each turn either stops or pops a frame.\<close>

fun accept_loop ::
    "memchr_api \<Rightarrow> Target \<Rightarrow> PendingRequestFrame list \<Rightarrow> bytes \<Rightarrow> nat
       \<Rightarrow> PendingRequestFrame list \<times> BackendReplyBytes list" where
  "accept_loop M t [] chunk offset =
     ([], if offset < length chunk then [ForwardUntracked (drop offset chunk)] else [])"
| "accept_loop M t (front # pending) chunk offset =
     (if offset < length chunk then
        (case consume M t front chunk offset of
           (front', None) \<Rightarrow> (front' # pending, [ForwardUntracked (drop offset chunk)])
         | (_, Some (start, end)) \<Rightarrow>
             (case accept_loop M t pending chunk end of
                (pending', output) \<Rightarrow>
                  (pending', CompletedTrackedReply (subrange start end chunk) # output)))
      else (front # pending, []))"

definition accept_backend_bytes ::
    "memchr_api \<Rightarrow> Target \<Rightarrow> PendingRequestFrame list \<Rightarrow> bytes
       \<Rightarrow> PendingRequestFrame list \<times> BackendReplyBytes list" where
  "accept_backend_bytes M t pending chunk = accept_loop M t pending chunk 0"

section \<open>The ordering layer\<close>

definition order_push_request :: "RequestKind \<Rightarrow> BackendResponseOrder \<Rightarrow> BackendResponseOrder" where
  "order_push_request kind b =
     \<lparr>bo_inner = tracker_push_request kind (bo_inner b), bo_ordered = bo_ordered b @ [Backend]\<rparr>"

definition has_pending_backend_replies :: "BackendResponseOrder \<Rightarrow> bool" where
  "has_pending_backend_replies b \<longleftrightarrow> list_ex (\<lambda>r. r = Backend) (bo_ordered b)"

definition push_deferred_reply :: "bytes \<Rightarrow> BackendResponseOrder \<Rightarrow> BackendResponseOrder" where
  "push_deferred_reply reply b = b\<lparr>bo_ordered := bo_ordered b @ [Local reply]\<rparr>"

definition is_local :: "OrderedResponse \<Rightarrow> bool" where
  "is_local r \<longleftrightarrow> (case r of Local _ \<Rightarrow> True | Backend \<Rightarrow> False)"

definition has_deferred_replies :: "BackendResponseOrder \<Rightarrow> bool" where
  "has_deferred_replies b \<longleftrightarrow> list_ex is_local (bo_ordered b)"

definition should_drain_backend_replies :: "BackendResponseOrder \<Rightarrow> bool" where
  "should_drain_backend_replies b \<longleftrightarrow>
     (case bo_ordered b of Backend # rest \<Rightarrow> list_ex is_local rest | _ \<Rightarrow> False)"

fun take_ready :: "OrderedResponse list \<Rightarrow> OrderedResponse list \<times> bytes list" where
  "take_ready (Local reply # rest) =
     (case take_ready rest of (rest', replies) \<Rightarrow> (rest', reply # replies))"
| "take_ready ordered = (ordered, [])"

definition take_ready_deferred_replies ::
    "BackendResponseOrder \<Rightarrow> BackendResponseOrder \<times> bytes list" where
  "take_ready_deferred_replies b =
     (case take_ready (bo_ordered b) of (ordered', replies) \<Rightarrow> (b\<lparr>bo_ordered := ordered'\<rparr>, replies))"

fun write_replies :: "OrderedResponse list \<Rightarrow> BackendReplyBytes list \<Rightarrow> OrderedResponse list \<times> bytes list" where
  "write_replies ordered [] = (ordered, [])"
| "write_replies ordered (ForwardUntracked bs # rest) =
     (case write_replies ordered rest of (ordered', writes) \<Rightarrow> (ordered', bs # writes))"
| "write_replies ordered (CompletedTrackedReply bs # rest) =
     (let ordered1 = (case ordered of Backend # q \<Rightarrow> q | _ \<Rightarrow> ordered);
          (ordered2, ready) = take_ready ordered1;
          (ordered', writes) = write_replies ordered2 rest
      in (ordered', bs # ready @ writes))"

definition client_writes_for_backend_read ::
    "memchr_api \<Rightarrow> Target \<Rightarrow> BackendResponseOrder \<Rightarrow> bytes \<Rightarrow> BackendResponseOrder \<times> bytes list" where
  "client_writes_for_backend_read M t b backend_read =
     (let (ordered1, ready) = take_ready (bo_ordered b);
          (inner', replies) = accept_backend_bytes M t (bo_inner b) backend_read;
          (ordered', writes) = write_replies ordered1 replies
      in (\<lparr>bo_inner = inner', bo_ordered = ordered'\<rparr>, ready @ writes))"

section \<open>Conservation of bytes\<close>

fun reply_bytes :: "BackendReplyBytes \<Rightarrow> bytes" where
  "reply_bytes (CompletedTrackedReply bs) = bs"
| "reply_bytes (ForwardUntracked bs) = bs"

lemma first_term_end_bounds: "first_term_end c = Some e \<Longrightarrow> 5 \<le> e \<and> e \<le> length c"
  by (metis first_term_end_Some_iff term_end_def term_end_iff)

context memchr_lib
begin

lemma next_end_exact:
  assumes "framer_seen f S" "first_term_end S = None" "first_term_end (S @ q) = Some (length S + length q)"
    and rst: "rst = [] \<or> hd rst \<noteq> DOT"
  shows "next_terminator_end M t f (q @ rst) = Some (length q)"
proof -
  let ?c = "q @ rst"
  have first: "first_term_end (S @ ?c) = Some (length S + length q)"
    using first_term_end_append [OF assms(3), of rst] by simp
  then obtain k where k: "next_terminator_end M t f ?c = Some k"
    using next_terminator_end_cases(1) [OF assms(1,2), of t ?c] by auto
  from next_terminator_end_cases(2) [OF assms(1,2) k] first
  have q: "length q = (if ends_at S ?c 1 \<and> ends_at S ?c 4 then 1 else k)" by auto
  have "\<not> (ends_at S ?c 1 \<and> ends_at S ?c 4)"
  proof
    assume o: "ends_at S ?c 1 \<and> ends_at S ?c 4"
    with q have "length q = 1" by simp
    with o have "prefix (TERMINATOR @ [DOT, CR, LF]) (drop (length S + 1 - 5) (S @ ?c))"
      by (intro overlapping_ends) (auto simp: ends_at_term_end add.commute)
    then obtain z where z: "drop (length S + 1 - 5) (S @ ?c) = TERMINATOR @ DOT # CR # LF # z"
      by (auto simp: prefix_def)
    have "5 \<le> length S + 1" using first_term_end_bounds [OF first] \<open>length q = 1\<close> by simp
    then have "drop 5 (drop (length S + 1 - 5) (S @ ?c)) = rst"
      using \<open>length q = 1\<close> by simp
    then have "rst = DOT # CR # LF # z" unfolding z by simp
    with rst show False by simp
  qed
  with q k show ?thesis by (simp only: if_False)
qed

end

section \<open>Well-formed replies\<close>

text \<open>
  A reply to a request of the given kind: one status line of at most 512 octets, and, when the status
  has a body for that kind, the lines up to and including the first terminator.
\<close>

definition reply_ok :: "RequestKind \<Rightarrow> bytes \<Rightarrow> bool" where
  "reply_ok kind r \<longleftrightarrow>
     (\<exists>l body status. r = l @ [LF] @ body \<and> LF \<notin> set l \<and> length l < COMMAND \<and>
        status_parse (l @ [LF]) = Some status \<and>
        (if request_kind_has_response_body kind status
         then body \<noteq> [] \<and> first_term_end r = Some (length r) else body = []))"

text \<open>The frame of a request of which the strict prefix \<open>p\<close> of the reply has arrived.\<close>

definition frame_at :: "RequestKind \<Rightarrow> bytes \<Rightarrow> PendingRequestFrame \<Rightarrow> bool" where
  "frame_at kind p fr \<longleftrightarrow> pf_kind fr = kind \<and>
     (if LF \<notin> set p then pf_state fr = AwaitingStatusLine \<and> pf_status_line fr = p
      else \<exists>f. pf_state fr = ReadingMultiline f \<and> framer_seen f p)"

lemma frame_at_fresh [simp]:
  "frame_at kind [] \<lparr>pf_kind = kind, pf_state = AwaitingStatusLine, pf_status_line = []\<rparr>"
  by (simp add: frame_at_def)

lemma first_term_end_strict_prefix:
  assumes "first_term_end r = Some (length r)" "r = p @ q" "q \<noteq> []"
  shows "first_term_end p = None"
proof (cases "first_term_end p")
  case (Some e)
  then have "first_term_end r = Some e" "e \<le> length p"
    using assms(2) first_term_end_append first_term_end_bounds by auto
  with assms show ?thesis by auto
qed

lemma reply_ok_head:
  assumes "reply_ok kind r"
  shows "r \<noteq> [] \<and> hd r \<noteq> DOT"
proof -
  obtain l body status where r: "r = l @ [LF] @ body" "status_parse (l @ [LF]) = Some status"
    using assms by (auto simp: reply_ok_def)
  then have "3 \<le> length (l @ [LF])" "\<not> digit_of ((l @ [LF]) ! 0) > 9"
    by (auto simp: status_parse_def Let_def split: if_splits)
  then have "l \<noteq> []" "is_ascii_digit (hd l)"
    by (cases l; simp add: digit_of_gt_9)+
  then show ?thesis using r(1) by (auto simp: is_ascii_digit_def)
qed

text \<open>The status line of a reply that has not arrived completely.\<close>

lemma reply_ok_cut:
  assumes "reply_ok kind (p @ q)" "LF \<notin> set p"
  obtains a b status where "q = a @ [LF] @ b" "LF \<notin> set a" "length p + length a < COMMAND"
    "status_parse (p @ a @ [LF]) = Some status"
    "if request_kind_has_response_body kind status
     then b \<noteq> [] \<and> first_term_end (p @ q) = Some (length (p @ q)) else b = []"
proof -
  obtain l body status where r: "p @ q = l @ [LF] @ body" "LF \<notin> set l" "length l < COMMAND"
      "status_parse (l @ [LF]) = Some status"
      "if request_kind_has_response_body kind status
       then body \<noteq> [] \<and> first_term_end (p @ q) = Some (length (p @ q)) else body = []"
    using assms(1) by (auto simp: reply_ok_def)
  have "prefix p l"
  proof (rule ccontr)
    assume n: "\<not> prefix p l"
    have "prefix p (p @ q)" by simp
    moreover have "prefix l (p @ q)" unfolding r(1) by simp
    ultimately have "strict_prefix l p" using n
      by (metis prefix_order.less_le prefix_same_cases prefix_order.eq_refl)
    then obtain z where z: "p = l @ z" "z \<noteq> []" by (auto simp: strict_prefix_def prefix_def)
    with r(1) have "hd z = LF" by (cases z) auto
    with z assms(2) show False by (cases z) auto
  qed
  then obtain a where a: "l = p @ a" by (auto simp: prefix_def)
  with r have "q = a @ [LF] @ body" by simp
  with a r show ?thesis by (intro that [of a body status]) auto
qed

lemma reply_ok_multiline:
  assumes "reply_ok kind (p @ q)" "LF \<in> set p" "q \<noteq> []"
  shows "first_term_end (p @ q) = Some (length (p @ q))"
proof -
  obtain l body status where r: "p @ q = l @ [LF] @ body" "LF \<notin> set l"
      "if request_kind_has_response_body kind status
       then body \<noteq> [] \<and> first_term_end (p @ q) = Some (length (p @ q)) else body = []"
    using assms(1) by (auto simp: reply_ok_def)
  have "body \<noteq> []"
  proof
    assume "body = []"
    with r(1) assms(3) have "prefix p l"
      by (metis append_Nil2 butlast_append butlast_snoc prefixI)
    with r(2) assms(2) show False by (auto simp: prefix_def)
  qed
  with r show ?thesis by (auto split: if_splits)
qed

lemma first_split_unique:
  "a @ x # b = c @ x # d \<Longrightarrow> x \<notin> set a \<Longrightarrow> x \<notin> set c \<Longrightarrow> a = c \<and> b = d"
proof (induction a arbitrary: c)
  case Nil
  then show ?case by (cases c) auto
next
  case (Cons y a)
  then show ?case by (cases c) auto
qed

context memchr_lib
begin

lemma position_LF_append: "LF \<notin> set a \<Longrightarrow> position (\<lambda>c. c = LF) (a @ LF # b) = Some (length a)"
  by (rule position_append_hit) auto

lemma subrange_offset: "drop offset chunk = a @ b \<Longrightarrow> subrange offset (offset + length a) chunk = a"
  by (simp add: subrange_def)

lemma drop_offset: "drop offset chunk = a @ b \<Longrightarrow> drop (offset + length a) chunk = b"
  by (metis add.commute append_eq_conv_conj drop_drop)

text \<open>Part of a reply: the frame absorbs it and reports no end.\<close>

lemma consume_partial:
  assumes ok: "reply_ok kind (p @ c @ q)" and "q \<noteq> []"
    and fr: "frame_at kind p fr" and c: "drop offset chunk = c"
  obtains fr' where "consume M t fr chunk offset = (fr', None)" "frame_at kind (p @ c) fr'"
proof (cases "LF \<in> set p")
  case True
  then obtain f where f: "pf_state fr = ReadingMultiline f" "framer_seen f p"
    using fr by (auto simp: frame_at_def)
  have full: "first_term_end (p @ c @ q) = Some (length (p @ c @ q))"
    using reply_ok_multiline [OF ok True] \<open>q \<noteq> []\<close> by simp
  have "first_term_end p = None" "first_term_end (p @ c) = None"
    using first_term_end_strict_prefix [OF full, of p "c @ q"]
      first_term_end_strict_prefix [OF full, of "p @ c" q] \<open>q \<noteq> []\<close> by simp_all
  then have "advance_to_next_terminator_end M t f c = (framer_update f c, None)"
    using next_terminator_end_cases(1) [OF f(2), of t c]
    by (simp add: advance_to_next_terminator_end_def)
  then have "consume M t fr chunk offset = (fr\<lparr>pf_state := ReadingMultiline (framer_update f c)\<rparr>, None)"
    by (simp add: consume_def f c)
  moreover have "frame_at kind (p @ c) (fr\<lparr>pf_state := ReadingMultiline (framer_update f c)\<rparr>)"
    using fr True framer_seen_update [OF f(2)] by (auto simp: frame_at_def)
  ultimately show ?thesis using that by blast
next
  case nop: False
  then have fr': "pf_kind fr = kind" "pf_state fr = AwaitingStatusLine" "pf_status_line fr = p"
    using fr by (auto simp: frame_at_def)
  show ?thesis
  proof (cases "LF \<in> set c")
    case False
    with nop have "LF \<notin> set (p @ c)" by simp
    moreover have "reply_ok kind ((p @ c) @ q)" using ok by simp
    ultimately obtain a b where "q = a @ [LF] @ b" "length (p @ c) + length a < COMMAND"
      using reply_ok_cut [of kind "p @ c" q] by metis
    then have "\<not> length p + length c > COMMAND" by simp
    moreover have "position (\<lambda>x. x = LF) c = None" using False by (auto simp: position_None_iff)
    ultimately have "consume M t fr chunk offset = (fr\<lparr>pf_status_line := p @ c\<rparr>, None)"
      by (simp add: consume_def fr' c)
    moreover have "frame_at kind (p @ c) (fr\<lparr>pf_status_line := p @ c\<rparr>)"
      using False nop fr' by (simp add: frame_at_def)
    ultimately show ?thesis using that by blast
  next
    case True
    obtain a b status where cut: "c @ q = a @ [LF] @ b" "LF \<notin> set a" "length p + length a < COMMAND"
      "status_parse (p @ a @ [LF]) = Some status"
      "if request_kind_has_response_body kind status
       then b \<noteq> [] \<and> first_term_end (p @ c @ q) = Some (length (p @ c @ q)) else b = []"
      using reply_ok_cut [OF ok nop] .
    obtain c1 c2 where c12: "c = c1 @ LF # c2" "LF \<notin> set c1"
      using split_list_first [OF True] by auto
    have "c1 = a" "b = c2 @ q"
    proof -
      have "c1 @ LF # (c2 @ q) = a @ LF # b" using cut(1) c12(1) by simp
      then show "c1 = a" "b = c2 @ q"
        using first_split_unique c12(2) cut(2) by metis+
    qed
    with cut(5) \<open>q \<noteq> []\<close> have body: "request_kind_has_response_body kind status"
      and full: "first_term_end (p @ c @ q) = Some (length (p @ c @ q))"
      by (auto split: if_splits)
    let ?line = "p @ a @ [LF]"
    let ?f = "framer_update framer_default ?line"
    have seen: "framer_seen ?f ?line"
      using framer_seen_update [OF framer_seen_default, of ?line] by simp
    have line: "p @ c = ?line @ c2" using c12(1) \<open>c1 = a\<close> by simp
    have "first_term_end ?line = None" "first_term_end (?line @ c2) = None"
      using first_term_end_strict_prefix [OF full, of ?line "c2 @ q"]
        first_term_end_strict_prefix [OF full, of "p @ c" q] \<open>q \<noteq> []\<close> line by simp_all
    then have adv: "advance_to_next_terminator_end M t ?f c2 = (framer_update ?f c2, None)"
      using next_terminator_end_cases(1) [OF seen, of t c2]
      by (simp add: advance_to_next_terminator_end_def)
    have ends: "subrange offset (offset + (length a + 1)) chunk = a @ [LF]"
      "drop (offset + (length a + 1)) chunk = c2"
      using subrange_offset [of offset chunk "a @ [LF]" c2] drop_offset [of offset chunk "a @ [LF]" c2]
        c c12(1) \<open>c1 = a\<close> by simp_all
    have "consume M t fr chunk offset =
        (fr\<lparr>pf_status_line := [], pf_state := ReadingMultiline (framer_update ?f c2)\<rparr>, None)"
      using cut(2-4) body adv ends \<open>c1 = a\<close>
      by (simp add: consume_def fr' c c12 position_LF_append Let_def)
    moreover have "frame_at kind (p @ c)
        (fr\<lparr>pf_status_line := [], pf_state := ReadingMultiline (framer_update ?f c2)\<rparr>)"
      using framer_seen_update [OF seen, of c2] fr' line c12(1) by (auto simp: frame_at_def)
    ultimately show ?thesis using that by blast
  qed
qed

text \<open>The rest of a reply, followed by the next reply: the frame ends exactly there.\<close>

lemma consume_complete:
  assumes ok: "reply_ok kind (p @ q)" and "q \<noteq> []"
    and fr: "frame_at kind p fr" and c: "drop offset chunk = q @ rst"
    and rst: "rst = [] \<or> hd rst \<noteq> DOT"
  obtains fr' where "consume M t fr chunk offset = (fr', Some (offset, offset + length q))"
proof (cases "LF \<in> set p")
  case True
  then obtain f where f: "pf_state fr = ReadingMultiline f" "framer_seen f p"
    using fr by (auto simp: frame_at_def)
  have full: "first_term_end (p @ q) = Some (length p + length q)"
    using reply_ok_multiline [OF ok True \<open>q \<noteq> []\<close>] by simp
  have "first_term_end p = None"
    using first_term_end_strict_prefix [of "p @ q" p q] full \<open>q \<noteq> []\<close> by simp
  from next_end_exact [OF f(2) this full rst]
  have "advance_to_next_terminator_end M t f (q @ rst) = (f, Some (length q))"
    by (simp add: advance_to_next_terminator_end_def)
  then show ?thesis using that by (simp add: consume_def f c)
next
  case False
  then have fr': "pf_kind fr = kind" "pf_state fr = AwaitingStatusLine" "pf_status_line fr = p"
    using fr by (auto simp: frame_at_def)
  obtain a b status where cut: "q = a @ [LF] @ b" "LF \<notin> set a" "length p + length a < COMMAND"
      "status_parse (p @ a @ [LF]) = Some status"
      "if request_kind_has_response_body kind status
       then b \<noteq> [] \<and> first_term_end (p @ q) = Some (length (p @ q)) else b = []"
    using reply_ok_cut [OF ok False] .
  have ends: "subrange offset (offset + (length a + 1)) chunk = a @ [LF]"
    "drop (offset + (length a + 1)) chunk = b @ rst"
    using subrange_offset [of offset chunk "a @ [LF]" "b @ rst"]
      drop_offset [of offset chunk "a @ [LF]" "b @ rst"] c cut(1) by simp_all
  show ?thesis
  proof (cases "request_kind_has_response_body kind status")
    case nobody: False
    then have "b = []" using cut(5) by simp
    then show ?thesis
      using cut(1-4) ends nobody that by (simp add: consume_def fr' c position_LF_append Let_def)
  next
    case True
    let ?line = "p @ a @ [LF]"
    let ?f = "framer_update framer_default ?line"
    have seen: "framer_seen ?f ?line"
      using framer_seen_update [OF framer_seen_default, of ?line] by simp
    have b: "b \<noteq> []" "first_term_end (p @ q) = Some (length (p @ q))" using cut(5) True by auto
    have none: "first_term_end ?line = None"
      using first_term_end_strict_prefix [of "p @ q" ?line b] b cut(1) by simp
    have "first_term_end (?line @ b) = Some (length ?line + length b)" using b(2) cut(1) by simp
    from next_end_exact [OF seen none this rst]
    have "advance_to_next_terminator_end M t ?f (b @ rst) = (?f, Some (length b))"
      by (simp add: advance_to_next_terminator_end_def)
    then show ?thesis
      using cut(1-4) ends True that by (simp add: consume_def fr' c position_LF_append Let_def ac_simps)
  qed
qed

end

section \<open>The tracker refines cutting by reply length\<close>

text \<open>
  The specification: the pending requests with the replies that the backend will send, of which the
  strict prefix \<open>p\<close> of the first has arrived; a read is cut at the lengths of the replies.
\<close>

fun deliver ::
    "(RequestKind \<times> bytes) list \<Rightarrow> bytes \<Rightarrow> bytes
       \<Rightarrow> (RequestKind \<times> bytes) list \<times> bytes \<times> BackendReplyBytes list" where
  "deliver [] p c = ([], p, [])"
| "deliver ((k, r) # its) p c =
     (let q = drop (length p) r in
      if c = [] then ((k, r) # its, p, [])
      else if length c < length q then ((k, r) # its, p @ c, [ForwardUntracked c])
      else case deliver its [] (drop (length q) c) of
             (its', p', out) \<Rightarrow> (its', p', CompletedTrackedReply q # out))"

definition pend_inv :: "PendingRequestFrame list \<Rightarrow> (RequestKind \<times> bytes) list \<Rightarrow> bytes \<Rightarrow> bool" where
  "pend_inv frames its p \<longleftrightarrow>
     (\<forall>(k, r) \<in> set its. reply_ok k r) \<and>
     (case (frames, its) of
        ([], []) \<Rightarrow> p = []
      | (fr # frs, (k, r) # its') \<Rightarrow>
          strict_prefix p r \<and> frame_at k p fr \<and> list_all2 (\<lambda>f (k, r). frame_at k [] f) frs its'
      | _ \<Rightarrow> False)"

lemma pend_inv_fresh:
  assumes "list_all2 (\<lambda>f (k, r). frame_at k [] f) frs its" "\<forall>(k, r) \<in> set its. reply_ok k r"
  shows "pend_inv frs its []"
  using assms by (cases its) (auto simp: pend_inv_def list_all2_Cons2 strict_prefix_def dest: reply_ok_head
      split: list.splits)

definition remaining :: "(RequestKind \<times> bytes) list \<Rightarrow> bytes \<Rightarrow> bytes" where
  "remaining its p = drop (length p) (concat (map snd its))"

context memchr_lib
begin

lemma accept_loop_deliver:
  assumes "pend_inv frames its p" "drop offset chunk = c" "prefix c (remaining its p)"
    and "deliver its p c = (its', p', out)"
  shows "\<exists>frames'. accept_loop M t frames chunk offset = (frames', out) \<and> pend_inv frames' its' p'"
  using assms
proof (induction its arbitrary: frames p c offset its' p' out)
  case Nil
  then show ?case by (auto simp: pend_inv_def remaining_def split: list.splits)
next
  case (Cons it its)
  obtain k r where it: "it = (k, r)" by (cases it)
  obtain fr frs where fr: "frames = fr # frs" "strict_prefix p r" "frame_at k p fr"
      "list_all2 (\<lambda>f (k, r). frame_at k [] f) frs its"
      and ok: "reply_ok k r" "\<forall>(k, r) \<in> set its. reply_ok k r"
    using Cons.prems(1) by (auto simp: pend_inv_def it split: list.splits)
  obtain q where q: "r = p @ q" "q \<noteq> []" using fr(2) by (auto simp: strict_prefix_def prefix_def)
  have pre: "prefix c (q @ concat (map snd its))"
    using Cons.prems(3) by (simp add: remaining_def it q)
  show ?case
  proof (cases "c = []")
    case True
    then show ?thesis using Cons.prems(1,2,4) by (auto simp: fr(1) it)
  next
    case False
    then have off: "offset < length chunk" using Cons.prems(2) by auto
    show ?thesis
    proof (cases "length c < length q")
      case True
      then obtain q' where q': "q = c @ q'" "q' \<noteq> []"
        using pre by (auto simp: prefix_append) (metis append_eq_append_conv2 append_self_conv
            less_not_refl linorder_not_le prefix_def prefix_length_le)
      obtain fr' where "consume M t fr chunk offset = (fr', None)" "frame_at k (p @ c) fr'"
        using consume_partial [of k p c q' fr offset chunk] ok(1) q q' fr(3) Cons.prems(2) by auto
      moreover have "strict_prefix (p @ c) r" using q q' by (simp add: strict_prefix_def)
      ultimately show ?thesis
        using Cons.prems off False True fr ok by (auto simp: pend_inv_def it q Let_def)
    next
      case ge: False
      then obtain c' where c': "c = q @ c'" "prefix c' (concat (map snd its))"
        using pre by (metis linorder_not_less prefix_append prefix_length_prefix prefix_def same_prefix_prefix
            prefix_order.refl prefixI)
      have "c' = [] \<or> hd c' \<noteq> DOT"
      proof (cases its)
        case (Cons it2 its2)
        then have "reply_ok (fst it2) (snd it2)" using ok(2) by auto
        from reply_ok_head [OF this] show ?thesis
          using c'(2) Cons by (cases c'; cases "snd it2") (auto simp: prefix_def)
      qed (use c' in simp)
      then obtain fr' where cons: "consume M t fr chunk offset = (fr', Some (offset, offset + length q))"
        using consume_complete [of k p q fr offset chunk c'] ok(1) q fr(3) Cons.prems(2) c'(1) by auto
      obtain its1 p1 out1 where d: "deliver its [] c' = (its1, p1, out1)" by (cases "deliver its [] c'") auto
      have d': "its' = its1" "p' = p1" "out = CompletedTrackedReply q # out1"
        using Cons.prems(4) False ge c'(1) d by (auto simp: it q Let_def)
      have drop: "drop (offset + length q) chunk = c'"
        using drop_offset [of offset chunk q c'] Cons.prems(2) c'(1) by simp
      have "prefix c' (remaining its [])" using c'(2) by (simp add: remaining_def)
      from Cons.IH [OF pend_inv_fresh [OF fr(4) ok(2)] drop this d]
      obtain frames' where "accept_loop M t frs chunk (offset + length q) = (frames', out1)"
          "pend_inv frames' its1 p1" by blast
      then show ?thesis
        using off cons d' subrange_offset [of offset chunk q c'] Cons.prems(2) c'(1) by (simp add: fr(1))
    qed
  qed
qed

end

text \<open>
  C13. Pipelined replies are framed exactly: when the backend answers the pending requests with
  well-formed replies, a read of any size is cut precisely at the ends of the replies, whatever
  was received before. The tracker's output and its new state are those of the specification
  \<open>deliver\<close>, which cuts the stream by the known reply lengths.
\<close>

theorem tracker_refines_deliver:
  assumes "memchr_lib M" "pend_inv frames its p" "prefix chunk (remaining its p)"
    and "deliver its p chunk = (its', p', out)"
  shows "\<exists>frames'. accept_backend_bytes M t frames chunk = (frames', out) \<and> pend_inv frames' its' p'"
  using memchr_lib.accept_loop_deliver [OF assms(1,2) _ assms(3,4), of 0 chunk t]
  by (simp add: accept_backend_bytes_def)

section \<open>Ordering of client-visible responses\<close>

text \<open>
  The specification of the ordering layer: a queue of backend replies (\<open>Inl\<close>) and local replies
  (\<open>Inr\<close>) in the order in which the client must see them.
\<close>

type_synonym response_queue = "((RequestKind \<times> bytes) + bytes) list"

fun backend_items :: "response_queue \<Rightarrow> (RequestKind \<times> bytes) list" where
  "backend_items [] = []"
| "backend_items (Inl x # q) = x # backend_items q"
| "backend_items (Inr _ # q) = backend_items q"

definition queue_order :: "response_queue \<Rightarrow> OrderedResponse list" where
  "queue_order q = map (case_sum (\<lambda>_. Backend) Local) q"

definition queue_bytes :: "response_queue \<Rightarrow> bytes" where
  "queue_bytes q = concat (map (case_sum snd id) q)"

definition backend_first :: "response_queue \<Rightarrow> bool" where
  "backend_first q \<longleftrightarrow> (case q of Inr _ # _ \<Rightarrow> False | _ \<Rightarrow> True)"

lemma queue_simps [simp]:
  "queue_order [] = []" "queue_order (x # q) = case_sum (\<lambda>_. Backend) Local x # queue_order q"
  "queue_bytes [] = []" "queue_bytes (x # q) = case_sum snd id x @ queue_bytes q"
  "backend_first []" "backend_first (Inl y # q)" "\<not> backend_first (Inr z # q)"
  by (simp_all add: queue_order_def queue_bytes_def backend_first_def)

lemma backend_items_append [simp]: "backend_items (a @ b) = backend_items a @ backend_items b"
  by (induction a rule: backend_items.induct) auto

lemma take_ready_queue:
  obtains q2 ls where "take_ready (queue_order q) = (queue_order q2, ls)"
    "backend_items q2 = backend_items q" "queue_bytes q = concat ls @ queue_bytes q2" "backend_first q2"
    "length q2 \<le> length q"
proof (induction q arbitrary: thesis)
  case Nil
  then show ?case by simp
next
  case (Cons x q)
  show ?case
  proof (cases x)
    case (Inl y)
    then show ?thesis using Cons.prems [of "x # q" "[]"] by simp
  next
    case (Inr l)
    obtain q2 ls where "take_ready (queue_order q) = (queue_order q2, ls)"
      "backend_items q2 = backend_items q" "queue_bytes q = concat ls @ queue_bytes q2" "backend_first q2"
      "length q2 \<le> length q"
      using Cons.IH by blast
    then show ?thesis using Inr Cons.prems [of q2 "l # ls"] by simp
  qed
qed

definition queue_ok :: "response_queue \<Rightarrow> bytes \<Rightarrow> bool" where
  "queue_ok q p \<longleftrightarrow>
     (\<forall>(k, r) \<in> set (backend_items q). r \<noteq> []) \<and>
     (p \<noteq> [] \<longrightarrow> (\<exists>k r q'. q = Inl (k, r) # q' \<and> strict_prefix p r))"

lemma queue_ok_cases:
  assumes "queue_ok q p" "backend_first q"
  obtains (empty) "q = []" "p = []"
  | (backend) k s q1 where "q = Inl (k, p @ s) # q1" "s \<noteq> []" "queue_ok q1 []"
proof (cases q)
  case Nil
  with assms empty show ?thesis by (auto simp: queue_ok_def)
next
  case (Cons x q1)
  with assms obtain k r where x: "x = Inl (k, r)" by (cases x) auto
  have "strict_prefix p r" using assms Cons x by (cases "p = []") (auto simp: queue_ok_def strict_prefix_def)
  then obtain s where "r = p @ s" "s \<noteq> []" by (auto simp: strict_prefix_def prefix_def)
  then show ?thesis using backend [of k s q1] assms Cons x by (auto simp: queue_ok_def)
qed

lemma write_replies_queue:
  assumes "deliver (backend_items q) p c = (its', p', out)" "backend_first q" "queue_ok q p"
    and "prefix c (remaining (backend_items q) p)"
  shows "\<exists>q' ws. write_replies (queue_order q) out = (queue_order q', ws) \<and>
     backend_items q' = its' \<and> backend_first q' \<and> queue_ok q' p' \<and>
     drop (length p) (queue_bytes q) = concat ws @ drop (length p') (queue_bytes q') \<and>
     remaining its' p' = drop (length c) (remaining (backend_items q) p)"
  using assms
proof (induction "length q" arbitrary: q p c its' p' out rule: less_induct)
  case less
  from less.prems(3,2) show ?case
  proof (cases rule: queue_ok_cases)
    case empty
    with less.prems show ?thesis by (intro exI [of _ "[]"]) (auto simp: remaining_def)
  next
    case (backend k s q1)
    show ?thesis
    proof (cases "length c < length s")
      case True
      then obtain s' where s': "s = c @ s'" "s' \<noteq> []"
        using less.prems(4) backend(1)
        by (auto simp: remaining_def prefix_append) (metis append_eq_append_conv2 append_self_conv
            less_not_refl linorder_not_le prefix_def prefix_length_le)
      have "its' = backend_items q" "p' = p @ c" "out = (if c = [] then [] else [ForwardUntracked c])"
        using less.prems(1) True backend(1) by (auto simp: Let_def split: if_splits)
      moreover have "queue_ok q (p @ c)"
        using less.prems(3) backend(1) s' by (auto simp: queue_ok_def strict_prefix_def)
      ultimately show ?thesis
        using backend(1) s' less.prems(2)
        by (intro exI [of _ q] exI [of _ "if c = [] then [] else [c]"])
           (auto simp: remaining_def)
    next
      case False
      then obtain c' where c': "c = s @ c'" "prefix c' (remaining (backend_items q1) [])"
        using less.prems(4) backend(1)
        by (auto simp: remaining_def prefix_append) (metis prefix_length_le prefix_order.antisym_conv2
            prefix_length_less linorder_not_less prefix_order.refl append_Nil2 prefixI Nil_prefix)
      obtain its1 p1 out1 where d: "deliver (backend_items q1) [] c' = (its1, p1, out1)"
        by (cases "deliver (backend_items q1) [] c'") auto
      have d': "its' = its1" "p' = p1" "out = CompletedTrackedReply s # out1"
        using less.prems(1) False c'(1) d backend(1,2) by (auto simp: Let_def)
      obtain q2 ls where t: "take_ready (queue_order q1) = (queue_order q2, ls)"
          "backend_items q2 = backend_items q1" "queue_bytes q1 = concat ls @ queue_bytes q2"
          "backend_first q2" "length q2 \<le> length q1"
        by (rule take_ready_queue)
      have "queue_ok q2 []" using backend(3) t(2) by (simp add: queue_ok_def)
      moreover have "length q2 < length q" using t(5) backend(1) by simp
      ultimately obtain q' ws where ih: "write_replies (queue_order q2) out1 = (queue_order q', ws)"
          "backend_items q' = its1" "backend_first q'" "queue_ok q' p1"
          "queue_bytes q2 = concat ws @ drop (length p1) (queue_bytes q')"
          "remaining its1 p1 = drop (length c') (remaining (backend_items q2) [])"
        using less.hyps [of q2 "[]" c' its1 p1 out1] d t(2,4) c'(2) by auto
      have "write_replies (queue_order q) out = (queue_order q', s # ls @ ws)"
        using backend(1) t(1) ih(1) by (simp add: d')
      then show ?thesis
        using ih d' backend(1) t(2,3) c'(1)
        by (intro exI [of _ q'] exI [of _ "s # ls @ ws"]) (simp add: remaining_def)
    qed
  qed
qed

definition order_inv :: "BackendResponseOrder \<Rightarrow> response_queue \<Rightarrow> bytes \<Rightarrow> bool" where
  "order_inv b q p \<longleftrightarrow>
     pend_inv (bo_inner b) (backend_items q) p \<and> bo_ordered b = queue_order q \<and> queue_ok q p"

lemma order_inv_default [simp]: "order_inv order_default [] []"
  by (simp add: order_inv_def order_default_def pend_inv_def queue_ok_def)

lemma queue_ok_length:
  assumes "queue_ok q p"
  shows "length p \<le> length (concat (map snd (backend_items q)))" "length p \<le> length (queue_bytes q)"
  using assms by (cases "p = []"; auto simp: queue_ok_def strict_prefix_def prefix_def)+

lemma order_inv_push_request:
  assumes "order_inv b q p" "reply_ok k r"
  shows "order_inv (order_push_request k b) (q @ [Inl (k, r)]) p"
proof -
  have "pend_inv (bo_inner b @ [\<lparr>pf_kind = k, pf_state = AwaitingStatusLine, pf_status_line = []\<rparr>])
      (backend_items q @ [(k, r)]) p"
    using assms reply_ok_head [OF assms(2)]
    by (cases "bo_inner b"; cases "backend_items q")
       (auto simp: order_inv_def pend_inv_def strict_prefix_def intro!: list_all2_appendI)
  moreover have "queue_ok (q @ [Inl (k, r)]) p"
    using assms reply_ok_head [OF assms(2)] by (auto simp: order_inv_def queue_ok_def)
  ultimately show ?thesis
    using assms(1)
    by (simp add: order_inv_def order_push_request_def tracker_push_request_def queue_order_def)
qed

lemma order_inv_push_deferred:
  "order_inv b q p \<Longrightarrow> order_inv (push_deferred_reply l b) (q @ [Inr l]) p"
  by (auto simp: order_inv_def push_deferred_reply_def queue_order_def queue_ok_def)

context memchr_lib
begin

lemma order_read:
  assumes inv: "order_inv b q p" and pre: "prefix c (remaining (backend_items q) p)"
  shows "\<exists>b' ws q' p'. client_writes_for_backend_read M t b c = (b', ws) \<and> order_inv b' q' p' \<and>
     drop (length p) (queue_bytes q) = concat ws @ drop (length p') (queue_bytes q') \<and>
     remaining (backend_items q') p' = drop (length c) (remaining (backend_items q) p)"
proof -
  obtain q2 ls where t: "take_ready (queue_order q) = (queue_order q2, ls)"
      "backend_items q2 = backend_items q" "backend_first q2" "queue_ok q2 p"
      "drop (length p) (queue_bytes q) = concat ls @ drop (length p) (queue_bytes q2)"
  proof (cases "p = []")
    case True
    then show ?thesis
      using take_ready_queue [of q thesis] that inv by (auto simp: order_inv_def queue_ok_def)
  next
    case False
    then obtain k r q' where "q = Inl (k, r) # q'" using inv by (auto simp: order_inv_def queue_ok_def)
    then show ?thesis using that [of q "[]"] inv by (simp add: order_inv_def)
  qed
  obtain its' p' out where d: "deliver (backend_items q) p c = (its', p', out)"
    by (cases "deliver (backend_items q) p c") auto
  obtain frames' where f: "accept_backend_bytes M t (bo_inner b) c = (frames', out)" "pend_inv frames' its' p'"
    using accept_loop_deliver [of "bo_inner b" "backend_items q" p 0 c c its' p' out] inv pre d
    by (auto simp: accept_backend_bytes_def order_inv_def)
  obtain q' ws where w: "write_replies (queue_order q2) out = (queue_order q', ws)" "backend_items q' = its'"
      "queue_ok q' p'" "drop (length p) (queue_bytes q2) = concat ws @ drop (length p') (queue_bytes q')"
      "remaining its' p' = drop (length c) (remaining (backend_items q2) p)"
    using write_replies_queue [of q2 p c its' p' out] d t pre by auto
  have "client_writes_for_backend_read M t b c =
      (\<lparr>bo_inner = frames', bo_ordered = queue_order q'\<rparr>, ls @ ws)"
    using inv t(1) f(1) w(1) by (simp add: client_writes_for_backend_read_def order_inv_def)
  moreover have "order_inv \<lparr>bo_inner = frames', bo_ordered = queue_order q'\<rparr> q' p'"
    using f(2) w by (simp add: order_inv_def)
  ultimately show ?thesis using w t by auto
qed

end

text \<open>
  The life of the ordering layer: a request is forwarded (with the reply that the backend will give),
  a local reply is queued, or bytes arrive from the backend.
\<close>

datatype order_event = SendRequest RequestKind bytes | QueueLocal bytes | BackendRead bytes

fun run_order ::
    "memchr_api \<Rightarrow> Target \<Rightarrow> BackendResponseOrder \<Rightarrow> order_event list \<Rightarrow> BackendResponseOrder \<times> bytes" where
  "run_order M t b [] = (b, [])"
| "run_order M t b (SendRequest k r # es) = run_order M t (order_push_request k b) es"
| "run_order M t b (QueueLocal l # es) = run_order M t (push_deferred_reply l b) es"
| "run_order M t b (BackendRead c # es) =
     (case client_writes_for_backend_read M t b c of (b', ws) \<Rightarrow>
        (case run_order M t b' es of (b'', out) \<Rightarrow> (b'', concat ws @ out)))"

text \<open>The bytes that the backend owes after the events; a read takes owed bytes only.\<close>

fun owed_after :: "bytes \<Rightarrow> order_event list \<Rightarrow> bytes" where
  "owed_after owed [] = owed"
| "owed_after owed (SendRequest k r # es) = owed_after (owed @ r) es"
| "owed_after owed (QueueLocal l # es) = owed_after owed es"
| "owed_after owed (BackendRead c # es) = owed_after (drop (length c) owed) es"

fun events_ok :: "bytes \<Rightarrow> order_event list \<Rightarrow> bool" where
  "events_ok owed [] = True"
| "events_ok owed (SendRequest k r # es) \<longleftrightarrow> reply_ok k r \<and> events_ok (owed @ r) es"
| "events_ok owed (QueueLocal l # es) \<longleftrightarrow> events_ok owed es"
| "events_ok owed (BackendRead c # es) \<longleftrightarrow> prefix c owed \<and> events_ok (drop (length c) owed) es"

text \<open>What the client must see: replies in the order of the commands.\<close>

fun in_order :: "order_event list \<Rightarrow> bytes" where
  "in_order [] = []"
| "in_order (SendRequest k r # es) = r @ in_order es"
| "in_order (QueueLocal l # es) = l @ in_order es"
| "in_order (BackendRead c # es) = in_order es"

context memchr_lib
begin

lemma run_order_queue:
  assumes "order_inv b q p" "events_ok (remaining (backend_items q) p) es" "run_order M t b es = (b', out)"
  shows "\<exists>q' p'. order_inv b' q' p' \<and>
     drop (length p) (queue_bytes q) @ in_order es = out @ drop (length p') (queue_bytes q') \<and>
     remaining (backend_items q') p' = owed_after (remaining (backend_items q) p) es"
  using assms
proof (induction es arbitrary: b q p out)
  case Nil
  then show ?case by auto
next
  case (Cons e es)
  have len: "length p \<le> length (concat (map snd (backend_items q)))" "length p \<le> length (queue_bytes q)"
    using queue_ok_length Cons.prems(1) by (auto simp: order_inv_def)
  show ?case
  proof (cases e)
    case (SendRequest k r)
    have "remaining (backend_items (q @ [Inl (k, r)])) p = remaining (backend_items q) p @ r"
      using len by (simp add: remaining_def)
    moreover have "drop (length p) (queue_bytes (q @ [Inl (k, r)])) = drop (length p) (queue_bytes q) @ r"
      using len by (simp add: queue_bytes_def)
    ultimately show ?thesis
      using Cons.IH [OF order_inv_push_request [OF Cons.prems(1), of k r], of out] Cons.prems(2,3) SendRequest
      by simp
  next
    case (QueueLocal l)
    have "drop (length p) (queue_bytes (q @ [Inr l])) = drop (length p) (queue_bytes q) @ l"
      using len by (simp add: queue_bytes_def)
    then show ?thesis
      using Cons.IH [OF order_inv_push_deferred [OF Cons.prems(1), of l], of out] Cons.prems(2,3) QueueLocal
      by simp
  next
    case (BackendRead c)
    obtain b1 ws q1 p1 where r: "client_writes_for_backend_read M t b c = (b1, ws)" "order_inv b1 q1 p1"
        "drop (length p) (queue_bytes q) = concat ws @ drop (length p1) (queue_bytes q1)"
        "remaining (backend_items q1) p1 = drop (length c) (remaining (backend_items q) p)"
      using order_read [OF Cons.prems(1), of c t] Cons.prems(2) BackendRead by auto
    obtain out1 where "run_order M t b1 es = (b', out1)" "out = concat ws @ out1"
      using Cons.prems(3) BackendRead r(1) by (auto split: prod.splits)
    with Cons.IH [OF r(2), of out1] Cons.prems(2) BackendRead r(3,4) show ?thesis by auto
  qed
qed

end

lemma remaining_Nil:
  assumes "pend_inv frames its p" "remaining its p = []"
  shows "its = []"
  using assms by (cases its) (auto simp: pend_inv_def remaining_def strict_prefix_def prefix_def split: list.splits)

text \<open>
  C1. Client-visible order: over any interleaving of forwarded requests, queued local replies and
  backend reads of any size, with well-formed backend replies, the bytes written to the client are
  a prefix of the replies in command order; and once the backend owes nothing, they are all of them
  up to the local replies that \<open>take_ready_deferred_replies\<close> hands out.
\<close>

theorem ordered_responses:
  assumes "memchr_lib M" "events_ok [] es" "run_order M t order_default es = (b, out)"
  shows "prefix out (in_order es) \<and>
         (owed_after [] es = [] \<longrightarrow> out @ concat (snd (take_ready_deferred_replies b)) = in_order es)"
proof -
  have "events_ok (remaining (backend_items []) []) es" using assms(2) by (simp add: remaining_def)
  from memchr_lib.run_order_queue [OF assms(1) order_inv_default this assms(3)]
  obtain q p where q: "order_inv b q p" "in_order es = out @ drop (length p) (queue_bytes q)"
      "remaining (backend_items q) p = owed_after [] es"
    by (auto simp: remaining_def)
  have "concat (snd (take_ready_deferred_replies b)) = drop (length p) (queue_bytes q)"
    if "owed_after [] es = []"
  proof -
    have "backend_items q = []" using remaining_Nil q that by (auto simp: order_inv_def)
    then have "p = []" using q(1) by (auto simp: order_inv_def pend_inv_def split: list.splits)
    obtain q2 ls where t: "take_ready (queue_order q) = (queue_order q2, ls)"
        "backend_items q2 = backend_items q" "queue_bytes q = concat ls @ queue_bytes q2" "backend_first q2"
      by (rule take_ready_queue)
    have "q2 = []" using t(2,4) \<open>backend_items q = []\<close> by (cases q2 rule: backend_items.cases) auto
    then show ?thesis
      using t q(1) \<open>p = []\<close> by (simp add: take_ready_deferred_replies_def order_inv_def)
  qed
  then show ?thesis using q(2) by auto
qed

lemma reply_ok_date: "reply_ok Date (''111 x'' @ CRLF)"
proof -
  have "status_parse (''111 x'' @ CRLF) = Some (StatusCode 111)" by code_simp
  moreover have "\<not> request_kind_has_response_body Date (StatusCode 111)"
    by (simp add: request_kind_has_response_body_def)
  ultimately show ?thesis
    unfolding reply_ok_def
    by (intro exI [of _ "''111 x'' @ [CR]"] exI [of _ "[]"] exI [of _ "StatusCode 111"])
       (simp add: COMMAND_def)
qed

theorem ordered_responses_witness:
  "let es = [SendRequest Date (''111 x'' @ CRLF), QueueLocal ''205'', BackendRead ''11'',
             BackendRead (''1 x'' @ CRLF)];
       (b, out) = run_order memchr_ref Avx2 order_default es
   in out @ concat (snd (take_ready_deferred_replies b)) = ''111 x'' @ CRLF @ ''205''"
proof -
  let ?es = "[SendRequest Date (''111 x'' @ CRLF), QueueLocal ''205'', BackendRead ''11'',
             BackendRead (''1 x'' @ CRLF)]"
  obtain b out where r: "run_order memchr_ref Avx2 order_default ?es = (b, out)" by fastforce
  have "events_ok [] ?es" using reply_ok_date by simp
  from ordered_responses [OF memchr_ref.memchr_lib_axioms this r] r show ?thesis by simp
qed

theorem tracker_refines_deliver_witness:
  "\<exists>frames'. accept_backend_bytes memchr_ref Aarch64
       [\<lparr>pf_kind = Date, pf_state = AwaitingStatusLine, pf_status_line = []\<rparr>] (''111 x'' @ CRLF)
     = (frames', [CompletedTrackedReply (''111 x'' @ CRLF)])"
proof -
  let ?its = "[(Date, ''111 x'' @ CRLF)]"
  have "pend_inv [\<lparr>pf_kind = Date, pf_state = AwaitingStatusLine, pf_status_line = []\<rparr>] ?its []"
    using reply_ok_date by (simp add: pend_inv_def strict_prefix_def)
  moreover have "deliver ?its [] (''111 x'' @ CRLF) = ([], [], [CompletedTrackedReply (''111 x'' @ CRLF)])"
    by simp
  ultimately show ?thesis
    using tracker_refines_deliver [OF memchr_ref.memchr_lib_axioms, of _ ?its "[]" "''111 x'' @ CRLF"]
    by (fastforce simp: remaining_def)
qed

section \<open>No byte is lost\<close>

lemma find_spanning_bounds: "find_spanning_terminator f c = Some e \<Longrightarrow> 0 < e \<and> e \<le> length c"
  by (auto simp: find_spanning_terminator_def find_spanning_terminator_at_def split: if_splits)

context memchr_lib
begin

lemma advance_bounds:
  "advance_to_next_terminator_end M t f c = (f', Some e) \<Longrightarrow> 0 < e \<and> e \<le> length c"
  using first_term_end_bounds [of c e] find_spanning_bounds [of f c e]
  by (auto simp: advance_to_next_terminator_end_def next_terminator_end_def terminator_ends_hd Let_def
      split: option.splits)

lemma consume_range:
  assumes "consume M t fr chunk offset = (fr', Some (a, b))"
  shows "a = offset \<and> offset < b \<and> b \<le> length chunk"
proof (cases "pf_state fr")
  case (ReadingMultiline f)
  then show ?thesis
    using assms advance_bounds [of t f "drop offset chunk"]
    by (auto simp: consume_def split: prod.splits)
next
  case DiscardingOverlongStatusLine
  then show ?thesis using assms by (auto simp: consume_def dest!: position_SomeD(1))
next
  case AwaitingStatusLine
  show ?thesis
  proof (cases "position (\<lambda>c. c = LF) (drop offset chunk)")
    case None
    then show ?thesis using assms AwaitingStatusLine by (auto simp: consume_def Let_def split: if_splits)
  next
    case (Some pos)
    then have pos: "pos < length (drop offset chunk)" by (rule position_SomeD)
    have "b = offset + (pos + 1) \<or>
        (\<exists>f f' e. advance_to_next_terminator_end M t f (drop (offset + (pos + 1)) chunk) = (f', Some e) \<and>
           b = offset + (pos + 1) + e) \<and> a = offset"
      using assms AwaitingStatusLine Some
      by (auto simp: consume_def Let_def split: if_splits option.splits prod.splits)
    moreover have "a = offset"
      using assms AwaitingStatusLine Some
      by (auto simp: consume_def Let_def split: if_splits option.splits prod.splits)
    ultimately show ?thesis using pos by (auto dest!: advance_bounds)
  qed
qed

lemma accept_loop_bytes:
  "accept_loop M t frames chunk offset = (frames', out) \<Longrightarrow>
     concat (map reply_bytes out) = drop offset chunk"
proof (induction frames arbitrary: offset frames' out)
  case (Cons fr frames)
  show ?case
  proof (cases "offset < length chunk")
    case True
    obtain fr' r where c: "consume M t fr chunk offset = (fr', r)" by fastforce
    show ?thesis
    proof (cases r)
      case None
      with Cons.prems True c show ?thesis by auto
    next
      case (Some ab)
      then obtain b where b: "r = Some (offset, b)" "offset < b" "b \<le> length chunk"
        using consume_range c by (cases ab) auto
      obtain frames1 out1 where l: "accept_loop M t frames chunk b = (frames1, out1)" by fastforce
      with Cons.IH [OF this] Cons.prems True c b show ?thesis
        using subrange_append_drop [of offset b chunk] by auto
    qed
  qed (use Cons.prems in auto)
qed (auto split: if_splits)

end

text \<open>
  C19. No byte is lost or reordered: whatever the backend sends, malformed status lines and surplus
  bytes included, and whatever the state of the pending frames, the pieces that the tracker hands on
  concatenate to the read.
\<close>

theorem tracker_conserves_bytes:
  assumes "memchr_lib M" "accept_backend_bytes M t frames chunk = (frames', out)"
  shows "concat (map reply_bytes out) = chunk"
  using memchr_lib.accept_loop_bytes [OF assms(1), of t frames chunk 0] assms(2)
  by (simp add: accept_backend_bytes_def)

theorem tracker_conserves_bytes_witness:
  "concat (map reply_bytes (snd (accept_backend_bytes memchr_ref Avx2 [] ''junk''))) = ''junk''"
  by (rule tracker_conserves_bytes [OF memchr_ref.memchr_lib_axioms]) (rule prod.collapse [symmetric])

end
