(* ===== verification/Buffer.thy ===== *)
theory Buffer
  imports Framer Io
begin

text \<open>
  Pooled byte buffers and the responses assembled from them: \<open>BufferStorage\<close>, \<open>PooledBuffer\<close>, the
  retained append and \<open>ChunkedResponse\<close> of \<open>src/src/pool/buffer.rs\<close>. A buffer shows the bytes from
  \<open>visible_from\<close> on; a read fills its spare capacity. The reader is the trait \<open>AsyncRead\<close>: the
  function \<open>poll\<close> that the definitions take, with the contract of the locale \<open>async_reader\<close>, which
  the backend connection of the theory \<open>Conn\<close> provides.
\<close>

section \<open>Storage\<close>

text \<open>
  \<open>bs_bytes\<close> and \<open>bs_capacity\<close> are the length and the capacity of the \<open>BytesMut\<close>; the bytes of the
  allocation past its length are not observable.
\<close>

record BufferStorage =
  bs_bytes :: bytes
  bs_visible_from :: nat
  bs_capacity :: nat

definition storage_new :: "bytes \<Rightarrow> nat \<Rightarrow> BufferStorage" where
  "storage_new bs cap = \<lparr>bs_bytes = bs, bs_visible_from = 0, bs_capacity = cap\<rparr>"

definition initialized_len :: "BufferStorage \<Rightarrow> nat" where
  "initialized_len st = length (bs_bytes st) - bs_visible_from st"

definition storage_clear :: "BufferStorage \<Rightarrow> BufferStorage" where
  "storage_clear st = st\<lparr>bs_bytes := [], bs_visible_from := 0\<rparr>"

definition as_slice :: "BufferStorage \<Rightarrow> bytes" where
  "as_slice st = drop (bs_visible_from st) (bs_bytes st)"

text \<open>\<open>None\<close> is the failed assertion.\<close>

definition retain_range :: "BufferStorage \<Rightarrow> nat \<times> nat \<Rightarrow> BufferStorage option" where
  "retain_range st rng =
     (if \<not> (fst rng < snd rng \<and> snd rng \<le> initialized_len st) then None
      else let start = bs_visible_from st + fst rng;
               end = bs_visible_from st + snd rng
           in Some (st\<lparr>bs_bytes := take end (bs_bytes st), bs_visible_from := start\<rparr>))"

definition compact_visible :: "BufferStorage \<Rightarrow> BufferStorage" where
  "compact_visible st =
     (if bs_visible_from st = 0 then st
      else let len = initialized_len st;
               moved = copy_within (bs_visible_from st) (length (bs_bytes st)) 0 (bs_bytes st)
           in st\<lparr>bs_bytes := take len moved, bs_visible_from := 0\<rparr>)"

definition compact_visible_if_tail_full :: "BufferStorage \<Rightarrow> BufferStorage" where
  "compact_visible_if_tail_full st =
     (if bs_visible_from st \<noteq> 0 \<and> bs_capacity st = length (bs_bytes st) then compact_visible st
      else st)"

definition has_retained_prefix :: "BufferStorage \<Rightarrow> bool" where
  "has_retained_prefix st \<longleftrightarrow> bs_visible_from st \<noteq> 0"

text \<open>\<open>poll r n\<close> reads at most \<open>n\<close> bytes; no bytes mean the end of the input.\<close>

type_synonym 'r poll_read = "'r \<Rightarrow> nat \<Rightarrow> 'r \<times> (IoError + bytes)"

definition storage_read_from ::
    "'r poll_read \<Rightarrow> BufferStorage \<Rightarrow> 'r \<Rightarrow> nat \<Rightarrow> BufferStorage \<times> 'r \<times> (IoError + nat)" where
  "storage_read_from poll st reader read_len =
     (if read_len = 0 then (st, reader, Ok 0)
      else let spare = bs_capacity st - length (bs_bytes st);
               read_len = min read_len spare
           in if read_len = 0 then (st, reader, Ok 0)
              else case poll reader read_len of
                     (reader', Inl e) \<Rightarrow> (st, reader', Err e)
                   | (reader', Inr filled) \<Rightarrow>
                       (st\<lparr>bs_bytes := bs_bytes st @ filled\<rparr>, reader', Ok (length filled)))"

section \<open>Pooled buffers\<close>

record PooledBuffer =
  pb_buffer :: BufferStorage
  pb_writable_len :: nat

abbreviation visible :: "PooledBuffer \<Rightarrow> bytes" where
  "visible b \<equiv> as_slice (pb_buffer b)"

definition initialized :: "PooledBuffer \<Rightarrow> nat" where
  "initialized b = initialized_len (pb_buffer b)"

definition read_limit :: "PooledBuffer \<Rightarrow> nat" where
  "read_limit b = (if pb_writable_len b = 0 then bs_capacity (pb_buffer b) else pb_writable_len b)"

definition available_read_capacity :: "PooledBuffer \<Rightarrow> nat" where
  "available_read_capacity b = read_limit b - initialized b"

definition read_into_spare ::
    "'r poll_read \<Rightarrow> PooledBuffer \<Rightarrow> 'r \<Rightarrow> nat \<Rightarrow> PooledBuffer \<times> 'r \<times> (IoError + nat)" where
  "read_into_spare poll b reader read_len =
     (case storage_read_from poll (pb_buffer b) reader read_len of
        (st, reader', res) \<Rightarrow> (b\<lparr>pb_buffer := st\<rparr>, reader', res))"

definition read_from ::
    "'r poll_read \<Rightarrow> PooledBuffer \<Rightarrow> 'r \<Rightarrow> PooledBuffer \<times> 'r \<times> (IoError + nat)" where
  "read_from poll b reader =
     (let b = b\<lparr>pb_buffer := storage_clear (pb_buffer b)\<rparr>
      in read_into_spare poll b reader (read_limit b))"

definition read_more ::
    "'r poll_read \<Rightarrow> PooledBuffer \<Rightarrow> 'r \<Rightarrow> PooledBuffer \<times> 'r \<times> (IoError + nat)" where
  "read_more poll b reader =
     (let b = b\<lparr>pb_buffer := compact_visible_if_tail_full (pb_buffer b)\<rparr>;
          read_len = read_limit b - initialized_len (pb_buffer b)
      in read_into_spare poll b reader read_len)"

definition expose_initialized_range_without_copying ::
    "PooledBuffer \<Rightarrow> nat \<times> nat \<Rightarrow> PooledBuffer option" where
  "expose_initialized_range_without_copying b rng =
     map_option (\<lambda>st. b\<lparr>pb_buffer := st\<rparr>) (retain_range (pb_buffer b) rng)"

definition retained_append_permit :: "PooledBuffer \<Rightarrow> bool" where
  "retained_append_permit b \<longleftrightarrow>
     \<not> (\<not> has_retained_prefix (pb_buffer b) \<or> initialized_len (pb_buffer b) \<ge> read_limit b)"

text \<open>An append: the buffer with the new bytes behind the first \<open>previous_len\<close>, or the end of input.\<close>

datatype AppendOutcome = AppendData nat | AppendEof

definition permit_read ::
    "'r poll_read \<Rightarrow> PooledBuffer \<Rightarrow> 'r \<Rightarrow> PooledBuffer \<times> 'r \<times> (IoError + AppendOutcome)" where
  "permit_read poll b reader =
     (let previous_len = initialized b in
      case read_more poll b reader of
        (b', reader', Inl e) \<Rightarrow> (b', reader', Err e)
      | (b', reader', Inr read) \<Rightarrow>
          (b', reader', Ok (if read = 0 then AppendEof else AppendData previous_len)))"

text \<open>
  \<open>create_aligned_buffer\<close>, \<open>wrap_regular_buffer\<close> and \<open>acquire\<close>: the buffer that the pool hands
  out is empty, whether it is new or was returned to the pool. \<open>with_capacity\<close> gives the capacity
  of \<open>BytesMut::with_capacity\<close>.
\<close>

definition create_aligned_buffer :: "(nat \<Rightarrow> nat) \<Rightarrow> nat \<Rightarrow> BufferStorage" where
  "create_aligned_buffer with_capacity sz =
     (let page_size = 4096; aligned_size = (sz + page_size - 1) div page_size * page_size
      in storage_new [] (with_capacity aligned_size))"

definition acquire :: "(nat \<Rightarrow> nat) \<Rightarrow> nat \<Rightarrow> PooledBuffer" where
  "acquire with_capacity buffer_size =
     \<lparr>pb_buffer = create_aligned_buffer with_capacity buffer_size, pb_writable_len = buffer_size\<rparr>"

section \<open>Chunked responses\<close>

record ChunkedResponse =
  cr_chunks :: "(PooledBuffer \<times> (nat \<times> nat)) list"
  cr_len :: nat

definition chunked_default :: ChunkedResponse where
  "chunked_default = \<lparr>cr_chunks = [], cr_len = 0\<rparr>"

definition chunked_clear :: "ChunkedResponse \<Rightarrow> ChunkedResponse" where
  "chunked_clear r = r\<lparr>cr_chunks := [], cr_len := 0\<rparr>"

definition chunk_as_slice :: "PooledBuffer \<times> (nat \<times> nat) \<Rightarrow> bytes" where
  "chunk_as_slice c = subrange (fst (snd c)) (snd (snd c)) (visible (fst c))"

text \<open>\<open>None\<close> is the failed assertion.\<close>

definition push_buffer_range :: "ChunkedResponse \<Rightarrow> PooledBuffer \<Rightarrow> nat \<times> nat \<Rightarrow> ChunkedResponse option" where
  "push_buffer_range r b rng =
     (if \<not> (fst rng \<le> snd rng \<and> snd rng \<le> initialized b) then None
      else Some \<lparr>cr_chunks = cr_chunks r @ [(b, rng)], cr_len = cr_len r + (snd rng - fst rng)\<rparr>)"

definition iter_chunks :: "ChunkedResponse \<Rightarrow> bytes list" where
  "iter_chunks r = map chunk_as_slice (cr_chunks r)"

definition to_vec :: "ChunkedResponse \<Rightarrow> bytes" where
  "to_vec r = concat (iter_chunks r)"

fun write_chunks :: "'w writer_api \<Rightarrow> 'w \<Rightarrow> bytes list \<Rightarrow> 'w \<times> (IoError + unit)" where
  "write_chunks W w [] = (w, Ok ())"
| "write_chunks W w (c # cs) =
     (case write_all W w c of
        (w', Inl e) \<Rightarrow> (w', Err e)
      | (w', Inr _) \<Rightarrow> write_chunks W w' cs)"

definition write_all_to_recording :: "'w writer_api \<Rightarrow> ChunkedResponse \<Rightarrow> 'w \<Rightarrow> 'w \<times> (IoError + unit)" where
  "write_all_to_recording W r w = write_chunks W w (iter_chunks r)"

section \<open>Well-formed buffers\<close>

definition storage_wf :: "BufferStorage \<Rightarrow> bool" where
  "storage_wf st \<longleftrightarrow> bs_visible_from st \<le> length (bs_bytes st) \<and> length (bs_bytes st) \<le> bs_capacity st"

abbreviation buffer_wf :: "PooledBuffer \<Rightarrow> bool" where
  "buffer_wf b \<equiv> storage_wf (pb_buffer b)"

definition chunked_wf :: "ChunkedResponse \<Rightarrow> bool" where
  "chunked_wf r \<longleftrightarrow>
     (\<forall>(b, s, e) \<in> set (cr_chunks r). s \<le> e \<and> e \<le> initialized b) \<and> cr_len r = length (to_vec r)"

lemma length_as_slice [simp]: "length (as_slice st) = initialized_len st"
  by (simp add: as_slice_def initialized_len_def)

lemma length_visible: "length (visible b) = initialized b"
  by (simp add: initialized_def)

lemma storage_clear_simps [simp]:
  "as_slice (storage_clear st) = []" "storage_wf (storage_clear st)" "bs_visible_from (storage_clear st) = 0"
  "bs_capacity (storage_clear st) = bs_capacity st" "bs_bytes (storage_clear st) = []"
  by (simp_all add: storage_clear_def as_slice_def storage_wf_def)

lemma retain_range_Some:
  assumes "storage_wf st" "s < e" "e \<le> initialized_len st"
  obtains st' where "retain_range st (s, e) = Some st'" "as_slice st' = subrange s e (as_slice st)"
    "storage_wf st'" "bs_capacity st' = bs_capacity st"
proof -
  let ?v = "bs_visible_from st" and ?b = "bs_bytes st"
  have r: "retain_range st (s, e) = Some (st\<lparr>bs_bytes := take (?v + e) ?b, bs_visible_from := ?v + s\<rparr>)"
    using assms by (simp add: retain_range_def Let_def)
  have "take (e - s) (drop (?v + s) ?b) = drop (?v + s) (take (?v + e) ?b)"
    using assms by (simp add: drop_take)
  then show ?thesis
    using assms that [OF r] by (auto simp: as_slice_def subrange_def storage_wf_def initialized_len_def add.commute)
qed

lemma compact_visible_slice [simp]: "as_slice (compact_visible st) = as_slice st"
  by (simp add: compact_visible_def as_slice_def copy_within_def subrange_def Let_def initialized_len_def)

lemma compact_visible_wf [simp]: "storage_wf st \<Longrightarrow> storage_wf (compact_visible st)"
  by (auto simp: compact_visible_def storage_wf_def Let_def initialized_len_def copy_within_def subrange_def)

lemma compact_visible_if_tail_full_simps [simp]:
  "as_slice (compact_visible_if_tail_full st) = as_slice st"
  "storage_wf st \<Longrightarrow> storage_wf (compact_visible_if_tail_full st)"
  "bs_capacity (compact_visible_if_tail_full st) = bs_capacity st"
  by (simp_all add: compact_visible_if_tail_full_def)
     (simp add: compact_visible_def Let_def)

lemma compact_spare:
  assumes "storage_wf st" "initialized_len st < bs_capacity st"
  shows "length (bs_bytes (compact_visible_if_tail_full st)) < bs_capacity st"
  using assms
  by (auto simp: compact_visible_if_tail_full_def compact_visible_def Let_def storage_wf_def
      initialized_len_def copy_within_def subrange_def)

lemma acquire_simps [simp]:
  "visible (acquire wc n) = []" "buffer_wf (acquire wc n)" "bs_visible_from (pb_buffer (acquire wc n)) = 0"
  by (simp_all add: acquire_def create_aligned_buffer_def storage_new_def as_slice_def storage_wf_def Let_def)

lemma page_aligned: "(n::nat) \<le> (n + 4096 - 1) div 4096 * 4096"
proof -
  have "n + 4095 = (n + 4095) div 4096 * 4096 + (n + 4095) mod 4096" by simp
  moreover have "(n + 4095) mod 4096 \<le> 4095" using mod_less_divisor [of 4096 "n + 4095"] by linarith
  ultimately show ?thesis by simp
qed

lemma acquire_capacity: "(\<And>k. k \<le> wc k) \<Longrightarrow> n \<le> bs_capacity (pb_buffer (acquire wc n))"
  using page_aligned [of n] order_trans
  by (fastforce simp: acquire_def create_aligned_buffer_def storage_new_def Let_def)

section \<open>The reader interface\<close>

text \<open>
  What a buffer relies on: a read returns at most the bytes asked for, and they are the next bytes of
  the reader's input; a failed read loses nothing.
\<close>

locale async_reader =
  fixes poll :: "'r poll_read" and reader_input :: "'r \<Rightarrow> bytes" and reader_ok :: "'r \<Rightarrow> bool"
  assumes poll_Ok: "reader_ok r \<Longrightarrow> poll r n = (r', Inr bs) \<Longrightarrow>
      reader_ok r' \<and> length bs \<le> n \<and> reader_input r = bs @ reader_input r'"
    and poll_Err: "reader_ok r \<Longrightarrow> poll r n = (r', Inl e) \<Longrightarrow> reader_ok r' \<and> reader_input r' = reader_input r"
begin

lemma storage_read_from_spec:
  assumes "storage_read_from poll st r n = (st', r', res)" "storage_wf st" "reader_ok r"
  shows "storage_wf st' \<and> reader_ok r' \<and> bs_capacity st' = bs_capacity st \<and>
    bs_visible_from st' = bs_visible_from st \<and>
    (case res of
       Inl e \<Rightarrow> st' = st \<and> reader_input r' = reader_input r
     | Inr k \<Rightarrow> \<exists>bs. k = length bs \<and> k \<le> n \<and> as_slice st' = as_slice st @ bs \<and> reader_input r = bs @ reader_input r')"
proof (cases "n = 0 \<or> bs_capacity st = length (bs_bytes st)")
  case True
  then have "storage_read_from poll st r n = (st, r, Ok 0)" by (auto simp: storage_read_from_def)
  then show ?thesis using assms by auto
next
  case False
  let ?n = "min n (bs_capacity st - length (bs_bytes st))"
  have n: "?n \<noteq> 0" using False assms(2) by (simp add: storage_wf_def)
  obtain r1 q where q: "poll r ?n = (r1, q)" by fastforce
  show ?thesis
  proof (cases q)
    case (Inl e)
    have st: "st' = st" "r' = r1" "res = Inl e"
      using assms(1) n q Inl False by (auto simp: storage_read_from_def Let_def split: if_splits)
    show ?thesis unfolding st using poll_Err [OF assms(3) q [unfolded Inl]] assms(2) by simp
  next
    case (Inr bs)
    have st: "st' = st\<lparr>bs_bytes := bs_bytes st @ bs\<rparr>" "r' = r1" "res = Inr (length bs)"
      using assms(1) n q Inr False by (auto simp: storage_read_from_def Let_def split: if_splits)
    have b: "length bs \<le> ?n" "reader_ok r1" "reader_input r = bs @ reader_input r1"
      using poll_Ok [OF assms(3) q [unfolded Inr]] by auto
    show ?thesis unfolding st using b assms(2) by (auto simp: as_slice_def storage_wf_def)
  qed
qed

lemma read_into_spare_spec:
  assumes "read_into_spare poll b r n = (b', r', res)" "buffer_wf b" "reader_ok r"
  shows "buffer_wf b' \<and> reader_ok r' \<and> read_limit b' = read_limit b \<and>
    bs_capacity (pb_buffer b') = bs_capacity (pb_buffer b) \<and> bs_visible_from (pb_buffer b') = bs_visible_from (pb_buffer b) \<and>
    (case res of
       Inl e \<Rightarrow> visible b' = visible b \<and> reader_input r' = reader_input r
     | Inr k \<Rightarrow> \<exists>bs. k = length bs \<and> k \<le> n \<and> visible b' = visible b @ bs \<and> reader_input r = bs @ reader_input r')"
proof -
  obtain st where st: "storage_read_from poll (pb_buffer b) r n = (st, r', res)" "b' = b\<lparr>pb_buffer := st\<rparr>"
    using assms(1) by (auto simp: read_into_spare_def split: prod.splits)
  show ?thesis
    using storage_read_from_spec [OF st(1) assms(2,3)] unfolding st(2)
    by (auto simp: read_limit_def split: sum.splits)
qed

lemma read_from_spec:
  assumes "read_from poll b r = (b', r', res)" "reader_ok r"
  shows "buffer_wf b' \<and> reader_ok r' \<and> read_limit b' = read_limit b \<and> bs_visible_from (pb_buffer b') = 0 \<and>
    (case res of
       Inl e \<Rightarrow> visible b' = [] \<and> reader_input r' = reader_input r
     | Inr k \<Rightarrow> k = length (visible b') \<and> reader_input r = visible b' @ reader_input r')"
  using read_into_spare_spec [of "b\<lparr>pb_buffer := storage_clear (pb_buffer b)\<rparr>" r "read_limit b" b' r' res] assms
  by (auto simp: read_from_def Let_def read_limit_def split: sum.splits)

lemma read_more_spec:
  assumes "read_more poll b r = (b', r', res)" "buffer_wf b" "reader_ok r"
  shows "buffer_wf b' \<and> reader_ok r' \<and> read_limit b' = read_limit b \<and>
    (case res of
       Inl e \<Rightarrow> visible b' = visible b \<and> reader_input r' = reader_input r
     | Inr k \<Rightarrow> \<exists>bs. k = length bs \<and> visible b' = visible b @ bs \<and> reader_input r = bs @ reader_input r')"
proof -
  let ?b = "b\<lparr>pb_buffer := compact_visible_if_tail_full (pb_buffer b)\<rparr>"
  have "read_into_spare poll ?b r (read_limit ?b - initialized_len (pb_buffer ?b)) = (b', r', res)"
    using assms(1) by (simp add: read_more_def Let_def)
  from read_into_spare_spec [OF this] assms(2,3)
  show ?thesis by (auto simp: read_limit_def split: sum.splits)
qed

lemma permit_read_spec:
  assumes "permit_read poll b r = (b', r', res)" "buffer_wf b" "reader_ok r"
  shows "buffer_wf b' \<and> reader_ok r' \<and> read_limit b' = read_limit b \<and>
    (case res of
       Inl e \<Rightarrow> visible b' = visible b \<and> reader_input r' = reader_input r
     | Inr AppendEof \<Rightarrow> visible b' = visible b \<and> reader_input r' = reader_input r
     | Inr (AppendData k) \<Rightarrow> k = length (visible b) \<and>
         (\<exists>bs. bs \<noteq> [] \<and> visible b' = visible b @ bs \<and> reader_input r = bs @ reader_input r'))"
proof -
  obtain q where q: "read_more poll b r = (b', r', q)"
    using assms(1) by (auto simp: permit_read_def Let_def split: prod.splits sum.splits)
  have "res = map_sum id (\<lambda>k. if k = 0 then AppendEof else AppendData (length (visible b))) q"
    using assms(1) q by (auto simp: permit_read_def Let_def initialized_def split: sum.splits)
  then show ?thesis using read_more_spec [OF q assms(2,3)] by (auto split: sum.splits)
qed

end

section \<open>Chunked responses hold what was pushed\<close>

lemma chunked_default_simps [simp]: "chunked_wf chunked_default" "to_vec chunked_default = []" "cr_len chunked_default = 0"
  by (simp_all add: chunked_default_def chunked_wf_def to_vec_def iter_chunks_def)

lemma chunked_clear_simps [simp]: "chunked_clear r = chunked_default"
  by (simp add: chunked_clear_def chunked_default_def)

lemma push_buffer_range_spec:
  assumes "chunked_wf r" "s \<le> e" "e \<le> initialized b"
  obtains r' where "push_buffer_range r b (s, e) = Some r'" "chunked_wf r'"
    "to_vec r' = to_vec r @ subrange s e (visible b)" "cr_len r' = cr_len r + (e - s)"
  using assms
  by (auto simp: push_buffer_range_def chunked_wf_def to_vec_def iter_chunks_def chunk_as_slice_def
      subrange_length initialized_def min_def)

lemma chunked_wf_len: "chunked_wf r \<Longrightarrow> cr_len r = length (to_vec r)"
  by (simp add: chunked_wf_def)

context writer_lib
begin

lemma write_chunks_sent:
  assumes "write_chunks W w cs = (w', r)"
  shows "\<exists>p. prefix p (concat cs) \<and> sent W w' = sent W w @ p \<and> (r = Inr () \<longrightarrow> p = concat cs)"
  using assms
proof (induction cs arbitrary: w)
  case (Cons c cs)
  obtain w1 q where q: "write_all W w c = (w1, q)" by fastforce
  obtain p where p: "prefix p c" "sent W w1 = sent W w @ p" "q = Inr () \<longrightarrow> p = c"
    using write_all_prefix [OF q] by auto
  show ?case
  proof (cases q)
    case (Inl e)
    then show ?thesis using Cons.prems q p by auto
  next
    case (Inr u)
    then have "write_chunks W w1 cs = (w', r)" using Cons.prems q by simp
    from Cons.IH [OF this] p Inr show ?thesis by auto
  qed
qed auto

lemma write_all_to_recording_sent:
  assumes "write_all_to_recording W r w = (w', res)"
  shows "\<exists>p. prefix p (to_vec r) \<and> sent W w' = sent W w @ p \<and> (res = Inr () \<longrightarrow> p = to_vec r)"
  using assms write_chunks_sent unfolding write_all_to_recording_def to_vec_def by blast

end

end
