(* ===== verification/Conn.thy ===== *)
theory Conn
  imports Buffer
begin

text \<open>
  A backend connection: \<open>ConnectionStream\<close> of \<open>src/src/stream/connection_stream.rs\<close> with the queue
  of input that was read from the socket and belongs to a later response, and \<open>ConnectionGuard\<close> of
  \<open>src/src/pool/connection_guard.rs\<close>, which decides whether a connection goes back to its pool. The
  socket (TCP, TLS or decompressing) is the list of what its reads will return; past the end of the
  list every read reports the end of the input.
\<close>

section \<open>Pending input\<close>

definition MAX_PENDING_BACKEND_BYTES :: nat where
  "MAX_PENDING_BACKEND_BYTES = 128 * 1024"

text \<open>A pooled segment carries the bounds of its range; both carry the read position.\<close>

datatype PendingBackendInput =
    Copied bytes nat
  | Pooled PooledBuffer "nat \<times> nat" nat

definition pending_copied :: "bytes \<Rightarrow> PendingBackendInput" where
  "pending_copied bs = Copied bs 0"

definition pending_pooled :: "PooledBuffer \<Rightarrow> nat \<times> nat \<Rightarrow> PendingBackendInput" where
  "pending_pooled b rng = Pooled b rng 0"

fun pending_remaining :: "PendingBackendInput \<Rightarrow> nat" where
  "pending_remaining (Copied bs pos) = length bs - pos"
| "pending_remaining (Pooled b rng pos) = (snd rng - fst rng) - pos"

definition pending_is_empty :: "PendingBackendInput \<Rightarrow> bool" where
  "pending_is_empty seg \<longleftrightarrow> pending_remaining seg = 0"

text \<open>\<open>read_into\<close>: the segment after the call and the bytes put into the read buffer.\<close>

fun read_into :: "PendingBackendInput \<Rightarrow> nat \<Rightarrow> PendingBackendInput \<times> bytes" where
  "read_into (Copied bs pos) room =
     (let available = drop pos bs; n = min (length available) room
      in (Copied bs (pos + n), take n available))"
| "read_into (Pooled b rng pos) room =
     (let available = subrange (fst rng + pos) (snd rng) (visible b); n = min (length available) room
      in (Pooled b rng (pos + n), take n available))"

section \<open>The stream\<close>

type_synonym transport = "(IoError + bytes) list"

fun transport_read :: "transport \<Rightarrow> nat \<Rightarrow> transport \<times> (IoError + bytes)" where
  "transport_read [] n = ([], Ok [])"
| "transport_read (Inl e # ts) n = (ts, Err e)"
| "transport_read (Inr bs # ts) n =
     (if length bs \<le> n then (ts, Ok bs) else (Inr (drop n bs) # ts, Ok (take n bs)))"

record ConnectionStream =
  cs_transport :: transport
  cs_pending :: "PendingBackendInput list"

datatype PendingByteOrder = OrderFront | OrderBack

datatype PendingError =
    PendingBytesExceeded nat
  | PooledRangeReversed
  | PooledRangeExceedsBuffer

definition stream_new :: "transport \<Rightarrow> ConnectionStream" where
  "stream_new t = \<lparr>cs_transport = t, cs_pending = []\<rparr>"

definition pending_bytes_len :: "ConnectionStream \<Rightarrow> nat" where
  "pending_bytes_len c = sum_list (map pending_remaining (cs_pending c))"

definition has_pending_bytes :: "ConnectionStream \<Rightarrow> bool" where
  "has_pending_bytes c \<longleftrightarrow> list_ex (\<lambda>seg. \<not> pending_is_empty seg) (cs_pending c)"

definition ensure_pending_bytes_capacity :: "nat \<Rightarrow> nat \<Rightarrow> PendingError + unit" where
  "ensure_pending_bytes_capacity current additional =
     (if current + additional \<le> MAX_PENDING_BACKEND_BYTES then Ok ()
      else Err (PendingBytesExceeded (current + additional)))"

definition queue_pending_bytes_ordered ::
    "ConnectionStream \<Rightarrow> bytes \<Rightarrow> PendingByteOrder \<Rightarrow> ConnectionStream \<times> (PendingError + unit)" where
  "queue_pending_bytes_ordered c bs order =
     (if bs = [] then (c, Ok ())
      else case ensure_pending_bytes_capacity (pending_bytes_len c) (length bs) of
             Inl e \<Rightarrow> (c, Err e)
           | Inr _ \<Rightarrow>
               (let segment = pending_copied bs
                in (case order of
                      OrderBack \<Rightarrow> c\<lparr>cs_pending := cs_pending c @ [segment]\<rparr>
                    | OrderFront \<Rightarrow> c\<lparr>cs_pending := segment # cs_pending c\<rparr>, Ok ())))"

definition queue_pending_bytes :: "ConnectionStream \<Rightarrow> bytes \<Rightarrow> ConnectionStream \<times> (PendingError + unit)" where
  "queue_pending_bytes c bs = queue_pending_bytes_ordered c bs OrderBack"

definition queue_pending_bytes_first ::
    "ConnectionStream \<Rightarrow> bytes \<Rightarrow> ConnectionStream \<times> (PendingError + unit)" where
  "queue_pending_bytes_first c bs = queue_pending_bytes_ordered c bs OrderFront"

definition queue_pooled_pending_bytes_first ::
    "ConnectionStream \<Rightarrow> PooledBuffer \<Rightarrow> nat \<times> nat \<Rightarrow> ConnectionStream \<times> (PendingError + unit)" where
  "queue_pooled_pending_bytes_first c b rng =
     (if \<not> fst rng \<le> snd rng then (c, Err PooledRangeReversed)
      else if snd rng - fst rng = 0 then (c, Ok ())
      else if \<not> snd rng \<le> initialized b then (c, Err PooledRangeExceedsBuffer)
      else (c\<lparr>cs_pending := pending_pooled b rng # cs_pending c\<rparr>, Ok ()))"

definition take_leading_pooled_pending_input ::
    "ConnectionStream \<Rightarrow> ConnectionStream \<times> (PooledBuffer \<times> (nat \<times> nat)) option" where
  "take_leading_pooled_pending_input c =
     (case cs_pending c of
        Pooled b rng pos # rest \<Rightarrow> (c\<lparr>cs_pending := rest\<rparr>, Some (b, (fst rng + pos, snd rng)))
      | _ \<Rightarrow> (c, None))"

definition clear_pending_bytes :: "ConnectionStream \<Rightarrow> ConnectionStream" where
  "clear_pending_bytes c = c\<lparr>cs_pending := []\<rparr>"

definition stream_poll_read :: "ConnectionStream \<Rightarrow> nat \<Rightarrow> ConnectionStream \<times> (IoError + bytes)" where
  "stream_poll_read c room =
     (case cs_pending c of
        front # rest \<Rightarrow>
          if room > 0 then
            (case read_into front room of
               (front', out) \<Rightarrow>
                 (c\<lparr>cs_pending := (if pending_is_empty front' then rest else front' # rest)\<rparr>, Ok out))
          else (case transport_read (cs_transport c) room of (t, res) \<Rightarrow> (c\<lparr>cs_transport := t\<rparr>, res))
      | [] \<Rightarrow> (case transport_read (cs_transport c) room of (t, res) \<Rightarrow> (c\<lparr>cs_transport := t\<rparr>, res)))"

text \<open>\<open>take_queued_input_or_acquire_empty\<close> of \<open>src/src/session/multiline_framing.rs\<close>; \<open>None\<close> is a panic.\<close>

definition take_queued_input_or_acquire_empty ::
    "(nat \<Rightarrow> nat) \<Rightarrow> nat \<Rightarrow> ConnectionStream \<Rightarrow> (ConnectionStream \<times> PooledBuffer) option" where
  "take_queued_input_or_acquire_empty wc pool c =
     (case take_leading_pooled_pending_input c of
        (c', Some (b, rng)) \<Rightarrow>
          map_option (Pair c') (expose_initialized_range_without_copying b rng)
      | (c', None) \<Rightarrow> Some (c', acquire wc pool))"

section \<open>The guard\<close>

datatype ConnectionPhase = Idle | InFlight | ResponseComplete

record ConnectionGuard =
  cg_conn :: ConnectionStream
  cg_phase :: ConnectionPhase

text \<open>
  What becomes of the connection when its guard is consumed. A failed assertion unwinds and drops the
  guard, so the connection is then removed as on \<open>drop\<close>.
\<close>

datatype GuardFate = ReturnedToPool ConnectionStream | RemovedWithCooldown | RemovedWithoutCooldown

definition idle_new :: "ConnectionStream \<Rightarrow> ConnectionGuard" where
  "idle_new c = \<lparr>cg_conn = c, cg_phase = Idle\<rparr>"

definition guard_drop :: "ConnectionGuard \<Rightarrow> GuardFate" where
  "guard_drop g = RemovedWithCooldown"

definition release_idle :: "ConnectionGuard \<Rightarrow> GuardFate" where
  "release_idle g = (if cg_phase g = Idle then ReturnedToPool (cg_conn g) else guard_drop g)"

definition complete_success :: "ConnectionGuard \<Rightarrow> GuardFate" where
  "complete_success g =
     (if cg_phase g \<noteq> ResponseComplete then guard_drop g
      else if pending_bytes_len (cg_conn g) \<noteq> 0 then guard_drop g
      else ReturnedToPool (cg_conn g))"

definition fail_client :: "ConnectionGuard \<Rightarrow> GuardFate" where
  "fail_client g = RemovedWithoutCooldown"

definition fail_backend :: "ConnectionGuard \<Rightarrow> GuardFate" where
  "fail_backend g = RemovedWithCooldown"

text \<open>\<open>stream_mut\<close>, followed by what its caller does with the stream.\<close>

definition stream_mut :: "ConnectionGuard \<Rightarrow> ConnectionGuard" where
  "stream_mut g = g\<lparr>cg_phase := InFlight\<rparr>"

text \<open>\<open>None\<close> is the panic on an idle connection.\<close>

definition mark_response_complete :: "ConnectionGuard \<Rightarrow> ConnectionGuard option" where
  "mark_response_complete g =
     (case cg_phase g of
        InFlight \<Rightarrow> Some (g\<lparr>cg_phase := ResponseComplete\<rparr>)
      | ResponseComplete \<Rightarrow> Some g
      | Idle \<Rightarrow> None)"

definition response_is_complete :: "ConnectionGuard \<Rightarrow> bool" where
  "response_is_complete g \<longleftrightarrow> cg_phase g = ResponseComplete"

section \<open>The unread input\<close>

text \<open>The bytes of a segment that are still to be read, and the whole input of the connection.\<close>

fun seg_bytes :: "PendingBackendInput \<Rightarrow> bytes" where
  "seg_bytes (Copied bs pos) = drop pos bs"
| "seg_bytes (Pooled b rng pos) = subrange (fst rng + pos) (snd rng) (visible b)"

fun seg_ok :: "PendingBackendInput \<Rightarrow> bool" where
  "seg_ok (Copied bs pos) \<longleftrightarrow> pos < length bs"
| "seg_ok (Pooled b rng pos) \<longleftrightarrow> fst rng + pos < snd rng \<and> snd rng \<le> initialized b \<and> buffer_wf b"

definition pending_input :: "ConnectionStream \<Rightarrow> bytes" where
  "pending_input c = concat (map seg_bytes (cs_pending c))"

fun transport_input :: "transport \<Rightarrow> bytes" where
  "transport_input [] = []"
| "transport_input (Inl e # ts) = transport_input ts"
| "transport_input (Inr bs # ts) = bs @ transport_input ts"

definition stream_input :: "ConnectionStream \<Rightarrow> bytes" where
  "stream_input c = pending_input c @ transport_input (cs_transport c)"

text \<open>Every queued segment has unread bytes inside its buffer.\<close>

definition stream_wf :: "ConnectionStream \<Rightarrow> bool" where
  "stream_wf c \<longleftrightarrow> list_all seg_ok (cs_pending c)"

lemma seg_bytes_length: "seg_ok seg \<Longrightarrow> length (seg_bytes seg) = pending_remaining seg"
  by (cases seg) (auto simp: subrange_length initialized_def)

lemma seg_ok_nonempty: "seg_ok seg \<Longrightarrow> seg_bytes seg \<noteq> [] \<and> pending_remaining seg \<noteq> 0"
  using seg_bytes_length [of seg] by (cases seg) (simp_all flip: length_greater_0_conv)

lemma read_into_seg:
  assumes "read_into seg n = (seg', out)" "seg_ok seg"
  shows "out = take n (seg_bytes seg) \<and> seg_bytes seg' = drop n (seg_bytes seg) \<and>
    pending_remaining seg' = pending_remaining seg - n \<and> (pending_remaining seg' \<noteq> 0 \<longrightarrow> seg_ok seg')"
proof (cases seg)
  case (Copied bs pos)
  then have "seg' = Copied bs (pos + min (length bs - pos) n)" "out = take n (drop pos bs)"
    using assms(1) by (auto simp: Let_def min_def)
  then show ?thesis using Copied assms(2) by (cases "n \<le> length bs - pos") (simp_all add: add.commute)
next
  case (Pooled b rng pos)
  let ?s = "fst rng + pos"
  have len: "length (subrange ?s (snd rng) (visible b)) = snd rng - ?s"
    using Pooled assms(2) by (auto simp: subrange_length initialized_def min_def)
  then have e: "seg' = Pooled b rng (pos + min (snd rng - ?s) n)" "out = take n (seg_bytes seg)"
    using assms(1) Pooled by (auto simp: Let_def min_def)
  have d: "subrange (?s + k) (snd rng) (visible b) = drop k (subrange ?s (snd rng) (visible b))" for k
    by (simp add: subrange_def drop_take add.commute)
  show ?thesis
  proof (cases "n \<le> snd rng - ?s")
    case True
    then show ?thesis using e Pooled assms(2) d [of n] by (auto simp: add.assoc)
  next
    case False
    then show ?thesis using e Pooled assms(2) d [of "snd rng - ?s"] len by (auto simp: add.assoc)
  qed
qed

lemma read_into_spec:
  assumes "read_into seg n = (seg', out)" "seg_ok seg" "0 < n"
  shows "out \<noteq> []" "length out \<le> n" "seg_bytes seg = out @ seg_bytes seg'"
    "pending_is_empty seg' \<Longrightarrow> seg_bytes seg' = []" "\<not> pending_is_empty seg' \<Longrightarrow> seg_ok seg'"
  using read_into_seg [OF assms(1,2)] seg_ok_nonempty [OF assms(2)] seg_bytes_length [OF assms(2)] assms(3)
  by (auto simp: pending_is_empty_def)

lemma transport_read_spec:
  assumes "transport_read t n = (t', res)"
  shows "case res of
      Inl e \<Rightarrow> transport_input t' = transport_input t
    | Inr bs \<Rightarrow> length bs \<le> n \<and> transport_input t = bs @ transport_input t'"
  using assms by (induction t n rule: transport_read.induct) (auto split: if_splits)

lemma pending_len_eq: "stream_wf c \<Longrightarrow> pending_bytes_len c = length (pending_input c)"
  unfolding stream_wf_def pending_bytes_len_def pending_input_def
  by (auto simp: length_concat seg_bytes_length list_all_iff comp_def intro!: arg_cong [where f = sum_list])

lemma has_pending_iff: "stream_wf c \<Longrightarrow> has_pending_bytes c \<longleftrightarrow> pending_input c \<noteq> []"
  unfolding stream_wf_def has_pending_bytes_def pending_input_def
  by (auto simp: list_all_iff list_ex_iff pending_is_empty_def dest: seg_ok_nonempty)

lemma stream_poll_read_spec:
  assumes "stream_poll_read c n = (c', res)" "stream_wf c"
  shows "stream_wf c' \<and>
    (case res of
       Inl e \<Rightarrow> stream_input c' = stream_input c
     | Inr bs \<Rightarrow> length bs \<le> n \<and> stream_input c = bs @ stream_input c')"
proof (cases "cs_pending c = [] \<or> n = 0")
  case True
  then obtain t where t: "transport_read (cs_transport c) n = (t, res)" "c' = c\<lparr>cs_transport := t\<rparr>"
    using assms(1) by (auto simp: stream_poll_read_def split: prod.splits list.splits)
  from True show ?thesis
  proof
    assume "n = 0"
    then show ?thesis using transport_read_spec [OF t(1)] assms(2) unfolding t(2)
      by (auto simp: stream_input_def pending_input_def stream_wf_def split: sum.splits)
  next
    assume "cs_pending c = []"
    then show ?thesis using transport_read_spec [OF t(1)] assms(2) unfolding t(2)
      by (auto simp: stream_input_def pending_input_def stream_wf_def split: sum.splits)
  qed
next
  case False
  then obtain front rest where p: "cs_pending c = front # rest" by (auto simp: neq_Nil_conv)
  obtain front' out where r: "read_into front n = (front', out)" by fastforce
  have c': "c' = c\<lparr>cs_pending := (if pending_is_empty front' then rest else front' # rest)\<rparr>" "res = Inr out"
    using assms(1) p r False by (auto simp: stream_poll_read_def)
  have ok: "seg_ok front" "list_all seg_ok rest" using assms(2) p by (auto simp: stream_wf_def)
  note s = read_into_spec [OF r ok(1)]
  show ?thesis using s False ok p unfolding c'
    by (auto simp: stream_wf_def stream_input_def pending_input_def)
qed

interpretation conn: async_reader stream_poll_read stream_input stream_wf
  using stream_poll_read_spec by unfold_locales fastforce+

section \<open>The queue keeps the order of the bytes\<close>

lemma queue_first_Ok:
  assumes "queue_pending_bytes_first c bs = (c', Inr u)" "stream_wf c"
  shows "stream_wf c' \<and> pending_input c' = bs @ pending_input c \<and> cs_transport c' = cs_transport c"
  using assms
  by (auto simp: queue_pending_bytes_first_def queue_pending_bytes_ordered_def Let_def stream_wf_def
      pending_input_def pending_copied_def split: if_splits sum.splits)

lemma queue_first_Err:
  assumes "queue_pending_bytes_first c bs = (c', Inl e)" "stream_wf c"
  shows "c' = c \<and> MAX_PENDING_BACKEND_BYTES < length bs + length (pending_input c)"
  using assms pending_len_eq [OF assms(2)]
  by (auto simp: queue_pending_bytes_first_def queue_pending_bytes_ordered_def Let_def
      ensure_pending_bytes_capacity_def split: if_splits)

lemma queue_back_Ok:
  assumes "queue_pending_bytes c bs = (c', Inr u)" "stream_wf c"
  shows "stream_wf c' \<and> pending_input c' = pending_input c @ bs \<and> cs_transport c' = cs_transport c"
  using assms
  by (auto simp: queue_pending_bytes_def queue_pending_bytes_ordered_def Let_def stream_wf_def
      pending_input_def pending_copied_def split: if_splits sum.splits)

lemma queue_pooled_Ok:
  assumes "stream_wf c" "buffer_wf b" "s \<le> e" "e \<le> initialized b"
  obtains c' where "queue_pooled_pending_bytes_first c b (s, e) = (c', Inr ())" "stream_wf c'"
    "pending_input c' = subrange s e (visible b) @ pending_input c" "cs_transport c' = cs_transport c"
  using assms
  by (cases "s = e")
     (auto simp: queue_pooled_pending_bytes_first_def stream_wf_def pending_input_def pending_pooled_def
       subrange_def)

lemma take_queued_spec:
  assumes "stream_wf c"
  obtains c' b where "take_queued_input_or_acquire_empty wc pool c = Some (c', b)" "stream_wf c'" "buffer_wf b"
    "visible b @ stream_input c' = stream_input c" "cs_transport c' = cs_transport c"
proof (cases "\<exists>b rng pos rest. cs_pending c = Pooled b rng pos # rest")
  case True
  then obtain b s e pos rest where p: "cs_pending c = Pooled b (s, e) pos # rest" by auto
  then have ok: "s + pos < e" "e \<le> initialized b" "buffer_wf b" "list_all seg_ok rest"
    using assms by (auto simp: stream_wf_def)
  obtain st where st: "retain_range (pb_buffer b) (s + pos, e) = Some st"
    "as_slice st = subrange (s + pos) e (visible b)" "storage_wf st"
    using retain_range_Some [of "pb_buffer b" "s + pos" e] ok by (auto simp: initialized_def)
  have "take_queued_input_or_acquire_empty wc pool c = Some (c\<lparr>cs_pending := rest\<rparr>, b\<lparr>pb_buffer := st\<rparr>)"
    using p st(1)
    by (simp add: take_queued_input_or_acquire_empty_def take_leading_pooled_pending_input_def
        expose_initialized_range_without_copying_def)
  then show ?thesis using that st ok p by (simp add: stream_wf_def stream_input_def pending_input_def)
next
  case False
  then have "take_queued_input_or_acquire_empty wc pool c = Some (c, acquire wc pool)"
    by (auto simp: take_queued_input_or_acquire_empty_def take_leading_pooled_pending_input_def
        split: list.splits PendingBackendInput.splits)
  then show ?thesis using that assms by simp
qed

section \<open>Reads make progress\<close>

text \<open>The bytes a connection can still deliver; a read that returns bytes lowers it.\<close>

definition stream_measure :: "ConnectionStream \<Rightarrow> nat" where
  "stream_measure c = pending_bytes_len c + length (transport_input (cs_transport c))"

lemma read_into_remaining:
  "read_into seg n = (seg', out) \<Longrightarrow> pending_remaining seg' \<le> pending_remaining seg \<and>
     (out \<noteq> [] \<longrightarrow> pending_remaining seg' < pending_remaining seg)"
  by (cases seg) (auto simp: Let_def subrange_def)

lemma stream_poll_read_measure:
  assumes "stream_poll_read c n = (c', Inr bs)" "bs \<noteq> []"
  shows "stream_measure c' < stream_measure c"
proof (cases "cs_pending c = [] \<or> n = 0")
  case True
  then obtain t where t: "transport_read (cs_transport c) n = (t, Inr bs)" "c' = c\<lparr>cs_transport := t\<rparr>"
    using assms(1) by (auto simp: stream_poll_read_def split: prod.splits list.splits)
  show ?thesis using transport_read_spec [OF t(1)] assms(2) unfolding t(2)
    by (simp add: stream_measure_def pending_bytes_len_def)
next
  case False
  then obtain front rest where p: "cs_pending c = front # rest" by (auto simp: neq_Nil_conv)
  obtain front' out where r: "read_into front n = (front', out)" by fastforce
  have "c' = c\<lparr>cs_pending := (if pending_is_empty front' then rest else front' # rest)\<rparr>" "bs = out"
    using assms(1) p r False by (auto simp: stream_poll_read_def)
  then show ?thesis using read_into_remaining [OF r] assms(2) p
    by (auto simp: stream_measure_def pending_bytes_len_def pending_is_empty_def)
qed

lemma storage_read_measure:
  assumes "storage_read_from stream_poll_read st c n = (st', c', Inr k)" "k \<noteq> 0"
  shows "stream_measure c' < stream_measure c"
  using assms stream_poll_read_measure
  by (fastforce simp: storage_read_from_def Let_def split: if_splits prod.splits sum.splits)

lemma read_from_measure:
  assumes "read_from stream_poll_read b c = (b', c', Inr k)" "k \<noteq> 0"
  shows "stream_measure c' < stream_measure c"
  using assms storage_read_measure
  by (fastforce simp: read_from_def read_into_spare_def Let_def split: prod.splits)

end
