(* ===== verification/Forward.thy ===== *)
theory Forward
  imports Conn
begin

text \<open>
  The transfer of one backend response to the client: classification of the first bytes,
  \<open>ResponseCursor\<close>, \<open>StreamingResponse\<close>, \<open>IsolatedMultilineResponse\<close> and \<open>Receiving\<close> of
  \<open>src/src/session/multiline_framing.rs\<close>, and the outcome types of
  \<open>src/src/session/response_transfer.rs\<close>. The central result is that a transfer sends the client
  exactly the bytes of the response, keeps what follows for the next response, and reports an error
  that may be retried only when the client has received nothing.
\<close>

section \<open>Outcomes\<close>

definition is_disconnect_kind :: "IoError \<Rightarrow> bool" where
  "is_disconnect_kind kind \<longleftrightarrow> kind \<in> {BrokenPipe, ConnectionReset}"

definition is_connection_error_kind :: "IoError \<Rightarrow> bool" where
  "is_connection_error_kind kind \<longleftrightarrow>
     kind \<in> {BrokenPipe, ConnectionReset, ConnectionAborted, UnexpectedEof}"

datatype ResponseWarning = ShortResponse nat nat | InvalidResponse | UnusualStatusCode u16

datatype ResponseReadError = ReadIncomplete | ReadInvalid "ResponseWarning list"

text \<open>
  The causes inside \<open>Io(anyhow::Error)\<close>; \<open>Panicked\<close> stands for a failed \<open>expect\<close> or \<open>assert\<close> on
  the way, which the theorems exclude.
\<close>

datatype TransferCause =
    Unclassified ResponseReadError
  | FramingCause FramingError
  | ReadCause IoError
  | PendingCause PendingError
  | InvalidBackendResponse
  | Panicked

datatype ResponseTransferError =
    ClientDisconnect IoError
  | ClientWrite IoError
  | ClientWriteUnpreserved IoError
  | DeliveredPrefix ResponseTransferError
  | TransferEof BackendId nat
  | TransferIo TransferCause

definition from_client_write :: "IoError \<Rightarrow> ResponseTransferError" where
  "from_client_write e = (if is_disconnect_kind e then ClientDisconnect e else ClientWrite e)"

definition from_client_write_after_cleanup ::
    "IoError \<Rightarrow> ResponseTransferError + unit \<Rightarrow> ResponseTransferError" where
  "from_client_write_after_cleanup write_error cleanup =
     (case cleanup of
        Inl _ \<Rightarrow> ClientWriteUnpreserved write_error
      | Inr _ \<Rightarrow> from_client_write write_error)"

definition after_client_delivery :: "ResponseTransferError \<Rightarrow> ResponseTransferError" where
  "after_client_delivery e =
     (case e of
        ClientDisconnect _ \<Rightarrow> e | ClientWrite _ \<Rightarrow> e | ClientWriteUnpreserved _ \<Rightarrow> e | DeliveredPrefix _ \<Rightarrow> e
      | TransferEof _ _ \<Rightarrow> DeliveredPrefix e
      | TransferIo _ \<Rightarrow> DeliveredPrefix e)"

datatype BackendConnectionOutcome = BackendHealthy | BackendDirty | BackendFailed

datatype ResponseConnectionReuse = ReuseIncomplete | Reusable | QueuedBytes nat

definition error_pool_fate :: "ResponseTransferError \<Rightarrow> ResponseConnectionReuse \<Rightarrow> BackendConnectionOutcome" where
  "error_pool_fate e reuse =
     (case e of
        ClientWriteUnpreserved _ \<Rightarrow> BackendFailed
      | DeliveredPrefix _ \<Rightarrow> BackendFailed
      | _ \<Rightarrow>
         (case reuse of
            ReuseIncomplete \<Rightarrow> BackendFailed
          | QueuedBytes _ \<Rightarrow> BackendDirty
          | Reusable \<Rightarrow>
             (case e of
                ClientDisconnect _ \<Rightarrow> BackendHealthy
              | ClientWrite _ \<Rightarrow> BackendHealthy
              | _ \<Rightarrow> BackendFailed)))"

definition reuse_pool_fate :: "ResponseConnectionReuse \<Rightarrow> BackendConnectionOutcome" where
  "reuse_pool_fate reuse =
     (case reuse of
        ReuseIncomplete \<Rightarrow> BackendFailed
      | Reusable \<Rightarrow> BackendHealthy
      | QueuedBytes _ \<Rightarrow> BackendDirty)"

definition connection_reuse_after_response :: "ConnectionGuard \<Rightarrow> ResponseConnectionReuse" where
  "connection_reuse_after_response g =
     (if \<not> response_is_complete g then ReuseIncomplete
      else if has_pending_bytes (cg_conn g) then QueuedBytes (pending_bytes_len (cg_conn g))
      else Reusable)"

section \<open>Classification\<close>

definition parse_response_status :: "bytes \<Rightarrow> StatusCode option \<times> ResponseWarning list" where
  "parse_response_status chunk =
     (let short = (if length chunk < MIN_RESPONSE_LENGTH
                   then [ShortResponse (length chunk) MIN_RESPONSE_LENGTH] else []);
          status_code = status_parse chunk
      in (status_code,
          short @ (case status_code of
                     Some code \<Rightarrow>
                       (let raw_code = into_inner code
                        in if raw_code = 0 \<or> raw_code \<ge> 600 then [UnusualStatusCode raw_code] else [])
                   | None \<Rightarrow> [InvalidResponse])))"

datatype ResponseFrame =
    SingleLineFrame StatusCode nat "nat \<times> nat" "nat \<times> nat"
  | MultilineFrame StatusCode nat

definition parse_bytes :: "memchr_api \<Rightarrow> RequestContext \<Rightarrow> bytes \<Rightarrow> ResponseReadError + ResponseFrame" where
  "parse_bytes M request chunk =
     (case status_line_len M chunk of
        None \<Rightarrow> Err ReadIncomplete
      | Some status_line_end \<Rightarrow>
         (case parse_response_status chunk of
            (None, warnings) \<Rightarrow> Err (ReadInvalid warnings)
          | (Some status, _) \<Rightarrow>
              if has_response_body request status then Ok (MultilineFrame status status_line_end)
              else Ok (SingleLineFrame status status_line_end (0, status_line_end)
                         (status_line_end, length chunk))))"

definition unpacked_single_line_response :: "memchr_api \<Rightarrow> RequestContext \<Rightarrow> bytes \<Rightarrow> ResponseReadError + bytes" where
  "unpacked_single_line_response M request bs =
     (case parse_bytes M request bs of
        Inl e \<Rightarrow> Err e
      | Inr (SingleLineFrame _ _ r next) \<Rightarrow>
          if fst next = snd next then Ok (subrange (fst r) (snd r) bs) else Err (ReadInvalid [])
      | Inr (MultilineFrame _ _) \<Rightarrow> Err (ReadInvalid []))"

record ClassifiedResponse =
  cl_buffer :: PooledBuffer
  cl_frame :: "ResponseReadError + ResponseFrame"
  cl_kind :: RequestKind

definition classified_status_code :: "ClassifiedResponse \<Rightarrow> StatusCode option" where
  "classified_status_code c =
     (case cl_frame c of
        Inr (SingleLineFrame status _ _ _) \<Rightarrow> Some status
      | Inr (MultilineFrame status _) \<Rightarrow> Some status
      | Inl _ \<Rightarrow> None)"

datatype ReadUnboundError =
    UnboundIo IoError
  | BufferCapacityExceeded nat
  | EofBeforeComplete nat
  | ClosedUnexpectedly

text \<open>The loop ends because each further round has read at least one byte.\<close>

function read_unbound ::
    "memchr_api \<Rightarrow> RequestContext \<Rightarrow> ConnectionStream \<Rightarrow> PooledBuffer
       \<Rightarrow> ConnectionStream \<times> (ReadUnboundError + ClassifiedResponse)" where
  "read_unbound M request conn buffer =
     (let frame = parse_bytes M request (visible buffer) in
      if frame = Err ReadIncomplete then
        (case read_more stream_poll_read buffer conn of
           (buffer', conn', Inl e) \<Rightarrow> (conn', Err (UnboundIo e))
         | (buffer', conn', Inr k) \<Rightarrow>
             if k = 0 then
               (if available_read_capacity buffer' = 0 then (conn', Err (BufferCapacityExceeded (initialized buffer')))
                else (conn', Err (EofBeforeComplete (initialized buffer'))))
             else read_unbound M request conn' buffer')
      else (conn, Ok \<lparr>cl_buffer = buffer, cl_frame = frame, cl_kind = rc_kind request\<rparr>))"
  by pat_completeness auto

lemma read_more_measure:
  assumes "read_more stream_poll_read b c = (b', c', Inr k)" "k \<noteq> 0"
  shows "stream_measure c' < stream_measure c"
  using assms storage_read_measure
  by (fastforce simp: read_more_def read_into_spare_def Let_def split: prod.splits)

termination read_unbound
  by (relation "measure (\<lambda>(M, request, conn, buffer). stream_measure conn)")
     (auto dest: read_more_measure [OF sym])

declare read_unbound.simps [simp del]

section \<open>Write statistics\<close>

record ResponseWriteStats =
  ws_chunk_count :: nat
  ws_bytes_written :: nat
  ws_tiny_chunks :: nat
  ws_tiny_chunk_bytes :: nat
  ws_small_chunks :: nat
  ws_small_chunk_bytes :: nat

definition stats_default :: ResponseWriteStats where
  "stats_default = \<lparr>ws_chunk_count = 0, ws_bytes_written = 0, ws_tiny_chunks = 0,
     ws_tiny_chunk_bytes = 0, ws_small_chunks = 0, ws_small_chunk_bytes = 0\<rparr>"

definition classify_response_write_chunk :: "nat \<Rightarrow> nat \<times> nat \<times> nat \<times> nat" where
  "classify_response_write_chunk n =
     (if n \<le> 256 then 1 else 0, if n \<le> 256 then n else 0,
      if n \<le> 4096 then 1 else 0, if n \<le> 4096 then n else 0)"

definition add_chunk :: "nat \<Rightarrow> ResponseWriteStats \<Rightarrow> ResponseWriteStats" where
  "add_chunk n s =
     (case classify_response_write_chunk n of
        (tiny_chunks, tiny_chunk_bytes, small_chunks, small_chunk_bytes) \<Rightarrow>
          \<lparr>ws_chunk_count = ws_chunk_count s + 1,
           ws_bytes_written = ws_bytes_written s + n,
           ws_tiny_chunks = ws_tiny_chunks s + tiny_chunks,
           ws_tiny_chunk_bytes = ws_tiny_chunk_bytes s + tiny_chunk_bytes,
           ws_small_chunks = ws_small_chunks s + small_chunks,
           ws_small_chunk_bytes = ws_small_chunk_bytes s + small_chunk_bytes\<rparr>)"

definition add_buffered_response :: "ChunkedResponse \<Rightarrow> ResponseWriteStats \<Rightarrow> ResponseWriteStats" where
  "add_buffered_response r s = fold (\<lambda>chunk. add_chunk (length chunk)) (iter_chunks r) s"

definition add_assign :: "ResponseWriteStats \<Rightarrow> ResponseWriteStats \<Rightarrow> ResponseWriteStats" where
  "add_assign s rhs =
     \<lparr>ws_chunk_count = ws_chunk_count s + ws_chunk_count rhs,
      ws_bytes_written = ws_bytes_written s + ws_bytes_written rhs,
      ws_tiny_chunks = ws_tiny_chunks s + ws_tiny_chunks rhs,
      ws_tiny_chunk_bytes = ws_tiny_chunk_bytes s + ws_tiny_chunk_bytes rhs,
      ws_small_chunks = ws_small_chunks s + ws_small_chunks rhs,
      ws_small_chunk_bytes = ws_small_chunk_bytes s + ws_small_chunk_bytes rhs\<rparr>"

lemma stats_bytes [simp]:
  "ws_bytes_written stats_default = 0"
  "ws_bytes_written (add_chunk n s) = ws_bytes_written s + n"
  "ws_bytes_written (add_assign s s') = ws_bytes_written s + ws_bytes_written s'"
  by (simp_all add: stats_default_def add_chunk_def classify_response_write_chunk_def add_assign_def)

lemma add_buffered_bytes [simp]:
  "ws_bytes_written (add_buffered_response r s) = ws_bytes_written s + length (to_vec r)"
proof -
  have "ws_bytes_written (fold (\<lambda>chunk. add_chunk (length chunk)) cs s)
      = ws_bytes_written s + length (concat cs)" for cs :: "bytes list"
    by (induction cs arbitrary: s) simp_all
  then show ?thesis by (simp add: add_buffered_response_def to_vec_def)
qed

section \<open>The cursor\<close>

text \<open>
  What the operations share: the target and the search library of the scanner, the capacity of fresh
  buffers, the buffer size of the pool and the backend of the exchange.
\<close>

record transfer_env =
  te_memchr :: memchr_api
  te_target :: Target
  te_capacity :: "nat \<Rightarrow> nat"
  te_buffer_size :: nat
  te_backend_id :: BackendId

definition pool_acquire :: "transfer_env \<Rightarrow> PooledBuffer" where
  "pool_acquire E = acquire (te_capacity E) (te_buffer_size E)"

record ResponseCursor =
  cu_conn :: ConnectionStream
  cu_io_buffer :: PooledBuffer
  cu_framer :: MultilineFramer
  cu_frame :: ResponseWindow
  cu_packed_policy :: PackedPendingBytesPolicy

definition cursor_begin ::
    "transfer_env \<Rightarrow> ConnectionStream \<Rightarrow> PooledBuffer \<Rightarrow> PackedPendingBytesPolicy \<Rightarrow> FramingError + ResponseCursor" where
  "cursor_begin E conn io_buffer packed_policy =
     (case frame_with_policy (te_memchr E) (te_target E) framer_default (visible io_buffer) packed_policy of
        (_, Inl e) \<Rightarrow> Err e
      | (framer, Inr frame) \<Rightarrow>
          Ok \<lparr>cu_conn = conn, cu_io_buffer = io_buffer, cu_framer = framer, cu_frame = frame,
              cu_packed_policy = packed_policy\<rparr>)"

definition cursor_begin_after_status_line ::
    "transfer_env \<Rightarrow> ConnectionStream \<Rightarrow> PooledBuffer \<Rightarrow> nat \<Rightarrow> PackedPendingBytesPolicy
       \<Rightarrow> FramingError + ResponseCursor" where
  "cursor_begin_after_status_line E conn io_buffer status_line_end packed_policy =
     (case begin_after_status_line (te_memchr E) (te_target E) (visible io_buffer) status_line_end packed_policy of
        Inl e \<Rightarrow> Err e
      | Inr (framer, frame) \<Rightarrow>
          Ok \<lparr>cu_conn = conn, cu_io_buffer = io_buffer, cu_framer = framer, cu_frame = frame,
              cu_packed_policy = packed_policy\<rparr>)"

definition frame_next_chunk :: "transfer_env \<Rightarrow> ResponseCursor \<Rightarrow> ResponseCursor \<times> (FramingError + unit)" where
  "frame_next_chunk E cu =
     (case frame_with_policy (te_memchr E) (te_target E) (cu_framer cu) (visible (cu_io_buffer cu))
             (cu_packed_policy cu) of
        (f, Inl e) \<Rightarrow> (cu\<lparr>cu_framer := f\<rparr>, Err e)
      | (f, Inr w) \<Rightarrow> (cu\<lparr>cu_framer := f, cu_frame := w\<rparr>, Ok ()))"

abbreviation window_response :: "ResponseWindow \<Rightarrow> nat \<times> nat" where
  "window_response w \<equiv> (case w of CompleteWindow r _ \<Rightarrow> r | IncompleteWindow r \<Rightarrow> r)"

section \<open>Complete windows\<close>

text \<open>The operations of \<open>CompleteResponseWindow\<close>; \<open>next\<close> is its range of input for the next response.\<close>

definition queue_next_response_input ::
    "nat \<times> nat \<Rightarrow> PooledBuffer \<Rightarrow> ConnectionStream \<Rightarrow> ConnectionStream \<times> (ResponseTransferError + unit)" where
  "queue_next_response_input next buffer conn =
     (if fst next < initialized buffer then
        (case queue_pending_bytes_first conn (subrange (fst next) (snd next) (visible buffer)) of
           (conn', Inl e) \<Rightarrow> (conn', Err (TransferIo (PendingCause e)))
         | (conn', Inr _) \<Rightarrow> (conn', Ok ()))
      else (conn, Ok ()))"

definition queue_pooled_next_response_input ::
    "transfer_env \<Rightarrow> nat \<times> nat \<Rightarrow> PooledBuffer \<Rightarrow> ConnectionStream
       \<Rightarrow> PooledBuffer \<times> ConnectionStream \<times> (ResponseTransferError + unit)" where
  "queue_pooled_next_response_input E next io_buffer conn =
     (if fst next < initialized io_buffer then
        (case queue_pooled_pending_bytes_first conn io_buffer next of
           (conn', Inl e) \<Rightarrow> (pool_acquire E, conn', Err (TransferIo (PendingCause e)))
         | (conn', Inr _) \<Rightarrow> (pool_acquire E, conn', Ok ()))
      else (io_buffer, conn, Ok ()))"

definition write_response_chunk_preserving_suffix_on_error ::
    "transfer_env \<Rightarrow> 'w writer_api \<Rightarrow> 'w \<Rightarrow> PooledBuffer \<Rightarrow> ConnectionStream \<Rightarrow> nat \<times> nat \<Rightarrow> nat \<times> nat
       \<Rightarrow> 'w \<times> PooledBuffer \<times> ConnectionStream \<times> (ResponseTransferError + ResponseWriteStats)" where
  "write_response_chunk_preserving_suffix_on_error E W writer io_buffer conn resp next =
     (let chunk = subrange (fst resp) (snd resp) (visible io_buffer) in
      case write_all W writer chunk of
        (writer', Inl err) \<Rightarrow>
          (case queue_pooled_next_response_input E next io_buffer conn of
             (io_buffer', conn', cleanup) \<Rightarrow>
               (writer', io_buffer', conn', Err (from_client_write_after_cleanup err cleanup)))
      | (writer', Inr _) \<Rightarrow>
          (let stats = add_chunk (length chunk) stats_default in
           case queue_pooled_next_response_input E next io_buffer conn of
             (io_buffer', conn', Inl e) \<Rightarrow> (writer', io_buffer', conn', Err e)
           | (io_buffer', conn', Inr _) \<Rightarrow> (writer', io_buffer', conn', Ok stats)))"

text \<open>\<open>push_from_buffer\<close> replaces the buffer before anything can fail.\<close>

definition push_from_buffer ::
    "transfer_env \<Rightarrow> nat \<times> nat \<Rightarrow> nat \<times> nat \<Rightarrow> PooledBuffer \<Rightarrow> ConnectionStream \<Rightarrow> ChunkedResponse
       \<Rightarrow> PooledBuffer \<times> ConnectionStream \<times> ChunkedResponse \<times> (ResponseTransferError + unit)" where
  "push_from_buffer E resp next io_buffer conn captured =
     (let (conn', queued) =
            (if fst next < initialized io_buffer then
               (case queue_pending_bytes_first conn (subrange (fst next) (snd next) (visible io_buffer)) of
                  (c, Inl e) \<Rightarrow> (c, Err (TransferIo (PendingCause e)))
                | (c, Inr _) \<Rightarrow> (c, Ok ()))
             else (conn, Ok ()))
      in case queued of
           Inl e \<Rightarrow> (pool_acquire E, conn', captured, Err e)
         | Inr _ \<Rightarrow>
             (case push_buffer_range captured io_buffer resp of
                None \<Rightarrow> (pool_acquire E, conn', captured, Err (TransferIo Panicked))
              | Some captured' \<Rightarrow> (pool_acquire E, conn', captured', Ok ())))"

definition push_buffer_to ::
    "transfer_env \<Rightarrow> nat \<times> nat \<Rightarrow> ChunkedResponse \<Rightarrow> PooledBuffer \<Rightarrow> (ChunkedResponse \<times> PooledBuffer) option" where
  "push_buffer_to E resp captured buffer =
     map_option (\<lambda>captured'. (captured', pool_acquire E)) (push_buffer_range captured buffer resp)"

section \<open>Streaming\<close>

datatype ResponseShape = SingleLine | Multiline

record StreamingResponse =
  sr_cursor :: ResponseCursor
  sr_kind :: RequestKind
  sr_status :: StatusCode
  sr_status_line_end :: nat
  sr_shape :: ResponseShape
  sr_bytes_received :: nat

definition is_complete :: "StreamingResponse \<Rightarrow> bool" where
  "is_complete sr \<longleftrightarrow> (case cu_frame (sr_cursor sr) of CompleteWindow _ _ \<Rightarrow> True | IncompleteWindow _ \<Rightarrow> False)"

definition from_classification ::
    "transfer_env \<Rightarrow> RequestKind \<Rightarrow> ResponseReadError + ResponseFrame \<Rightarrow> PooledBuffer \<Rightarrow> ConnectionStream
       \<Rightarrow> ResponseTransferError + StreamingResponse" where
  "from_classification E kind classification io_buffer conn =
     (case classification of
        Inl e \<Rightarrow> Err (TransferIo (Unclassified e))
      | Inr (SingleLineFrame status status_line_end resp next) \<Rightarrow>
          Ok \<lparr>sr_cursor = \<lparr>cu_conn = conn, cu_io_buffer = io_buffer, cu_framer = framer_default,
                cu_frame = CompleteWindow resp next, cu_packed_policy = AllowIfStatusPrefix\<rparr>,
              sr_kind = kind, sr_status = status, sr_status_line_end = status_line_end,
              sr_shape = SingleLine, sr_bytes_received = initialized io_buffer\<rparr>
      | Inr (MultilineFrame status status_line_end) \<Rightarrow>
          (case cursor_begin_after_status_line E conn io_buffer status_line_end AllowIfStatusPrefix of
             Inl e \<Rightarrow> Err (TransferIo (FramingCause e))
           | Inr cursor \<Rightarrow>
               Ok \<lparr>sr_cursor = cursor, sr_kind = kind, sr_status = status,
                   sr_status_line_end = status_line_end, sr_shape = Multiline,
                   sr_bytes_received = initialized io_buffer\<rparr>))"

definition append_to_retained_prefix_if_writable ::
    "transfer_env \<Rightarrow> StreamingResponse \<Rightarrow> StreamingResponse \<times> (ResponseTransferError + unit)" where
  "append_to_retained_prefix_if_writable E sr =
     (let cu = sr_cursor sr in
      case cu_frame cu of
        CompleteWindow _ _ \<Rightarrow> (sr, Ok ())
      | IncompleteWindow _ \<Rightarrow>
          if \<not> retained_append_permit (cu_io_buffer cu) then (sr, Ok ())
          else (case permit_read stream_poll_read (cu_io_buffer cu) (cu_conn cu) of
                  (b, c, Inl e) \<Rightarrow>
                    (sr\<lparr>sr_cursor := cu\<lparr>cu_io_buffer := b, cu_conn := c\<rparr>\<rparr>, Err (TransferIo (ReadCause e)))
                | (b, c, Inr AppendEof) \<Rightarrow>
                    (sr\<lparr>sr_cursor := cu\<lparr>cu_io_buffer := b, cu_conn := c\<rparr>\<rparr>,
                     Err (TransferEof (te_backend_id E) (sr_bytes_received sr)))
                | (b, c, Inr (AppendData previous_len)) \<Rightarrow>
                    (let received = sr_bytes_received sr + length (drop previous_len (visible b)) in
                     case split_appended (te_memchr E) (te_target E) (cu_framer cu) (visible b) previous_len
                            (cu_packed_policy cu) of
                       (f, Inl e) \<Rightarrow>
                         (sr\<lparr>sr_cursor := cu\<lparr>cu_io_buffer := b, cu_conn := c, cu_framer := f\<rparr>,
                             sr_bytes_received := received\<rparr>, Err (TransferIo Panicked))
                     | (f, Inr w) \<Rightarrow>
                         (sr\<lparr>sr_cursor := cu\<lparr>cu_io_buffer := b, cu_conn := c, cu_framer := f, cu_frame := w\<rparr>,
                             sr_bytes_received := received\<rparr>, Ok ()))))"

definition read_next_chunk ::
    "transfer_env \<Rightarrow> StreamingResponse \<Rightarrow> StreamingResponse \<times> (ResponseTransferError + unit)" where
  "read_next_chunk E sr =
     (let cu = sr_cursor sr in
      case read_from stream_poll_read (cu_io_buffer cu) (cu_conn cu) of
        (b, c, Inl e) \<Rightarrow>
          (sr\<lparr>sr_cursor := cu\<lparr>cu_io_buffer := b, cu_conn := c\<rparr>\<rparr>, Err (TransferIo (ReadCause e)))
      | (b, c, Inr read) \<Rightarrow>
          (let cu = cu\<lparr>cu_io_buffer := b, cu_conn := c\<rparr> in
           if read = 0 then
             (sr\<lparr>sr_cursor := cu\<rparr>, Err (TransferEof (te_backend_id E) (sr_bytes_received sr)))
           else (case frame_next_chunk E cu of
                   (cu', Inl e) \<Rightarrow>
                     (sr\<lparr>sr_cursor := cu', sr_bytes_received := sr_bytes_received sr + read\<rparr>,
                      Err (TransferIo (FramingCause e)))
                 | (cu', Inr _) \<Rightarrow>
                     (sr\<lparr>sr_cursor := cu', sr_bytes_received := sr_bytes_received sr + read\<rparr>, Ok ()))))"

lemma read_next_chunk_measure:
  assumes "read_next_chunk E sr = (sr', Inr u)"
  shows "stream_measure (cu_conn (sr_cursor sr')) < stream_measure (cu_conn (sr_cursor sr))"
  using assms read_from_measure
  by (fastforce simp: read_next_chunk_def Let_def frame_next_chunk_def split: prod.splits sum.splits if_splits)

function drain :: "transfer_env \<Rightarrow> StreamingResponse \<Rightarrow> StreamingResponse \<times> (ResponseTransferError + unit)" where
  "drain E sr =
     (case cu_frame (sr_cursor sr) of
        CompleteWindow resp next \<Rightarrow>
          (case queue_next_response_input next (cu_io_buffer (sr_cursor sr)) (cu_conn (sr_cursor sr)) of
             (c, r) \<Rightarrow> (sr\<lparr>sr_cursor := (sr_cursor sr)\<lparr>cu_conn := c\<rparr>\<rparr>, r))
      | IncompleteWindow _ \<Rightarrow>
          (case read_next_chunk E sr of
             (sr', Inl e) \<Rightarrow> (sr', Err e)
           | (sr', Inr _) \<Rightarrow> drain E sr'))"
  by pat_completeness auto

termination drain
  by (relation "measure (\<lambda>(E, sr). stream_measure (cu_conn (sr_cursor sr)))")
     (auto dest: read_next_chunk_measure [OF sym])

declare drain.simps [simp del]

definition observe_stream ::
    "transfer_env \<Rightarrow> StreamingResponse \<Rightarrow> StreamingResponse \<times> (ResponseTransferError + unit)" where
  "observe_stream E sr =
     (case cu_frame (sr_cursor sr) of
        CompleteWindow resp next \<Rightarrow>
          (case queue_pooled_next_response_input E next (cu_io_buffer (sr_cursor sr)) (cu_conn (sr_cursor sr)) of
             (b, c, r) \<Rightarrow> (sr\<lparr>sr_cursor := (sr_cursor sr)\<lparr>cu_io_buffer := b, cu_conn := c\<rparr>\<rparr>, r))
      | IncompleteWindow _ \<Rightarrow> drain E sr)"

function write_current_and_remaining_chunks ::
    "transfer_env \<Rightarrow> 'w writer_api \<Rightarrow> 'w \<Rightarrow> ResponseWriteStats \<Rightarrow> StreamingResponse
       \<Rightarrow> 'w \<times> StreamingResponse \<times> (ResponseTransferError + ResponseWriteStats)" where
  "write_current_and_remaining_chunks E W writer stats sr =
     (let cu = sr_cursor sr in
      case cu_frame cu of
        CompleteWindow resp next \<Rightarrow>
          (case write_response_chunk_preserving_suffix_on_error E W writer (cu_io_buffer cu) (cu_conn cu) resp next of
             (writer', b, c, Inl e) \<Rightarrow>
               (writer', sr\<lparr>sr_cursor := cu\<lparr>cu_io_buffer := b, cu_conn := c\<rparr>\<rparr>, Err e)
           | (writer', b, c, Inr s) \<Rightarrow>
               (writer', sr\<lparr>sr_cursor := cu\<lparr>cu_io_buffer := b, cu_conn := c\<rparr>\<rparr>, Ok (add_assign stats s)))
      | IncompleteWindow resp \<Rightarrow>
          (let bs = subrange (fst resp) (snd resp) (visible (cu_io_buffer cu)) in
           case write_all W writer bs of
             (writer', Inl error) \<Rightarrow>
               (case drain E sr of
                  (sr', cleanup) \<Rightarrow> (writer', sr', Err (from_client_write_after_cleanup error cleanup)))
           | (writer', Inr _) \<Rightarrow>
               (let stats = add_chunk (length bs) stats in
                case read_next_chunk E sr of
                  (sr', Inl error) \<Rightarrow>
                    (writer', sr', Err (if ws_bytes_written stats > 0 then after_client_delivery error else error))
                | (sr', Inr _) \<Rightarrow> write_current_and_remaining_chunks E W writer' stats sr')))"
  by pat_completeness auto

termination write_current_and_remaining_chunks
  by (relation "measure (\<lambda>(E, W, writer, stats, sr). stream_measure (cu_conn (sr_cursor sr)))")
     (auto dest: read_next_chunk_measure [OF sym])

declare write_current_and_remaining_chunks.simps [simp del]

definition stream_write ::
    "transfer_env \<Rightarrow> 'w writer_api \<Rightarrow> 'w \<Rightarrow> StreamingResponse
       \<Rightarrow> 'w \<times> StreamingResponse \<times> (ResponseTransferError + ResponseWriteStats)" where
  "stream_write E W writer sr =
     (case append_to_retained_prefix_if_writable E sr of
        (sr', Inl e) \<Rightarrow> (writer, sr', Err e)
      | (sr', Inr _) \<Rightarrow> write_current_and_remaining_chunks E W writer stats_default sr')"

section \<open>Capturing while writing\<close>

definition capture_would_exceed_limit :: "nat \<Rightarrow> nat \<Rightarrow> nat \<Rightarrow> bool" where
  "capture_would_exceed_limit current_len next_len limit =
     isl (ensure_capture_len_with_limit (min (current_len + next_len) (2 ^ 64 - 1)) limit)"

text \<open>\<open>CapturedChunkedResponse\<close>: the bytes with the end of the part that the cache stores.\<close>

record CapturedChunkedResponse =
  cc_bytes :: ChunkedResponse
  cc_kind :: RequestKind
  cc_status :: StatusCode
  cc_status_line_end :: nat
  cc_content_end :: nat

definition captured_of :: "StreamingResponse \<Rightarrow> ChunkedResponse \<Rightarrow> CapturedChunkedResponse option" where
  "captured_of sr captured =
     (let payload_end =
        (case sr_shape sr of
           SingleLine \<Rightarrow> Some (cr_len captured)
         | Multiline \<Rightarrow>
             if cr_len captured < length DOT_TERMINATOR then None
             else Some (cr_len captured - length DOT_TERMINATOR))
      in case payload_end of
           None \<Rightarrow> None
         | Some e \<Rightarrow>
             if e > cr_len captured then None
             else Some \<lparr>cc_bytes = captured, cc_kind = sr_kind sr, cc_status = sr_status sr,
                        cc_status_line_end = sr_status_line_end sr, cc_content_end = e\<rparr>)"

definition finish_capture ::
    "transfer_env \<Rightarrow> 'w writer_api \<Rightarrow> 'w \<Rightarrow> ChunkedResponse \<Rightarrow> nat \<times> nat \<Rightarrow> nat \<times> nat \<Rightarrow> StreamingResponse
       \<Rightarrow> 'w \<times> StreamingResponse \<times> (ResponseTransferError + (nat \<times> CapturedChunkedResponse option))" where
  "finish_capture E W writer captured resp next sr =
     (let cu = sr_cursor sr in
      case push_from_buffer E resp next (cu_io_buffer cu) (cu_conn cu) captured of
        (b, c, captured', Inl e) \<Rightarrow>
          (writer, sr\<lparr>sr_cursor := cu\<lparr>cu_io_buffer := b, cu_conn := c\<rparr>\<rparr>, Err e)
      | (b, c, captured', Inr _) \<Rightarrow>
          (let sr = sr\<lparr>sr_cursor := cu\<lparr>cu_io_buffer := b, cu_conn := c\<rparr>\<rparr>;
               stats = add_buffered_response captured' stats_default
           in case write_all_to_recording W captured' writer of
                (writer', Inl e) \<Rightarrow> (writer', sr, Err (from_client_write e))
              | (writer', Inr _) \<Rightarrow>
                  (case captured_of sr captured' of
                     None \<Rightarrow> (writer', sr, Err (TransferIo Panicked))
                   | Some cap \<Rightarrow> (writer', sr, Ok (ws_bytes_written stats, Some cap)))))"

function capture_loop ::
    "transfer_env \<Rightarrow> 'w writer_api \<Rightarrow> nat \<Rightarrow> 'w \<Rightarrow> ChunkedResponse \<Rightarrow> StreamingResponse
       \<Rightarrow> 'w \<times> StreamingResponse \<times> (ResponseTransferError + (nat \<times> CapturedChunkedResponse option))" where
  "capture_loop E W retention_limit writer captured sr =
     (let cu = sr_cursor sr;
          resp = window_response (cu_frame cu);
          exceeds_limit =
            (case sr_shape sr of
               SingleLine \<Rightarrow> False
             | Multiline \<Rightarrow>
                 capture_would_exceed_limit (cr_len captured) (snd resp - fst resp) retention_limit)
      in if exceeds_limit then
           (let stats = add_buffered_response captured stats_default in
            case write_all_to_recording W captured writer of
              (writer', Inl error) \<Rightarrow>
                (case observe_stream E sr of
                   (sr', cleanup) \<Rightarrow> (writer', sr', Err (from_client_write_after_cleanup error cleanup)))
            | (writer', Inr _) \<Rightarrow>
                (case write_current_and_remaining_chunks E W writer' stats_default sr of
                   (writer'', sr', Inl e) \<Rightarrow> (writer'', sr', Err e)
                 | (writer'', sr', Inr s) \<Rightarrow>
                     (writer'', sr', Ok (ws_bytes_written (add_assign stats s), None))))
         else case cu_frame cu of
                CompleteWindow resp next \<Rightarrow> finish_capture E W writer captured resp next sr
              | IncompleteWindow resp \<Rightarrow>
                  (case push_buffer_to E resp captured (cu_io_buffer cu) of
                     None \<Rightarrow> (writer, sr, Err (TransferIo Panicked))
                   | Some (captured', b) \<Rightarrow>
                       (case read_next_chunk E (sr\<lparr>sr_cursor := cu\<lparr>cu_io_buffer := b\<rparr>\<rparr>) of
                          (sr', Inl e) \<Rightarrow> (writer, sr', Err e)
                        | (sr', Inr _) \<Rightarrow> capture_loop E W retention_limit writer captured' sr')))"
  by pat_completeness auto

lemma read_next_chunk_measure_buffer:
  assumes "read_next_chunk E (sr\<lparr>sr_cursor := (sr_cursor sr)\<lparr>cu_io_buffer := b\<rparr>\<rparr>) = (sr', Inr u)"
  shows "stream_measure (cu_conn (sr_cursor sr')) < stream_measure (cu_conn (sr_cursor sr))"
  using read_next_chunk_measure [OF assms] by simp

termination capture_loop
  by (relation "measure (\<lambda>(E, W, limit, writer, captured, sr). stream_measure (cu_conn (sr_cursor sr)))")
     (auto dest: read_next_chunk_measure_buffer [OF sym])

declare capture_loop.simps [simp del]

definition stream_capture_and_write ::
    "transfer_env \<Rightarrow> 'w writer_api \<Rightarrow> nat \<Rightarrow> 'w \<Rightarrow> ChunkedResponse \<Rightarrow> StreamingResponse
       \<Rightarrow> 'w \<times> StreamingResponse \<times> (ResponseTransferError + (nat \<times> CapturedChunkedResponse option))" where
  "stream_capture_and_write E W retention_limit writer captured sr =
     capture_loop E W retention_limit writer (chunked_clear captured) sr"

section \<open>Receiving\<close>

text \<open>
  \<open>Receiving\<close>: the classified response on its guard. \<open>stream\<close> uses the connection, so the guard is in
  flight until the response is marked complete; \<open>put_back\<close> is the end of the borrow.
\<close>

definition put_back :: "ConnectionGuard \<Rightarrow> ResponseCursor \<Rightarrow> ConnectionGuard" where
  "put_back g cu = g\<lparr>cg_conn := cu_conn cu\<rparr>"

definition mark_if :: "bool \<Rightarrow> ConnectionGuard \<Rightarrow> ConnectionGuard" where
  "mark_if completed g =
     (if completed then (case mark_response_complete g of Some g' \<Rightarrow> g' | None \<Rightarrow> g) else g)"

definition receiving_stream ::
    "transfer_env \<Rightarrow> ConnectionGuard \<Rightarrow> ClassifiedResponse \<Rightarrow> ConnectionGuard \<times> (ResponseTransferError + StreamingResponse)" where
  "receiving_stream E g resp =
     (let g = stream_mut g
      in (g, from_classification E (cl_kind resp) (cl_frame resp) (cl_buffer resp) (cg_conn g)))"

definition receiving_write ::
    "transfer_env \<Rightarrow> 'w writer_api \<Rightarrow> 'w \<Rightarrow> ConnectionGuard \<Rightarrow> ClassifiedResponse
       \<Rightarrow> 'w \<times> ConnectionGuard \<times> (ResponseTransferError + nat)" where
  "receiving_write E W writer g resp =
     (case receiving_stream E g resp of
        (g, Inl e) \<Rightarrow> (writer, g, Err e)
      | (g, Inr sr) \<Rightarrow>
          (case stream_write E W writer sr of
             (writer', sr', result) \<Rightarrow>
               (writer', mark_if (is_complete sr') (put_back g (sr_cursor sr')),
                map_sum id ws_bytes_written result)))"

definition receiving_observe ::
    "transfer_env \<Rightarrow> ConnectionGuard \<Rightarrow> ClassifiedResponse \<Rightarrow> ConnectionGuard \<times> (ResponseTransferError + unit)" where
  "receiving_observe E g resp =
     (case receiving_stream E g resp of
        (g, Inl e) \<Rightarrow> (g, Err e)
      | (g, Inr sr) \<Rightarrow>
          (case observe_stream E sr of
             (sr', Inl e) \<Rightarrow> (put_back g (sr_cursor sr'), Err e)
           | (sr', Inr _) \<Rightarrow> (mark_if True (put_back g (sr_cursor sr')), Ok ())))"

definition receiving_capture_and_write ::
    "transfer_env \<Rightarrow> 'w writer_api \<Rightarrow> 'w \<Rightarrow> ChunkedResponse \<Rightarrow> ConnectionGuard \<Rightarrow> ClassifiedResponse
       \<Rightarrow> 'w \<times> ConnectionGuard \<times> (ResponseTransferError + (nat \<times> CapturedChunkedResponse option))" where
  "receiving_capture_and_write E W writer captured g resp =
     (case receiving_stream E g resp of
        (g, Inl e) \<Rightarrow> (writer, g, Err e)
      | (g, Inr sr) \<Rightarrow>
          (case stream_capture_and_write E W MAX_CAPTURED_MULTILINE_RESPONSE_BYTES writer captured sr of
             (writer', sr', result) \<Rightarrow>
               (writer', mark_if (is_complete sr') (put_back g (sr_cursor sr')), result)))"


section \<open>Framing one response of a stream\<close>

declare length_as_slice [simp del]

lemma append_split:
  assumes "xs @ ys = zs @ ws" "length xs \<le> length zs"
  obtains us where "zs = xs @ us" "ys = us @ ws"
proof -
  have "take (length xs) (zs @ ws) = xs" "drop (length xs) (zs @ ws) = ys" using assms(1) by (metis append_eq_conv_conj)+
  then have "zs = xs @ drop (length xs) zs" "ys = drop (length xs) zs @ ws"
    using assms(2) append_take_drop_id [of "length xs" zs] by simp_all
  then show ?thesis using that by blast
qed

text \<open>
  The bytes \<open>N\<close> that may follow a response: nothing, or the status line of the next one, of which the
  framer may see any prefix.
\<close>

definition next_input_ok :: "memchr_api \<Rightarrow> bytes \<Rightarrow> bool" where
  "next_input_ok M N \<longleftrightarrow> (\<forall>k. plausible_status_prefix M (take k N))"

text \<open>\<open>R\<close> is one multiline response: its only terminator is at its end.\<close>

definition one_response :: "bytes \<Rightarrow> bool" where
  "one_response R \<longleftrightarrow> first_term_end R = Some (length R)"

lemma one_response_term_ends:
  assumes "one_response R" "e < length R"
  shows "\<not> term_end (R @ q) e"
  using first_term_end_append [of R "length R" q] assms
  by (auto simp: one_response_def first_term_end_Some_iff)

lemma one_response_prefix:
  assumes "one_response R" "S @ x = R @ N" "length S < length R"
  shows "first_term_end S = None"
  using one_response_term_ends [OF assms(1), of _ N] assms(2,3) term_end_prefix [of S _ x]
  unfolding first_term_end_None_iff by (metis le_less_trans term_end_def)

context memchr_lib
begin

lemma split_chunk_response:
  assumes seen: "framer_seen f S" "first_term_end S = None"
    and data: "S @ c @ rest = R @ N" "one_response R" "next_input_ok M N"
    and len: "length R \<le> length S + length c"
  shows "split_chunk M t f c AllowIfStatusPrefix = (f, Ok (Complete (length R - length S)))"
proof -
  define k where "k = length R - length S"
  have SR: "length S < length R"
  proof (rule ccontr)
    assume "\<not> length S < length R"
    then obtain q where "S = R @ q" using data(1) by (auto simp: append_eq_append_conv2)
    then show False using seen(2) data(2) first_term_end_append [of R "length R" q] by (simp add: one_response_def)
  qed
  then obtain r where r: "R = S @ r" "c @ rest = r @ N" using data(1) by (auto simp: append_eq_append_conv2)
  have kr: "k = length r" using r(1) by (simp add: k_def)
  obtain n where n: "c = r @ n" "N = n @ rest" using r len by (auto simp: append_eq_append_conv2)
  have plaus: "plausible_status_prefix M n"
    using data(3) n(2) unfolding next_input_ok_def by (metis append_eq_conv_conj)
  have Sc: "S @ c = R @ n" using r n by simp
  have first: "first_term_end (S @ c) = Some (length S + k)"
    using first_term_end_append [of R "length R" n] data(2) Sc k_def SR by (simp add: one_response_def)
  have at_k: "ends_at S c k" using first kr n by (simp add: ends_at_term_end first_term_end_Some_iff)
  have before: "\<not> ends_at S c j" if "j < k" for j
    using first that by (simp add: ends_at_term_end first_term_end_Some_iff)
  have k0: "0 < k" using SR k_def by simp
  show ?thesis
  proof (cases "k \<le> 4")
    case True
    have "\<not> ends_at S c (k + 3)"
    proof
      assume "ends_at S c (k + 3)"
      then have "term_end (R @ n) (length R)" "term_end (R @ n) (length R + 3)"
        using at_k Sc k_def SR by (simp_all add: ends_at_term_end add.assoc [symmetric])
      then have "prefix (TERMINATOR @ [DOT, CR, LF]) (drop (length R - 5) R @ n)"
        using overlapping_ends by fastforce
      moreover have "5 \<le> length R" using data(2) by (auto simp: one_response_def first_term_end_def)
      ultimately have "prefix [DOT, CR, LF] n"
        using append_eq_append_conv [of "drop (length R - 5) R" TERMINATOR n]
        by (auto simp: prefix_def TERMINATOR_def)
      then show False using plaus by (auto simp: prefix_def plausible_status_prefix_def)
    qed
    then have after: "\<not> ends_at S c j" if "k < j" "j \<le> 4" for j
      using ends_at_gap [OF at_k _ that(1)] that by auto
    have "find_spanning_terminator f c = Some k"
      using True k0 before after at_k unfolding find_spanning_terminator_ends [OF seen(1)]
      by (cases "k = 1"; cases "k = 2"; cases "k = 3"; cases "k = 4") (auto simp: before after)
    then show ?thesis using plaus n kr k_def by (simp add: split_chunk_def)
  next
    case False
    have "find_spanning_terminator f c = None"
      unfolding find_spanning_terminator_ends [OF seen(1)] using before False by auto
    moreover have "first_term_end c = Some k"
      using at_k before False ends_at_in_chunk [of k S c] ends_at_in_chunk [of _ S c]
      by (auto simp: first_term_end_Some_iff term_end_iff)
    then obtain es where "terminator_ends_in_chunk M t c = k # es"
      using terminator_ends_hd [of t c] by (auto split: list.splits)
    ultimately show ?thesis using plaus n kr k_def by (simp add: split_chunk_def)
  qed
qed

lemma split_chunk_incomplete:
  assumes seen: "framer_seen f S" and none: "first_term_end (S @ c) = None"
  shows "split_chunk M t f c p = (framer_update f c, Ok Incomplete)"
proof -
  have e: "\<not> ends_at S c j" for j using none by (simp add: ends_at_term_end first_term_end_None_iff)
  have "find_spanning_terminator f c = None" unfolding find_spanning_terminator_ends [OF seen] using e by simp
  moreover have "first_term_end c = None"
    using e ends_at_in_chunk [of _ S c] by (auto simp: first_term_end_None_iff term_end_iff)
  then have "terminator_ends_in_chunk M t c = []" using terminator_ends_hd [of t c] by (auto split: list.splits)
  ultimately show ?thesis by (simp add: split_chunk_def)
qed

end
section \<open>The invariant of a transfer\<close>

text \<open>
  \<open>S\<close> is what the transfer has passed on, \<open>R\<close> the response and \<open>N\<close> what follows it. A complete window
  holds the rest of the response; an incomplete one holds a part of it that the framer has seen.
\<close>

abbreviation sr_conn :: "StreamingResponse \<Rightarrow> ConnectionStream" where
  "sr_conn sr \<equiv> cu_conn (sr_cursor sr)"

abbreviation sr_window :: "StreamingResponse \<Rightarrow> bytes" where
  "sr_window sr \<equiv> visible (cu_io_buffer (sr_cursor sr))"

definition window_ok :: "bytes \<Rightarrow> bytes \<Rightarrow> bytes \<Rightarrow> MultilineFramer \<Rightarrow> ResponseWindow \<Rightarrow> bool" where
  "window_ok S V R f w \<longleftrightarrow>
     (case w of
        CompleteWindow r n \<Rightarrow>
          r = (0, length R - length S) \<and> n = (length R - length S, length V) \<and>
          length S \<le> length R \<and> length R \<le> length S + length V
      | IncompleteWindow r \<Rightarrow>
          r = (0, length V) \<and> framer_seen f (S @ V) \<and> length S + length V < length R)"

definition resp_inv :: "transfer_env \<Rightarrow> StreamingResponse \<Rightarrow> bytes \<Rightarrow> bytes \<Rightarrow> bytes \<Rightarrow> bool" where
  "resp_inv E sr S R N \<longleftrightarrow>
     stream_wf (sr_conn sr) \<and> buffer_wf (cu_io_buffer (sr_cursor sr)) \<and>
     S @ sr_window sr @ stream_input (sr_conn sr) = R @ N \<and>
     cu_packed_policy (sr_cursor sr) = AllowIfStatusPrefix \<and>
     (sr_shape sr = Multiline \<longrightarrow> one_response R) \<and>
     window_ok S (sr_window sr) R (cu_framer (sr_cursor sr)) (cu_frame (sr_cursor sr)) \<and>
     (\<not> is_complete sr \<longrightarrow> sr_window sr \<noteq> [] \<and> one_response R \<and> next_input_ok (te_memchr E) N)"

lemma window_ok_simps [simp]:
  "window_ok S V R f (CompleteWindow r n) \<longleftrightarrow>
     r = (0, length R - length S) \<and> n = (length R - length S, length V) \<and>
     length S \<le> length R \<and> length R \<le> length S + length V"
  "window_ok S V R f (IncompleteWindow r) \<longleftrightarrow>
     r = (0, length V) \<and> framer_seen f (S @ V) \<and> length S + length V < length R"
  by (simp_all add: window_ok_def)

text \<open>The errors that forbid another response on the client's stream.\<close>

definition stops :: "ResponseTransferError \<Rightarrow> bool" where
  "stops e \<longleftrightarrow> (case e of TransferEof _ _ \<Rightarrow> False | TransferIo _ \<Rightarrow> False | _ \<Rightarrow> True)"

text \<open>The errors after which a complete response may leave the connection reusable.\<close>

definition client_side :: "ResponseTransferError \<Rightarrow> bool" where
  "client_side e \<longleftrightarrow> (case e of ClientDisconnect _ \<Rightarrow> True | ClientWrite _ \<Rightarrow> True | _ \<Rightarrow> False)"

lemma stops_simps [simp]:
  "stops (from_client_write e)" "stops (from_client_write_after_cleanup e c)" "stops (after_client_delivery x)"
  "\<not> stops (TransferEof b n)" "\<not> stops (TransferIo c')" "\<not> client_side (after_client_delivery (TransferIo c'))"
  "\<not> client_side (after_client_delivery (TransferEof b n))" "\<not> client_side (TransferEof b n)" "\<not> client_side (TransferIo c')"
  "\<not> client_side (from_client_write_after_cleanup e (Inl x))"
  by (auto simp: stops_def client_side_def from_client_write_def from_client_write_after_cleanup_def
      after_client_delivery_def split: sum.splits ResponseTransferError.splits)

lemma complete_window_rest:
  assumes "S @ V @ D = R @ N" "length S \<le> length R" "length R \<le> length S + length V"
  shows "take (length R - length S) V = drop (length S) R" "drop (length R - length S) V @ D = N"
proof -
  obtain r where r: "R = S @ r" "V @ D = r @ N" using append_split [OF assms(1,2)] by blast
  then obtain n where "V = r @ n" "N = n @ D" using append_split [of r N V D] assms(3) by auto
  then show "take (length R - length S) V = drop (length S) R" "drop (length R - length S) V @ D = N"
    using r by simp_all
qed

context memchr_lib
begin

text \<open>Framing the window that was read after \<open>S\<close>.\<close>

lemma frame_window:
  assumes "framer_seen f (S @ P)" "length (S @ P) < length R" "S @ P @ c @ rest = R @ N" "one_response R"
    "next_input_ok M N" "split_chunk M t f c AllowIfStatusPrefix = (f', r)"
  shows "\<exists>p. r = Inr p \<and> window_ok S (P @ c) R f' (in_window p (length P) (length P + length c))"
proof (cases "length R \<le> length (S @ P) + length c")
  case True
  have none: "first_term_end (S @ P) = None"
    using one_response_prefix [OF assms(4), of "S @ P" "c @ rest" N] assms(2,3) by simp
  have "split_chunk M t f c AllowIfStatusPrefix = (f, Ok (Complete (length R - length (S @ P))))"
    by (rule split_chunk_response [OF assms(1) none _ assms(4,5) True, of rest]) (use assms(3) in simp)
  then show ?thesis using assms(2,6) True by (auto simp: in_window_def Let_def)
next
  case False
  then have "first_term_end ((S @ P) @ c) = None"
    using one_response_prefix [OF assms(4), of "(S @ P) @ c" rest N] assms(3) by simp
  from split_chunk_incomplete [OF assms(1) this] assms(6)
  have "f' = framer_update f c" "r = Inr Incomplete" by auto
  then show ?thesis using framer_seen_update [OF assms(1), of c] False by (auto simp: in_window_def)
qed

end

text \<open>Between two windows: the framer has seen \<open>S\<close>, and the rest of the response is still to be read.\<close>

definition resp_between :: "transfer_env \<Rightarrow> StreamingResponse \<Rightarrow> bytes \<Rightarrow> bytes \<Rightarrow> bytes \<Rightarrow> bool" where
  "resp_between E sr S R N \<longleftrightarrow>
     stream_wf (sr_conn sr) \<and> S @ stream_input (sr_conn sr) = R @ N \<and>
     cu_packed_policy (sr_cursor sr) = AllowIfStatusPrefix \<and> framer_seen (cu_framer (sr_cursor sr)) S \<and>
     length S < length R \<and> one_response R \<and> next_input_ok (te_memchr E) N \<and> \<not> is_complete sr"

lemma resp_inv_between:
  assumes "resp_inv E sr S R N" "cu_frame (sr_cursor sr) = IncompleteWindow r"
  shows "resp_between E sr (S @ sr_window sr) R N"
  using assms by (simp add: resp_inv_def resp_between_def is_complete_def)

text \<open>What an operation keeps of the description of the response.\<close>

definition same_response :: "StreamingResponse \<Rightarrow> StreamingResponse \<Rightarrow> bool" where
  "same_response sr sr' \<longleftrightarrow> sr_kind sr' = sr_kind sr \<and> sr_status sr' = sr_status sr \<and>
     sr_status_line_end sr' = sr_status_line_end sr \<and> sr_shape sr' = sr_shape sr"

lemma same_response_trans: "same_response a b \<Longrightarrow> same_response b c \<Longrightarrow> same_response a c"
  by (simp add: same_response_def)

context memchr_lib
begin

lemma read_next_chunk_spec:
  assumes "read_next_chunk E sr = (sr', res)" "resp_between E sr S R N" "te_memchr E = M"
  shows "stream_wf (sr_conn sr') \<and> same_response sr sr' \<and>
    (case res of
       Inl e \<Rightarrow> \<not> is_complete sr' \<and> \<not> stops e
     | Inr u \<Rightarrow> resp_inv E sr' S R N)"
proof -
  let ?cu = "sr_cursor sr"
  obtain b c q where q: "read_from stream_poll_read (cu_io_buffer ?cu) (cu_conn ?cu) = (b, c, q)"
    by (metis prod_cases3)
  have B: "stream_wf (cu_conn ?cu)" "S @ stream_input (cu_conn ?cu) = R @ N" "framer_seen (cu_framer ?cu) S"
    "length S < length R" "one_response R" "next_input_ok M N" "cu_packed_policy ?cu = AllowIfStatusPrefix"
    "\<not> is_complete sr"
    using assms(2,3) by (auto simp: resp_between_def)
  note rd = conn.read_from_spec [OF q B(1)]
  show ?thesis
  proof (cases "\<exists>k. q = Inr k \<and> k \<noteq> 0")
    case False
    then show ?thesis using assms(1) q rd B(8)
      by (cases q) (auto simp: read_next_chunk_def Let_def is_complete_def same_response_def)
  next
    case True
    then have V: "visible b \<noteq> []" "stream_input (cu_conn ?cu) = visible b @ stream_input c"
      "stream_wf c" "buffer_wf b" using rd by auto
    obtain f' r where f': "split_chunk M (te_target E) (cu_framer ?cu) (visible b) AllowIfStatusPrefix = (f', r)"
      by fastforce
    obtain p where p: "r = Inr p" "window_ok S (visible b) R f' (in_window p 0 (length (visible b)))"
      using frame_window [of "cu_framer ?cu" S "[]" R "visible b" "stream_input c" N "te_target E" f' r] f' B V(2)
      by auto
    have fw: "frame_with_policy M (te_target E) (cu_framer ?cu) (visible b) AllowIfStatusPrefix =
        (f', Inr (in_window p 0 (length (visible b))))"
      using f' p(1) by (simp add: frame_with_policy_def)
    have sr': "\<exists>n. sr' = sr\<lparr>sr_cursor := ?cu\<lparr>cu_io_buffer := b, cu_conn := c, cu_framer := f',
        cu_frame := in_window p 0 (length (visible b))\<rparr>, sr_bytes_received := n\<rparr> \<and> res = Inr ()"
      using assms(1,3) q True B(7) fw by (auto simp: read_next_chunk_def Let_def frame_next_chunk_def)
    then show ?thesis using V B p(2)
      by (auto simp: resp_inv_def same_response_def assms(3))
  qed
qed

lemma append_to_retained_spec:
  assumes "append_to_retained_prefix_if_writable E sr = (sr', res)" "resp_inv E sr S R N" "te_memchr E = M"
  shows "stream_wf (sr_conn sr') \<and> same_response sr sr' \<and>
    (case res of
       Inl e \<Rightarrow> \<not> is_complete sr' \<and> \<not> stops e
     | Inr u \<Rightarrow> resp_inv E sr' S R N)"
proof (cases "\<exists>w. cu_frame (sr_cursor sr) = IncompleteWindow w \<and> retained_append_permit (cu_io_buffer (sr_cursor sr))")
  case False
  then have "sr' = sr" "res = Inr ()"
    using assms(1) by (auto simp: append_to_retained_prefix_if_writable_def Let_def split: ResponseWindow.splits if_splits)
  then show ?thesis using assms(2) by (simp add: resp_inv_def same_response_def)
next
  case True
  let ?cu = "sr_cursor sr" and ?V = "sr_window sr"
  obtain w where w: "cu_frame ?cu = IncompleteWindow w" using True by blast
  have B: "stream_wf (cu_conn ?cu)" "buffer_wf (cu_io_buffer ?cu)" "S @ ?V @ stream_input (cu_conn ?cu) = R @ N"
    "framer_seen (cu_framer ?cu) (S @ ?V)" "length S + length ?V < length R" "one_response R" "next_input_ok M N"
    "cu_packed_policy ?cu = AllowIfStatusPrefix" "?V \<noteq> []"
    using assms(2,3) w by (auto simp: resp_inv_def is_complete_def)
  obtain b c q where q: "permit_read stream_poll_read (cu_io_buffer ?cu) (cu_conn ?cu) = (b, c, q)"
    by (metis prod_cases3)
  note rd = conn.permit_read_spec [OF q B(2,1)]
  show ?thesis
  proof (cases "\<exists>k. q = Inr (AppendData k)")
    case False
    then show ?thesis using assms(1) q rd w True
      by (auto simp: append_to_retained_prefix_if_writable_def Let_def is_complete_def same_response_def
          split: sum.splits AppendOutcome.splits)
  next
    case True
    then obtain bs where V: "q = Inr (AppendData (length ?V))" "bs \<noteq> []" "visible b = ?V @ bs"
      "stream_input (cu_conn ?cu) = bs @ stream_input c" "stream_wf c" "buffer_wf b" using rd by auto
    obtain f' r where f': "split_chunk M (te_target E) (cu_framer ?cu) bs AllowIfStatusPrefix = (f', r)" by fastforce
    obtain p where p: "r = Inr p"
      "window_ok S (?V @ bs) R f' (in_window p (length ?V) (length ?V + length bs))"
      using frame_window [OF B(4), of R bs "stream_input c" N "te_target E" f' r] f' B V(4) by auto
    have sa: "split_appended M (te_target E) (cu_framer ?cu) (visible b) (length ?V) AllowIfStatusPrefix =
        (f', Inr (in_window p (length ?V) (length ?V + length bs)))"
      using f' p(1) V(3) by (simp add: split_appended_def)
    have "\<exists>n. sr' = sr\<lparr>sr_cursor := ?cu\<lparr>cu_io_buffer := b, cu_conn := c, cu_framer := f',
        cu_frame := in_window p (length ?V) (length ?V + length bs)\<rparr>, sr_bytes_received := n\<rparr> \<and> res = Inr ()"
      using assms(1,3) q V(1) B(8) sa w \<open>\<exists>w. cu_frame ?cu = IncompleteWindow w \<and> retained_append_permit (cu_io_buffer ?cu)\<close>
      by (auto simp: append_to_retained_prefix_if_writable_def Let_def)
    then show ?thesis using V B p(2)
      by (auto simp: resp_inv_def same_response_def assms(3))
  qed
qed

end

section \<open>Keeping the input of the next response\<close>

lemma subrange_rest [simp]: "subrange k (length xs) xs = drop k xs"
  by (simp add: subrange_def)

lemma subrange_front [simp]: "subrange 0 k xs = take k xs"
  by (simp add: subrange_def)

lemma queue_next_response_input_spec:
  assumes "queue_next_response_input (k, length (visible b)) b c = (c', r)" "stream_wf c"
  shows "stream_wf c'" "r = Inr () \<Longrightarrow> stream_input c' = drop k (visible b) @ stream_input c"
    "r = Inl e \<Longrightarrow> \<not> stops e"
proof -
  obtain c1 q where q: "queue_pending_bytes_first c (drop k (visible b)) = (c1, q)" by fastforce
  have "stream_wf c' \<and> (r = Inr () \<longrightarrow> stream_input c' = drop k (visible b) @ stream_input c) \<and>
      (r = Inl e \<longrightarrow> \<not> stops e)"
  proof (cases "k < initialized b")
    case False
    then show ?thesis using assms by (auto simp: queue_next_response_input_def length_visible)
  next
    case True
    then show ?thesis
      using assms q queue_first_Ok [of c "drop k (visible b)" c1] queue_first_Err [of c "drop k (visible b)" c1]
      by (cases q) (auto simp: queue_next_response_input_def stream_input_def)
  qed
  then show "stream_wf c'" "r = Inr () \<Longrightarrow> stream_input c' = drop k (visible b) @ stream_input c"
    "r = Inl e \<Longrightarrow> \<not> stops e" by blast+
qed

lemma queue_pooled_next_spec:
  assumes "stream_wf c" "buffer_wf b" "k \<le> length (visible b)"
  obtains b' c' where "queue_pooled_next_response_input E (k, length (visible b)) b c = (b', c', Inr ())"
    "stream_wf c'" "stream_input c' = drop k (visible b) @ stream_input c"
proof (cases "k < initialized b")
  case False
  then show ?thesis using that assms by (auto simp: queue_pooled_next_response_input_def length_visible)
next
  case True
  have "length (visible b) \<le> initialized b" by (simp add: length_visible)
  then obtain c' where c': "queue_pooled_pending_bytes_first c b (k, length (visible b)) = (c', Inr ())" "stream_wf c'"
    "pending_input c' = subrange k (length (visible b)) (visible b) @ pending_input c"
    "cs_transport c' = cs_transport c"
    by (rule queue_pooled_Ok [OF assms])
  have "queue_pooled_next_response_input E (k, length (visible b)) b c = (pool_acquire E, c', Inr ())"
    using True c'(1) by (simp add: queue_pooled_next_response_input_def)
  then show ?thesis by (rule that) (use c' in \<open>simp_all add: stream_input_def\<close>)
qed

context memchr_lib
begin

lemma resp_inv_complete:
  assumes "resp_inv E sr S R N" "cu_frame (sr_cursor sr) = CompleteWindow r n"
  shows "r = (0, length R - length S)" "n = (length R - length S, length (sr_window sr))"
    "length R - length S \<le> length (sr_window sr)"
    "take (length R - length S) (sr_window sr) = drop (length S) R"
    "drop (length R - length S) (sr_window sr) @ stream_input (sr_conn sr) = N"
    "stream_wf (sr_conn sr)" "buffer_wf (cu_io_buffer (sr_cursor sr))" "is_complete sr" "length S \<le> length R"
  using assms complete_window_rest [of S "sr_window sr" "stream_input (sr_conn sr)" R N]
  by (auto simp: resp_inv_def is_complete_def)

lemma drain_spec:
  assumes "drain E sr = (sr', res)" "resp_inv E sr S R N" "te_memchr E = M"
  shows "stream_wf (sr_conn sr') \<and> same_response sr sr' \<and>
    (case res of Inl e \<Rightarrow> \<not> stops e | Inr u \<Rightarrow> is_complete sr' \<and> stream_input (sr_conn sr') = N)"
  using assms
proof (induction E sr arbitrary: sr' res S rule: drain.induct)
  case (1 E sr)
  show ?case
  proof (cases "cu_frame (sr_cursor sr)")
    case (CompleteWindow r n)
    note c = resp_inv_complete [OF "1.prems"(2) CompleteWindow]
    obtain c' q where q: "queue_next_response_input n (cu_io_buffer (sr_cursor sr)) (sr_conn sr) = (c', q)"
      by fastforce
    have "sr' = sr\<lparr>sr_cursor := (sr_cursor sr)\<lparr>cu_conn := c'\<rparr>\<rparr>" "res = q"
      using "1.prems"(1) CompleteWindow q by (simp_all add: drain.simps [of E sr])
    then show ?thesis using queue_next_response_input_spec [OF q [unfolded c(2)] c(6)] c(5) CompleteWindow
      by (auto simp: is_complete_def same_response_def split: sum.splits)
  next
    case (IncompleteWindow r)
    note bt = resp_inv_between [OF "1.prems"(2) IncompleteWindow]
    obtain s1 q where q: "read_next_chunk E sr = (s1, q)" by fastforce
    note rd = read_next_chunk_spec [OF q bt "1.prems"(3)]
    show ?thesis
    proof (cases q)
      case (Inl e)
      then show ?thesis using "1.prems"(1) IncompleteWindow q rd by (auto simp: drain.simps [of E sr])
    next
      case (Inr u)
      then have "drain E s1 = (sr', res)" "resp_inv E s1 (S @ sr_window sr) R N" "same_response sr s1"
        using "1.prems"(1) IncompleteWindow q rd by (auto simp: drain.simps [of E sr])
      from "1.IH" [OF IncompleteWindow q [symmetric] Inr this(1,2) "1.prems"(3)] this(3)
      show ?thesis using same_response_trans [of sr s1 sr'] by simp
    qed
  qed
qed

lemma observe_stream_spec:
  assumes "observe_stream E sr = (sr', res)" "resp_inv E sr S R N" "te_memchr E = M"
  shows "stream_wf (sr_conn sr') \<and> same_response sr sr' \<and>
    (case res of Inl e \<Rightarrow> \<not> stops e | Inr u \<Rightarrow> is_complete sr' \<and> stream_input (sr_conn sr') = N)"
proof (cases "cu_frame (sr_cursor sr)")
  case (CompleteWindow r n)
  note c = resp_inv_complete [OF assms(2) CompleteWindow]
  obtain b' c' where q: "queue_pooled_next_response_input E n (cu_io_buffer (sr_cursor sr)) (sr_conn sr) = (b', c', Inr ())"
    "stream_wf c'" "stream_input c' = N"
    using queue_pooled_next_spec [OF c(6,7,3), of E] unfolding c(2) c(5) by metis
  then show ?thesis using assms(1) CompleteWindow
    by (auto simp: observe_stream_def is_complete_def same_response_def)
next
  case (IncompleteWindow r)
  then show ?thesis using drain_spec [OF _ assms(2,3)] assms(1) by (simp add: observe_stream_def)
qed

end

section \<open>Writing the response\<close>

text \<open>
  What a transfer that has passed on \<open>S\<close> promises: it sends a prefix \<open>p\<close> of the rest; on success all of
  it, and what follows is kept; on an error that a complete response may survive, what follows is kept.
\<close>

definition kept :: "StreamingResponse \<Rightarrow> bytes \<Rightarrow> bool" where
  "kept sr N \<longleftrightarrow> is_complete sr \<and> stream_input (sr_conn sr) = N"

lemma write_complete_spec:
  assumes W: "writer_lib W" and inv: "memchr_lib M" "resp_inv E sr S R N" "cu_frame (sr_cursor sr) = CompleteWindow r n"
    and "write_response_chunk_preserving_suffix_on_error E W w (cu_io_buffer (sr_cursor sr)) (sr_conn sr) r n = (w', b, c, res)"
  shows "stream_wf c \<and> stream_input c = N \<and>
    (\<exists>p. prefix p (drop (length S) R) \<and> sent W w' = sent W w @ p \<and>
       (case res of
          Inl e \<Rightarrow> stops e
        | Inr s \<Rightarrow> p = drop (length S) R \<and> ws_bytes_written s = length p))"
proof -
  note c = memchr_lib.resp_inv_complete [OF inv]
  obtain b' c' where q: "queue_pooled_next_response_input E n (cu_io_buffer (sr_cursor sr)) (sr_conn sr) = (b', c', Inr ())"
    "stream_wf c'" "stream_input c' = N"
    using queue_pooled_next_spec [OF c(6,7,3), of E] unfolding c(2) c(5) by metis
  obtain w1 u where u: "write_all W w (drop (length S) R) = (w1, u)" by fastforce
  obtain p where p: "prefix p (drop (length S) R)" "sent W w1 = sent W w @ p" "u = Inr () \<longrightarrow> p = drop (length S) R"
    using writer_lib.write_all_prefix [OF W u] by blast
  have "subrange (fst r) (snd r) (sr_window sr) = drop (length S) R" using c(1,4) by simp
  then have "w' = w1 \<and> c = c' \<and> (case u of
      Inl e \<Rightarrow> res = Inl (from_client_write_after_cleanup e (Inr ()))
    | Inr v \<Rightarrow> res = Inr (add_chunk (length (drop (length S) R)) stats_default))"
    using assms(5) u q(1) by (cases u) (auto simp: write_response_chunk_preserving_suffix_on_error_def Let_def)
  then show ?thesis using p q by (cases u) auto
qed

text \<open>The outcome of writing the rest \<open>T\<close> of a response when \<open>base\<close> bytes were counted before.\<close>

definition wrote ::
    "'w writer_api \<Rightarrow> 'w \<Rightarrow> 'w \<Rightarrow> bytes \<Rightarrow> nat \<Rightarrow> StreamingResponse \<Rightarrow> bytes
       \<Rightarrow> ResponseTransferError + ResponseWriteStats \<Rightarrow> bool" where
  "wrote W w w' T base sr' N res \<longleftrightarrow>
     (\<exists>p. prefix p T \<and> sent W w' = sent W w @ p \<and>
       (case res of
          Inl e \<Rightarrow> stops e \<and> (client_side e \<longrightarrow> kept sr' N)
        | Inr s \<Rightarrow> p = T \<and> ws_bytes_written s = base + length p \<and> kept sr' N))"

lemma wrote_step:
  assumes "sent W w1 = sent W w @ V" "wrote W w1 w' T (base + length V) sr' N res"
  shows "wrote W w w' (V @ T) base sr' N res"
proof -
  obtain p where p: "prefix p T" "sent W w' = sent W w1 @ p"
    "case res of
       Inl e \<Rightarrow> stops e \<and> (client_side e \<longrightarrow> kept sr' N)
     | Inr s \<Rightarrow> p = T \<and> ws_bytes_written s = base + length V + length p \<and> kept sr' N"
    using assms(2) unfolding wrote_def by blast
  show ?thesis unfolding wrote_def
    by (rule exI [of _ "V @ p"]) (use p assms(1) in \<open>auto split: sum.splits\<close>)
qed

lemma wrote_fail:
  "sent W w' = sent W w @ p \<Longrightarrow> prefix p T \<Longrightarrow> stops e \<Longrightarrow> (client_side e \<Longrightarrow> kept sr' N) \<Longrightarrow>
     wrote W w w' T base sr' N (Inl e)"
  unfolding wrote_def by auto

context memchr_lib
begin

lemma resp_inv_incomplete:
  assumes "resp_inv E sr S R N" "cu_frame (sr_cursor sr) = IncompleteWindow r"
  shows "subrange (fst r) (snd r) (sr_window sr) = sr_window sr" "sr_window sr \<noteq> []"
    "drop (length S) R = sr_window sr @ drop (length (S @ sr_window sr)) R" "r = (0, length (sr_window sr))"
    "stream_wf (sr_conn sr)" "buffer_wf (cu_io_buffer (sr_cursor sr))"
proof -
  have eq: "(S @ sr_window sr) @ stream_input (sr_conn sr) = R @ N" "length (S @ sr_window sr) \<le> length R"
    using assms by (simp_all add: resp_inv_def is_complete_def)
  obtain rest where "R = (S @ sr_window sr) @ rest" by (rule append_split [OF eq])
  then show "drop (length S) R = sr_window sr @ drop (length (S @ sr_window sr)) R" by simp
qed (use assms in \<open>simp_all add: resp_inv_def is_complete_def\<close>)

lemma write_remaining_spec:
  assumes "write_current_and_remaining_chunks E W w stats sr = (w', sr', res)" "resp_inv E sr S R N"
    "te_memchr E = M" "writer_lib W"
  shows "stream_wf (sr_conn sr') \<and> wrote W w w' (drop (length S) R) (ws_bytes_written stats) sr' N res"
  using assms
proof (induction E W w stats sr arbitrary: w' sr' res S rule: write_current_and_remaining_chunks.induct)
  case (1 E W w stats sr)
  let ?cu = "sr_cursor sr" and ?L = "write_current_and_remaining_chunks E W w stats sr" and ?V = "sr_window sr"
  note unfold = write_current_and_remaining_chunks.simps [of E W w stats sr] Let_def
  show ?case
  proof (cases "cu_frame ?cu")
    case (CompleteWindow r n)
    obtain w1 b c q where q: "write_response_chunk_preserving_suffix_on_error E W w (cu_io_buffer ?cu) (cu_conn ?cu) r n
        = (w1, b, c, q)" by (metis prod_cases4)
    have sr': "w' = w1" "sr' = sr\<lparr>sr_cursor := ?cu\<lparr>cu_io_buffer := b, cu_conn := c\<rparr>\<rparr>"
      "res = map_sum id (add_assign stats) q"
      using "1.prems"(1) CompleteWindow q by (auto simp: unfold split: sum.splits)
    show ?thesis
      using write_complete_spec [OF "1.prems"(4) memchr_lib_axioms "1.prems"(2) CompleteWindow q]
      unfolding sr' by (cases q) (auto simp: wrote_def kept_def is_complete_def CompleteWindow)
  next
    case (IncompleteWindow r)
    note bt = resp_inv_between [OF "1.prems"(2) IncompleteWindow]
    note V = resp_inv_incomplete [OF "1.prems"(2) IncompleteWindow]
    obtain w1 u where u: "write_all W w ?V = (w1, u)" by fastforce
    obtain p where p: "prefix p ?V" "sent W w1 = sent W w @ p" "u = Inr () \<longrightarrow> p = ?V"
      using writer_lib.write_all_prefix [OF "1.prems"(4) u] by blast
    obtain s1 q where q: "read_next_chunk E sr = (s1, q)" by fastforce
    note rd = read_next_chunk_spec [OF q bt "1.prems"(3)]
    obtain sd d where d: "drain E sr = (sd, d)" by fastforce
    consider (write_failed) e where "u = Inl e" | (read_failed) e where "u = Inr ()" "q = Inl e"
      | (more) "u = Inr ()" "q = Inr ()" by (cases u; cases q) auto
    then show ?thesis
    proof cases
      case write_failed
      have "?L = (w1, sd, Inl (from_client_write_after_cleanup e d))"
        using IncompleteWindow u write_failed d V(1) by (simp add: unfold)
      then show ?thesis
        using "1.prems"(1) drain_spec [OF d "1.prems"(2,3)] p V(3)
        by (cases d) (auto simp: kept_def prefix_append intro!: wrote_fail)
    next
      case read_failed
      have "?L = (w1, s1, Inl (after_client_delivery e))"
        using IncompleteWindow u q read_failed V(1,2) by (simp add: unfold)
      moreover have "\<not> client_side (after_client_delivery e)" using rd read_failed
        by (cases e) (auto simp: stops_def client_side_def after_client_delivery_def)
      ultimately show ?thesis using "1.prems"(1) rd p V(3) read_failed by (auto intro!: wrote_fail)
    next
      case more
      have L: "write_current_and_remaining_chunks E W w1 (add_chunk (length ?V) stats) s1 = (w', sr', res)"
        using IncompleteWindow u q more V(1) "1.prems"(1) by (simp add: unfold)
      have inv1: "resp_inv E s1 (S @ ?V) R N" using rd more by simp
      show ?thesis
        using "1.IH" [OF refl IncompleteWindow refl, unfolded V(1), OF u [symmetric] more(1) refl q [symmetric] more(2)
            L inv1 "1.prems"(3,4)] p more(1) wrote_step [of W w1 w ?V] unfolding V(3) by simp
    qed
  qed
qed

end

context memchr_lib
begin

lemma stream_write_spec:
  assumes "stream_write E W w sr = (w', sr', res)" "resp_inv E sr [] R N" "te_memchr E = M" "writer_lib W"
  shows "stream_wf (sr_conn sr') \<and> (\<exists>p. prefix p R \<and> sent W w' = sent W w @ p \<and>
    (case res of
       Inl e \<Rightarrow> (p \<noteq> [] \<longrightarrow> stops e) \<and> (client_side e \<longrightarrow> kept sr' N)
     | Inr s \<Rightarrow> p = R \<and> ws_bytes_written s = length R \<and> kept sr' N))"
proof -
  obtain s1 q where q: "append_to_retained_prefix_if_writable E sr = (s1, q)" by fastforce
  note ap = append_to_retained_spec [OF q assms(2,3)]
  show ?thesis
  proof (cases q)
    case (Inl e)
    moreover have "\<not> client_side e" using ap Inl by (cases e) (auto simp: stops_def client_side_def)
    ultimately show ?thesis using assms(1) q ap by (auto simp: stream_write_def)
  next
    case (Inr u)
    then have "write_current_and_remaining_chunks E W w stats_default s1 = (w', sr', res)"
      using assms(1) q by (simp add: stream_write_def)
    then have wr: "stream_wf (sr_conn sr')" "wrote W w w' R 0 sr' N res"
      using write_remaining_spec [OF _ _ assms(3,4), of w stats_default s1 w' sr' res "[]" R N] ap Inr by simp_all
    obtain p where "prefix p R" "sent W w' = sent W w @ p" "case res of
          Inl e \<Rightarrow> stops e \<and> (client_side e \<longrightarrow> kept sr' N)
        | Inr s \<Rightarrow> p = R \<and> ws_bytes_written s = 0 + length p \<and> kept sr' N"
      using wr(2) unfolding wrote_def by blast
    then show ?thesis using wr(1) by (intro conjI exI [of _ p]) (auto split: sum.splits)
  qed
qed

end

section \<open>Capturing the response\<close>

definition capture_matches :: "StreamingResponse \<Rightarrow> CapturedChunkedResponse \<Rightarrow> bytes \<Rightarrow> bool" where
  "capture_matches sr c R \<longleftrightarrow>
     chunked_wf (cc_bytes c) \<and> to_vec (cc_bytes c) = R \<and> cc_kind c = sr_kind sr \<and> cc_status c = sr_status sr \<and>
     cc_status_line_end c = sr_status_line_end sr \<and>
     cc_content_end c = (case sr_shape sr of SingleLine \<Rightarrow> length R | Multiline \<Rightarrow> length R - 3)"

definition captured_ok ::
    "'w writer_api \<Rightarrow> 'w \<Rightarrow> 'w \<Rightarrow> StreamingResponse \<Rightarrow> StreamingResponse \<Rightarrow> bytes \<Rightarrow> bytes
       \<Rightarrow> ResponseTransferError + (nat \<times> CapturedChunkedResponse option) \<Rightarrow> bool" where
  "captured_ok W w w' sr sr' R N res \<longleftrightarrow>
     (\<exists>p. prefix p R \<and> sent W w' = sent W w @ p \<and>
       (case res of
          Inl e \<Rightarrow> (p \<noteq> [] \<longrightarrow> stops e) \<and> (client_side e \<longrightarrow> kept sr' N)
        | Inr (n, cap) \<Rightarrow>
            p = R \<and> n = length R \<and> kept sr' N \<and> (\<forall>c. cap = Some c \<longrightarrow> capture_matches sr c R)))"

lemma captured_ok_retry:
  "\<not> client_side e \<Longrightarrow> captured_ok W w w sr sr' R N (Inl e)"
  by (auto simp: captured_ok_def)

lemma captured_ok_fail:
  "sent W w' = sent W w @ p \<Longrightarrow> prefix p R \<Longrightarrow> stops e \<Longrightarrow> (client_side e \<Longrightarrow> kept sr' N) \<Longrightarrow>
     captured_ok W w w' sr sr' R N (Inl e)"
  by (auto simp: captured_ok_def)

lemma not_stops_not_client: "\<not> stops e \<Longrightarrow> \<not> client_side e"
  by (cases e) (auto simp: stops_def client_side_def)

lemma captured_of_Some:
  assumes "chunked_wf cap" "to_vec cap = R" "sr_shape sr = Multiline \<longrightarrow> one_response R"
  obtains c where "captured_of sr cap = Some c" "capture_matches sr c R"
proof -
  have "5 \<le> length R" if "sr_shape sr = Multiline"
    using assms(3) that by (auto simp: one_response_def first_term_end_def)
  then show ?thesis using assms chunked_wf_len [OF assms(1)]
    by (cases "sr_shape sr") (auto simp: captured_of_def capture_matches_def DOT_TERMINATOR_def intro!: that)
qed

lemma push_from_buffer_spec:
  assumes "push_from_buffer E (0, k) (k, length (visible b)) b c cap = (b', c', cap', res)"
    "stream_wf c" "k \<le> length (visible b)" "chunked_wf cap"
  shows "stream_wf c' \<and>
    (case res of
       Inl e \<Rightarrow> \<not> stops e
     | Inr u \<Rightarrow> chunked_wf cap' \<and> to_vec cap' = to_vec cap @ take k (visible b) \<and>
         stream_input c' = drop k (visible b) @ stream_input c)"
proof -
  obtain cap1 where cap1: "push_buffer_range cap b (0, k) = Some cap1" "chunked_wf cap1"
    "to_vec cap1 = to_vec cap @ subrange 0 k (visible b)"
    by (rule push_buffer_range_spec [OF assms(4), of 0 k b]) (use assms(3) in \<open>simp_all add: length_visible\<close>)
  obtain c1 q where q: "queue_next_response_input (k, length (visible b)) b c = (c1, q)" by fastforce
  have "(if k < initialized b
         then case queue_pending_bytes_first c (subrange k (length (visible b)) (visible b)) of
                (c, Inl e) \<Rightarrow> (c, Inl (TransferIo (PendingCause e))) | (c, Inr u) \<Rightarrow> (c, Inr ())
         else (c, Inr ())) = (c1, q)"
    using q unfolding queue_next_response_input_def fst_conv snd_conv .
  then have "(c', res) = (c1, q) \<and> (q = Inr () \<longrightarrow> cap' = cap1)"
    using assms(1) cap1(1) unfolding push_from_buffer_def fst_conv snd_conv by (cases q) auto
  then show ?thesis using queue_next_response_input_spec [OF q assms(2)] cap1 by (auto split: sum.splits)
qed

lemma finish_capture_spec:
  assumes "finish_capture E W w cap r n sr = (w', sr', res)" "resp_inv E sr S R N" "memchr_lib M" "writer_lib W"
    "cu_frame (sr_cursor sr) = CompleteWindow r n" "chunked_wf cap" "to_vec cap = S"
  shows "stream_wf (sr_conn sr') \<and> captured_ok W w w' sr sr' R N res"
proof -
  note c = memchr_lib.resp_inv_complete [OF assms(3,2,5)]
  let ?cu = "sr_cursor sr"
  obtain b' c' cap' q where q: "push_from_buffer E r n (cu_io_buffer ?cu) (cu_conn ?cu) cap = (b', c', cap', q)"
    by (metis prod_cases4)
  note ps = push_from_buffer_spec [OF q [unfolded c(1,2)] c(6,3) assms(6)]
  let ?sr = "sr\<lparr>sr_cursor := ?cu\<lparr>cu_io_buffer := b', cu_conn := c'\<rparr>\<rparr>"
  show ?thesis
  proof (cases q)
    case (Inl e)
    then have "w' = w" "sr' = ?sr" "res = Inl e" using assms(1) q by (auto simp: finish_capture_def Let_def)
    then show ?thesis using ps Inl by (auto intro!: captured_ok_retry dest: not_stops_not_client)
  next
    case (Inr u)
    obtain S' where S': "R = S @ S'" using append_split [of S "sr_window sr @ stream_input (sr_conn sr)" R N] c(9) assms(2)
      by (metis resp_inv_def)
    have cap': "chunked_wf cap'" "to_vec cap' = R" "stream_input c' = N" "stream_wf c'"
      using ps Inr assms(7) c(4,5) S' by auto
    have k: "kept ?sr N" using cap' assms(5) by (simp add: kept_def is_complete_def)
    obtain w1 v where v: "write_all_to_recording W cap' w = (w1, v)" by fastforce
    obtain p where p: "prefix p R" "sent W w1 = sent W w @ p" "v = Inr () \<longrightarrow> p = R"
      using writer_lib.write_all_to_recording_sent [OF assms(4) v] cap' by blast
    have "sr_shape ?sr = Multiline \<longrightarrow> one_response R" using assms(2) by (simp add: resp_inv_def)
    from captured_of_Some [OF cap'(1,2) this]
    obtain cc where cc: "captured_of ?sr cap' = Some cc" "capture_matches ?sr cc R" by blast
    have "w' = w1 \<and> sr' = ?sr \<and> res = (case v of Inl e \<Rightarrow> Inl (from_client_write e) | Inr v' \<Rightarrow> Inr (length R, Some cc))"
      using assms(1) q Inr v cc(1) cap'(2) by (cases v) (auto simp: finish_capture_def Let_def)
    then show ?thesis using p k cc(2) cap'(4)
      by (cases v) (auto simp: captured_ok_def capture_matches_def)
  qed
qed

context memchr_lib
begin

text \<open>The capture grew past its limit: what was captured is written, then the rest as it arrives.\<close>

lemma flush_capture_spec:
  assumes "resp_inv E sr S R N" "te_memchr E = M" "writer_lib W" "chunked_wf cap" "to_vec cap = S"
    and "write_all_to_recording W cap w = (w1, v)" "observe_stream E sr = (so, cleanup)"
      "write_current_and_remaining_chunks E W w1 stats_default sr = (w2, s2, r2)"
  shows "v = Inl e \<Longrightarrow> stream_wf (sr_conn so) \<and>
      captured_ok W w w1 sr so R N (Inl (from_client_write_after_cleanup e cleanup))"
    and "v = Inr () \<Longrightarrow> stream_wf (sr_conn s2) \<and> captured_ok W w w2 sr s2 R N
      (map_sum id (\<lambda>s. (ws_bytes_written (add_assign (add_buffered_response cap stats_default) s), None)) r2)"
proof -
  have len: "length S \<le> length R" "S @ sr_window sr @ stream_input (sr_conn sr) = R @ N"
    using assms(1) by (auto simp: resp_inv_def window_ok_def split: ResponseWindow.splits)
  obtain T where T: "R = S @ T" by (rule append_split [OF len(2,1)])
  obtain p where p: "prefix p S" "sent W w1 = sent W w @ p" "v = Inr () \<longrightarrow> p = S"
    using writer_lib.write_all_to_recording_sent [OF assms(3,6)] assms(5) by blast
  show "stream_wf (sr_conn so) \<and> captured_ok W w w1 sr so R N (Inl (from_client_write_after_cleanup e cleanup))"
    if "v = Inl e"
    using observe_stream_spec [OF assms(7,1,2)] p T by (cases cleanup) (auto simp: kept_def intro!: captured_ok_fail)
  show "stream_wf (sr_conn s2) \<and> captured_ok W w w2 sr s2 R N
      (map_sum id (\<lambda>s. (ws_bytes_written (add_assign (add_buffered_response cap stats_default) s), None)) r2)"
    if "v = Inr ()"
  proof -
    have wr: "stream_wf (sr_conn s2)" "wrote W w1 w2 T 0 s2 N r2"
      using write_remaining_spec [OF assms(8,1,2,3)] T by simp_all
    have "sent W w1 = sent W w @ S" using p that by simp
    with wr obtain p' where p': "prefix p' T" "sent W w2 = sent W w @ S @ p'" "case r2 of
          Inl e \<Rightarrow> stops e \<and> (client_side e \<longrightarrow> kept s2 N)
        | Inr s \<Rightarrow> p' = T \<and> ws_bytes_written s = 0 + length p' \<and> kept s2 N"
      by (auto simp: wrote_def)
    show ?thesis unfolding captured_ok_def
      using wr(1) p' T assms(5) by (cases r2) (auto intro!: exI [of _ "S @ p'"])
  qed
qed

lemma captured_ok_same:
  assumes "same_response sr s1" "captured_ok W w w' s1 sr' R N res"
  shows "captured_ok W w w' sr sr' R N res"
proof -
  have eq: "capture_matches s1 = capture_matches sr"
    using assms(1) by (intro ext) (simp add: capture_matches_def same_response_def)
  show ?thesis using assms(2) unfolding captured_ok_def eq .
qed

lemma capture_loop_spec:
  assumes "capture_loop E W limit w cap sr = (w', sr', res)" "resp_inv E sr S R N" "te_memchr E = M" "writer_lib W"
    "chunked_wf cap" "to_vec cap = S"
  shows "stream_wf (sr_conn sr') \<and> captured_ok W w w' sr sr' R N res"
  using assms
proof (induction E W limit w cap sr arbitrary: w' sr' res S rule: capture_loop.induct)
  case (1 E W limit w cap sr)
  let ?cu = "sr_cursor sr" and ?V = "sr_window sr"
  define exc where "exc = (case sr_shape sr of SingleLine \<Rightarrow> False | Multiline \<Rightarrow>
      capture_would_exceed_limit (cr_len cap) (snd (window_response (cu_frame ?cu)) - fst (window_response (cu_frame ?cu))) limit)"
  note unfold = capture_loop.simps [of E W limit w cap sr, unfolded Let_def, folded exc_def]
  obtain w1 v where v: "write_all_to_recording W cap w = (w1, v)" by fastforce
  obtain so cl where o: "observe_stream E sr = (so, cl)" by fastforce
  obtain w2 s2 r2 where r2: "write_current_and_remaining_chunks E W w1 stats_default sr = (w2, s2, r2)" by (metis prod_cases3)
  note fl = flush_capture_spec [OF "1.prems"(2-6) v o r2]
  consider (exceeds) exc | (complete) r n where "\<not> exc" "cu_frame ?cu = CompleteWindow r n"
    | (incomplete) r where "\<not> exc" "cu_frame ?cu = IncompleteWindow r" by (cases "cu_frame ?cu") auto
  then show ?case
  proof cases
    case exceeds
    then show ?thesis using "1.prems"(1) v o r2 fl
      by (cases v; cases r2) (auto simp: unfold)
  next
    case complete
    then have "finish_capture E W w cap r n sr = (w', sr', res)" using "1.prems"(1) by (simp add: unfold)
    from finish_capture_spec [OF this "1.prems"(2) memchr_lib_axioms "1.prems"(4) complete(2) "1.prems"(5,6)] show ?thesis .
  next
    case incomplete
    note V = resp_inv_incomplete [OF "1.prems"(2) incomplete(2)]
    obtain cap1 where cap1: "push_buffer_range cap (cu_io_buffer ?cu) (0, length ?V) = Some cap1" "chunked_wf cap1"
      "to_vec cap1 = to_vec cap @ subrange 0 (length ?V) ?V"
      by (rule push_buffer_range_spec [OF "1.prems"(5), of 0 "length ?V" "cu_io_buffer ?cu"]) (simp_all add: length_visible)
    have pb: "push_buffer_to E r cap (cu_io_buffer ?cu) = Some (cap1, pool_acquire E)"
      using cap1(1) V(4) by (simp add: push_buffer_to_def)
    let ?sr = "sr\<lparr>sr_cursor := ?cu\<lparr>cu_io_buffer := pool_acquire E\<rparr>\<rparr>"
    obtain s1 q where q: "read_next_chunk E ?sr = (s1, q)" by fastforce
    have bt: "resp_between E ?sr (S @ ?V) R N"
      using resp_inv_between [OF "1.prems"(2) incomplete(2)] by (simp add: resp_between_def is_complete_def)
    note rd = read_next_chunk_spec [OF q bt "1.prems"(3)]
    have same: "same_response sr s1" using rd by (auto simp: same_response_def)
    show ?thesis
    proof (cases q)
      case (Inl e)
      then have "w' = w" "sr' = s1" "res = Inl e" using "1.prems"(1) incomplete pb q by (auto simp: unfold)
      then show ?thesis using rd Inl by (auto intro!: captured_ok_retry dest: not_stops_not_client)
    next
      case (Inr u)
      then have L: "capture_loop E W limit w cap1 s1 = (w', sr', res)"
        using "1.prems"(1) incomplete pb q by (simp add: unfold)
      have "resp_inv E s1 (S @ ?V) R N" "to_vec cap1 = S @ ?V" using rd Inr cap1(3) "1.prems"(6) by simp_all
      then have "stream_wf (sr_conn sr') \<and> captured_ok W w w' s1 sr' R N res"
        using "1.IH" [OF refl refl refl _ incomplete(2) pb refl q [symmetric] Inr L _ "1.prems"(3,4) cap1(2)] incomplete(1)
        by (simp add: exc_def)
      then show ?thesis by (simp add: captured_ok_same [OF same])
    qed
  qed
qed

end

section \<open>From the classified bytes to the invariant\<close>

text \<open>
  The input \<open>D\<close> starts with the response \<open>R\<close> to the request and goes on with \<open>N\<close>: a status line, or a
  multiline response that ends at its first terminator and is followed by nothing or a status line.
\<close>

definition frames_as :: "memchr_api \<Rightarrow> RequestContext \<Rightarrow> bytes \<Rightarrow> bytes \<Rightarrow> bytes \<Rightarrow> bool" where
  "frames_as M request D R N \<longleftrightarrow>
     D = R @ N \<and>
     (case parse_bytes M request D of
        Inl _ \<Rightarrow> False
      | Inr (SingleLineFrame _ e _ _) \<Rightarrow> length R = e
      | Inr (MultilineFrame _ _) \<Rightarrow> one_response R \<and> next_input_ok M N)"

lemma status_parse_append: "status_parse V = Some s \<Longrightarrow> status_parse (V @ D) = Some s"
  by (auto simp: status_parse_def nth_append split: if_splits)

context memchr_lib
begin

lemma status_line_len_append: "status_line_len M V = Some e \<Longrightarrow> status_line_len M (V @ D) = Some e"
  by (auto simp: status_line_len_def position_append)

lemma parse_bytes_append:
  assumes "parse_bytes M request V = Inr frame"
  shows "parse_bytes M request (V @ D) = Inr (case frame of
      SingleLineFrame st e r n \<Rightarrow> SingleLineFrame st e r (e, length (V @ D)) | MultilineFrame st e \<Rightarrow> frame)"
  using assms status_line_len_append [of V _ D] status_parse_append [of V _ D]
  by (auto simp: parse_bytes_def parse_response_status_def Let_def split: option.splits if_splits)

lemma parse_bytes_frame:
  assumes "parse_bytes M request V = Inr frame"
  obtains st e where "frame = SingleLineFrame st e (0, e) (e, length V)" "e \<le> length V" "e \<noteq> 0"
  | st e where "frame = MultilineFrame st e" "e \<le> length V" "e \<noteq> 0" "first_term_end (take e V) = None"
proof -
  obtain e where e: "status_line_len M V = Some e" using assms by (auto simp: parse_bytes_def split: option.splits)
  then obtain i where i: "e = Suc i" "i < length V" "V ! i = LF" "\<forall>j < i. V ! j \<noteq> LF"
    by (auto simp: status_line_len_def position_Some_iff)
  have "\<not> term_end (take e V) k" for k
  proof
    assume t: "term_end (take e V) k"
    then have "k \<le> e" unfolding term_end_def by simp
    with t obtain z where k: "5 \<le> k" "k \<le> e" "drop (k - 5) (take e V) = TERMINATOR @ z"
      by (auto simp: term_end_iff prefix_def)
    have "take e V ! (k - 5 + 1) = LF"
      using arg_cong [OF k(3), of "\<lambda>l. l ! 1"] k(1,2) i(2) by (simp add: TERMINATOR_def i(1))
    then show False using i k(1,2) by simp
  qed
  then have "first_term_end (take e V) = None" by (simp add: first_term_end_None_iff)
  then show ?thesis using assms e i(1,2) that
    by (auto simp: parse_bytes_def parse_response_status_def Let_def split: option.splits if_splits)
qed

lemma from_classification_inv:
  assumes parse: "parse_bytes M request (visible b) = Inr frame"
    and D: "frames_as M request (visible b @ stream_input c) R N"
    and wf: "stream_wf c" "buffer_wf b" "te_memchr E = M"
  obtains sr where "from_classification E kind (Inr frame) b c = Inr sr" "resp_inv E sr [] R N"
    "sr_kind sr = kind" "sr_shape sr = (case frame of SingleLineFrame _ _ _ _ \<Rightarrow> SingleLine | _ \<Rightarrow> Multiline)"
    "sr_status_line_end sr = (case frame of SingleLineFrame _ e _ _ \<Rightarrow> e | MultilineFrame _ e \<Rightarrow> e)"
    "sr_status sr = (case frame of SingleLineFrame st _ _ _ \<Rightarrow> st | MultilineFrame st _ \<Rightarrow> st)"
proof (cases rule: parse_bytes_frame [OF parse])
  case (1 st e)
  have "length R = e" "visible b @ stream_input c = R @ N"
    using D parse_bytes_append [OF parse, of "stream_input c"] 1 by (simp_all add: frames_as_def)
  then show ?thesis using 1 wf by (intro that) (auto simp: from_classification_def resp_inv_def is_complete_def)
next
  case (2 st e)
  let ?V = "visible b"
  have R: "one_response R" "next_input_ok M N" "?V @ stream_input c = R @ N"
    using D parse_bytes_append [OF parse, of "stream_input c"] 2 by (simp_all add: frames_as_def)
  let ?f = "framer_update framer_default (take e ?V)"
  have seen: "framer_seen ?f (take e ?V)" using framer_seen_update [OF framer_seen_default, of "take e ?V"] by simp
  have "length (take e ?V) < length R"
  proof (rule ccontr)
    assume "\<not> length (take e ?V) < length R"
    then have le: "length R \<le> length (take e ?V)" by (rule leI)
    have "R @ N = take e ?V @ drop e ?V @ stream_input c" using R(3) by (simp add: append_assoc [symmetric] del: append_assoc)
    then obtain q where "take e ?V = R @ q" by (rule append_split [OF _ le])
    then show False using 2(4) R(1) first_term_end_append [of R "length R" q] by (simp add: one_response_def)
  qed
  moreover obtain f' r where f': "split_chunk M (te_target E) ?f (drop e ?V) AllowIfStatusPrefix = (f', r)" by fastforce
  ultimately obtain p where p: "r = Inr p" "window_ok [] ?V R f' (in_window p e (length ?V))"
    using frame_window [of ?f "[]" "take e ?V" R "drop e ?V" "stream_input c" N "te_target E" f' r] seen R 2(2)
    by (auto simp: append_assoc [symmetric] simp del: append_assoc)
  have "begin_after_status_line M (te_target E) ?V e AllowIfStatusPrefix = Inr (f', in_window p e (length ?V))"
    using f' p(1) 2(2) by (simp add: begin_after_status_line_def Let_def)
  then show ?thesis using 2 wf R p(2)
    by (intro that) (auto simp: from_classification_def cursor_begin_after_status_line_def resp_inv_def)
qed

end

section \<open>Session errors\<close>

text \<open>
  \<open>SessionError\<close> of \<open>src/src/session/session_error.rs\<close>; the payload of \<open>Backend\<close> keeps what the code
  recovers from it by \<open>downcast_ref\<close>.
\<close>

datatype SessionCause = CauseTransfer ResponseTransferError | CauseIo IoError | CauseOther

datatype SessionError = SessionDisconnect IoError | SessionBackend SessionCause

definition session_from_io :: "IoError \<Rightarrow> SessionError" where
  "session_from_io e = (if is_disconnect_kind e then SessionDisconnect e else SessionBackend (CauseIo e))"

definition session_from_transfer :: "ResponseTransferError \<Rightarrow> SessionError" where
  "session_from_transfer e =
     (case e of
        ClientDisconnect io \<Rightarrow> SessionDisconnect io
      | ClientWrite io \<Rightarrow> if is_disconnect_kind io then SessionDisconnect io else SessionBackend (CauseTransfer e)
      | ClientWriteUnpreserved io \<Rightarrow>
          if is_disconnect_kind io then SessionDisconnect io else SessionBackend (CauseTransfer e)
      | _ \<Rightarrow> SessionBackend (CauseTransfer e))"

definition is_failed_client_write :: "SessionError \<Rightarrow> bool" where
  "is_failed_client_write e =
     (case e of
        SessionBackend (CauseTransfer (ClientWrite _)) \<Rightarrow> True
      | SessionBackend (CauseTransfer (ClientWriteUnpreserved _)) \<Rightarrow> True
      | _ \<Rightarrow> False)"

definition blocks_another_response :: "SessionError \<Rightarrow> bool" where
  "blocks_another_response e =
     (if is_failed_client_write e then True
      else (case e of
              SessionBackend (CauseTransfer (DeliveredPrefix _)) \<Rightarrow> True
            | _ \<Rightarrow> False))"

definition session_over :: "SessionError \<Rightarrow> bool" where
  "session_over e \<longleftrightarrow> (case e of SessionDisconnect _ \<Rightarrow> True | SessionBackend _ \<Rightarrow> blocks_another_response e)"

lemma session_over_iff: "session_over (session_from_transfer e) \<longleftrightarrow> stops e"
  by (cases e) (auto simp: session_over_def session_from_transfer_def blocks_another_response_def
      is_failed_client_write_def stops_def)

text \<open>What the transfer decides about the connection.\<close>

definition transfer_fate :: "ConnectionGuard \<Rightarrow> ResponseTransferError + 'a \<Rightarrow> BackendConnectionOutcome" where
  "transfer_fate g res =
     (case res of
        Inl e \<Rightarrow> error_pool_fate e (connection_reuse_after_response g)
      | Inr _ \<Rightarrow> reuse_pool_fate (connection_reuse_after_response g))"

lemma transfer_fate_healthy:
  assumes "transfer_fate g res = BackendHealthy" "stream_wf (cg_conn g)"
  shows "response_is_complete g \<and> pending_input (cg_conn g) = [] \<and> (\<forall>e. res = Inl e \<longrightarrow> client_side e)"
proof (cases res)
  case (Inl e)
  then show ?thesis using assms has_pending_iff [OF assms(2)]
    by (cases e) (auto simp: transfer_fate_def error_pool_fate_def connection_reuse_after_response_def client_side_def
        split: if_splits)
next
  case (Inr x)
  then show ?thesis using assms has_pending_iff [OF assms(2)]
    by (auto simp: transfer_fate_def reuse_pool_fate_def connection_reuse_after_response_def split: if_splits)
qed

section \<open>The whole exchange\<close>

text \<open>A classified response as \<open>read_unbound\<close> leaves it.\<close>

definition classified_wf :: "memchr_api \<Rightarrow> RequestContext \<Rightarrow> ClassifiedResponse \<Rightarrow> bool" where
  "classified_wf M request cl \<longleftrightarrow>
     buffer_wf (cl_buffer cl) \<and> cl_frame cl = parse_bytes M request (visible (cl_buffer cl)) \<and>
     cl_kind cl = rc_kind request"

context memchr_lib
begin

lemma read_unbound_spec:
  assumes "read_unbound M request c b = (c', Inr cl)" "stream_wf c" "buffer_wf b"
  shows "stream_wf c' \<and> buffer_wf (cl_buffer cl) \<and>
    visible (cl_buffer cl) @ stream_input c' = visible b @ stream_input c \<and>
    cl_frame cl = parse_bytes M request (visible (cl_buffer cl)) \<and> cl_kind cl = rc_kind request"
  using assms
proof (induction M request c b rule: read_unbound.induct)
  case (1 M request c b)
  obtain b1 c1 q where q: "read_more stream_poll_read b c = (b1, c1, q)" by (metis prod_cases3)
  note rd = conn.read_more_spec [OF q "1.prems"(3,2)]
  show ?case
  proof (cases "parse_bytes M request (visible b) = Err ReadIncomplete")
    case False
    then show ?thesis using "1.prems" by (auto simp: read_unbound.simps [of M request c b])
  next
    case True
    obtain k where k: "q = Inr k" "k \<noteq> 0" "read_unbound M request c1 b1 = (c', Inr cl)"
      using "1.prems"(1) True q by (cases q) (auto simp: read_unbound.simps [of M request c b] split: if_splits)
    show ?thesis using "1.IH" [OF refl True q [symmetric] refl k(1,2,3)] rd k(1) by auto
  qed
qed

lemma read_unbound_classified_wf:
  assumes "read_unbound M request c b = (c', Inr cl)" "stream_wf c" "buffer_wf b"
  shows "stream_wf c'" "classified_wf M request cl"
    "visible (cl_buffer cl) @ stream_input c' = visible b @ stream_input c"
  using read_unbound_spec [OF assms] by (simp_all add: classified_wf_def)

lemma classified_inv:
  assumes "classified_wf M request cl" "stream_wf (cg_conn g)" "te_memchr E = M"
    "frames_as M request (visible (cl_buffer cl) @ stream_input (cg_conn g)) R N"
    "receiving_stream E g cl = (g1, Inr sr)"
  shows "resp_inv E sr [] R N" "cg_phase g1 = InFlight"
proof -
  have cl: "buffer_wf (cl_buffer cl)" "cl_frame cl = parse_bytes M request (visible (cl_buffer cl))"
    using assms(1) by (simp_all add: classified_wf_def)
  have fc: "from_classification E (cl_kind cl) (cl_frame cl) (cl_buffer cl) (cg_conn g) = Inr sr"
    and "cg_phase g1 = InFlight"
    using assms(5) by (auto simp: receiving_stream_def stream_mut_def)
  then show "cg_phase g1 = InFlight" by simp
  obtain frame where fr: "cl_frame cl = Inr frame" using fc by (cases "cl_frame cl") (auto simp: from_classification_def)
  from from_classification_inv [OF fr [unfolded cl(2)] assms(4,2) cl(1) assms(3), of "cl_kind cl"]
  show "resp_inv E sr [] R N" using fc fr by (metis sum.inject(2))
qed

end

lemma mark_put_back:
  assumes "cg_phase g = InFlight"
  shows "cg_conn (mark_if d (put_back g cu)) = cu_conn cu" "response_is_complete (mark_if d (put_back g cu)) \<longleftrightarrow> d"
  using assms by (auto simp: mark_if_def put_back_def mark_response_complete_def response_is_complete_def)

text \<open>The outcome of an operation on the stream, seen on the guard.\<close>

definition one_line :: "ClassifiedResponse \<Rightarrow> bool" where
  "one_line cl \<longleftrightarrow> (case cl_frame cl of Inr (SingleLineFrame _ _ _ _) \<Rightarrow> True | _ \<Rightarrow> False)"

lemma exchange_outcome:
  assumes "cg_phase g1 = InFlight" "g' = mark_if (is_complete s1) (put_back g1 (sr_cursor s1))" "stream_wf (sr_conn s1)"
    and "case r of Inl e \<Rightarrow> (p \<noteq> [] \<longrightarrow> stops e) \<and> (client_side e \<longrightarrow> kept s1 N) | Inr x \<Rightarrow> P x \<and> kept s1 N"
  shows "(case r of
       Inr x \<Rightarrow> P x \<and> response_is_complete g' \<and> stream_input (cg_conn g') = N
     | Inl e \<Rightarrow> p \<noteq> [] \<longrightarrow> session_over (session_from_transfer e)) \<and>
    (transfer_fate g' r = BackendHealthy \<longrightarrow> pending_input (cg_conn g') = [] \<and> stream_input (cg_conn g') = N)"
proof -
  note mk = mark_put_back [OF assms(1), of "is_complete s1" "sr_cursor s1", folded assms(2)]
  have "stream_wf (cg_conn g')" using mk assms(3) by simp
  note h = transfer_fate_healthy [OF _ this, of r]
  show ?thesis using h mk assms(4) by (cases r) (auto simp: session_over_iff kept_def)
qed

lemma exchange_not_started:
  assumes "receiving_stream E g cl = (g1, Inl e)"
  shows "transfer_fate g1 (Inl e :: ResponseTransferError + 'a) \<noteq> BackendHealthy"
  using assms
  by (cases e) (auto simp: receiving_stream_def stream_mut_def transfer_fate_def error_pool_fate_def
      connection_reuse_after_response_def response_is_complete_def)

lemma receiving_write_exact:
  assumes "memchr_lib (te_memchr E)" "writer_lib W" "classified_wf (te_memchr E) request cl" "stream_wf (cg_conn g)"
    and "frames_as (te_memchr E) request (visible (cl_buffer cl) @ stream_input (cg_conn g)) R N"
    and "receiving_write E W w g cl = (w', g', res)"
  shows "\<exists>p. prefix p R \<and> sent W w' = sent W w @ p \<and>
    (case res of
       Inr n \<Rightarrow> (p = R \<and> n = length R) \<and> response_is_complete g' \<and> stream_input (cg_conn g') = N
     | Inl e \<Rightarrow> p \<noteq> [] \<longrightarrow> session_over (session_from_transfer e)) \<and>
    (transfer_fate g' res = BackendHealthy \<longrightarrow>
       pending_input (cg_conn g') = [] \<and> stream_input (cg_conn g') = N)"
proof -
  obtain g1 q where q: "receiving_stream E g cl = (g1, q)" by fastforce
  show ?thesis
  proof (cases q)
    case (Inl e)
    then have r: "w' = w" "g' = g1" "res = Inl e" using assms(6) q by (auto simp: receiving_write_def)
    show ?thesis unfolding r by (intro exI [of _ "[]"]) (simp add: exchange_not_started [OF q [unfolded Inl]])
  next
    case (Inr sr)
    note inv = memchr_lib.classified_inv [OF assms(1,3,4) refl assms(5) q [unfolded Inr]]
    obtain w1 s1 r where r: "stream_write E W w sr = (w1, s1, r)" by (metis prod_cases3)
    have g': "w' = w1" "g' = mark_if (is_complete s1) (put_back g1 (sr_cursor s1))" "res = map_sum id ws_bytes_written r"
      using assms(6) q Inr r by (simp_all add: receiving_write_def)
    from memchr_lib.stream_write_spec [OF assms(1) r inv(1) refl assms(2)]
    obtain p where p: "stream_wf (sr_conn s1)" "prefix p R" "sent W w1 = sent W w @ p" "case r of
        Inl e \<Rightarrow> (p \<noteq> [] \<longrightarrow> stops e) \<and> (client_side e \<longrightarrow> kept s1 N)
      | Inr s \<Rightarrow> p = R \<and> ws_bytes_written s = length R \<and> kept s1 N" by blast
    have "case res of Inl e \<Rightarrow> (p \<noteq> [] \<longrightarrow> stops e) \<and> (client_side e \<longrightarrow> kept s1 N)
      | Inr n \<Rightarrow> (p = R \<and> n = length R) \<and> kept s1 N" using p(4) g'(3) by (cases r) auto
    from exchange_outcome [OF inv(2) g'(2) p(1) this] show ?thesis using p(2,3) unfolding g'(1) by blast
  qed
qed

lemma receiving_capture_exact:
  assumes "memchr_lib (te_memchr E)" "writer_lib W" "classified_wf (te_memchr E) request cl" "stream_wf (cg_conn g)"
    and "frames_as (te_memchr E) request (visible (cl_buffer cl) @ stream_input (cg_conn g)) R N"
    and "receiving_capture_and_write E W w cap g cl = (w', g', res)"
  shows "\<exists>p. prefix p R \<and> sent W w' = sent W w @ p \<and>
    (case res of
       Inr (n, captured) \<Rightarrow>
         (p = R \<and> n = length R \<and>
          (\<forall>x. captured = Some x \<longrightarrow>
             to_vec (cc_bytes x) = R \<and> cc_kind x = rc_kind request \<and>
             cc_content_end x = (if one_line cl then length R else length R - 3))) \<and>
         response_is_complete g' \<and> stream_input (cg_conn g') = N
     | Inl e \<Rightarrow> p \<noteq> [] \<longrightarrow> session_over (session_from_transfer e)) \<and>
    (transfer_fate g' res = BackendHealthy \<longrightarrow>
       pending_input (cg_conn g') = [] \<and> stream_input (cg_conn g') = N)"
proof -
  obtain g1 q where q: "receiving_stream E g cl = (g1, q)" by fastforce
  show ?thesis
  proof (cases q)
    case (Inl e)
    then have r: "w' = w" "g' = g1" "res = Inl e" using assms(6) q by (auto simp: receiving_capture_and_write_def)
    show ?thesis unfolding r by (intro exI [of _ "[]"]) (simp add: exchange_not_started [OF q [unfolded Inl]])
  next
    case (Inr sr)
    note inv = memchr_lib.classified_inv [OF assms(1,3,4) refl assms(5) q [unfolded Inr]]
    obtain w1 s1 r where r: "capture_loop E W MAX_CAPTURED_MULTILINE_RESPONSE_BYTES w chunked_default sr = (w1, s1, r)"
      by (metis prod_cases3)
    have g': "w' = w1" "g' = mark_if (is_complete s1) (put_back g1 (sr_cursor s1))" "res = r"
      using assms(6) q Inr r by (simp_all add: receiving_capture_and_write_def stream_capture_and_write_def)
    from memchr_lib.capture_loop_spec [OF assms(1) r inv(1) refl assms(2)]
    have "stream_wf (sr_conn s1)" "captured_ok W w w1 sr s1 R N r" by simp_all
    then obtain p where p: "stream_wf (sr_conn s1)" "prefix p R" "sent W w1 = sent W w @ p" "case r of
          Inl e \<Rightarrow> (p \<noteq> [] \<longrightarrow> stops e) \<and> (client_side e \<longrightarrow> kept s1 N)
        | Inr (n, cap) \<Rightarrow>
            p = R \<and> n = length R \<and> kept s1 N \<and> (\<forall>c. cap = Some c \<longrightarrow> capture_matches sr c R)"
      unfolding captured_ok_def by blast
    have "sr_kind sr = rc_kind request" "sr_shape sr = SingleLine \<longleftrightarrow> one_line cl"
      using assms(3) q Inr
      by (auto simp: classified_wf_def receiving_stream_def from_classification_def one_line_def Let_def
          split: sum.splits ResponseFrame.splits)
    then have "case res of Inl e \<Rightarrow> (p \<noteq> [] \<longrightarrow> stops e) \<and> (client_side e \<longrightarrow> kept s1 N)
      | Inr nc \<Rightarrow> (case nc of (n, captured) \<Rightarrow> p = R \<and> n = length R \<and> (\<forall>x. captured = Some x \<longrightarrow>
             to_vec (cc_bytes x) = R \<and> cc_kind x = rc_kind request \<and>
             cc_content_end x = (if one_line cl then length R else length R - 3))) \<and> kept s1 N"
      using p(4) g'(3) by (cases r) (auto simp: capture_matches_def split: ResponseShape.splits)
    from exchange_outcome [OF inv(2) g'(2) p(1) this] show ?thesis using p(2,3) unfolding g'(1)
      by (intro exI [of _ p]) (auto split: sum.splits)
  qed
qed

text \<open>
  C3. A response is transferred exactly. Let the unread input of a backend connection be the response
  \<open>R\<close> to the request followed by \<open>N\<close>, cut into reads in any way and with any read or write failing.
  Then the client receives a prefix of \<open>R\<close>. On success it is all of \<open>R\<close>, the response is marked
  complete and the input left for the next response is \<open>N\<close>. On an error after the first byte the
  session accepts no further response for this request. And a connection judged healthy has no queued
  bytes and exactly \<open>N\<close> left.
\<close>

theorem response_transfer_exact:
  assumes "memchr_lib (te_memchr E)" "writer_lib W" "stream_wf (cg_conn g)" "buffer_wf b"
    and "frames_as (te_memchr E) request (visible b @ stream_input (cg_conn g)) R N"
    and "read_unbound (te_memchr E) request (cg_conn g) b = (c, Inr cl)"
    and "receiving_write E W w (g\<lparr>cg_conn := c\<rparr>) cl = (w', g', res)"
  shows "\<exists>p. prefix p R \<and> sent W w' = sent W w @ p \<and>
    (case res of
       Inr n \<Rightarrow> (p = R \<and> n = length R) \<and> response_is_complete g' \<and> stream_input (cg_conn g') = N
     | Inl e \<Rightarrow> p \<noteq> [] \<longrightarrow> session_over (session_from_transfer e)) \<and>
    (transfer_fate g' res = BackendHealthy \<longrightarrow>
       pending_input (cg_conn g') = [] \<and> stream_input (cg_conn g') = N)"
proof -
  note cl = memchr_lib.read_unbound_classified_wf [OF assms(1,6,3,4)]
  show ?thesis by (rule receiving_write_exact [OF assms(1,2) cl(2) _ _ assms(7)]) (use cl assms(5) in simp_all)
qed


section \<open>Delivery\<close>

text \<open>
  A connection that keeps delivering: no read fails and no read is empty before the input ends. A
  buffer that can take a byte, and a writer whose writes succeed.
\<close>

definition delivering :: "ConnectionStream \<Rightarrow> bool" where
  "delivering c \<longleftrightarrow> list_all (\<lambda>x. case x of Inl _ \<Rightarrow> False | Inr bs \<Rightarrow> bs \<noteq> []) (cs_transport c)"

definition can_read :: "PooledBuffer \<Rightarrow> bool" where
  "can_read b \<longleftrightarrow> 0 < read_limit b \<and> read_limit b \<le> bs_capacity (pb_buffer b)"

definition reliable :: "'w writer_api \<Rightarrow> bool" where
  "reliable W \<longleftrightarrow> (\<forall>w b. snd (write_all W w b) = Inr ())"

lemma stream_poll_read_live:
  assumes "stream_poll_read c n = (c', res)" "delivering c" "stream_wf c" "0 < n" "stream_input c \<noteq> []"
  shows "delivering c' \<and> (\<exists>bs. res = Inr bs \<and> bs \<noteq> [])"
proof (cases "cs_pending c")
  case Nil
  then have "transport_input (cs_transport c) \<noteq> []" using assms(5) by (simp add: stream_input_def pending_input_def)
  then obtain bs ts where t: "cs_transport c = Inr bs # ts" "bs \<noteq> []"
    using assms(2) by (cases "cs_transport c") (auto simp: delivering_def split: sum.splits)
  then show ?thesis using assms(1,2,4) Nil
    by (auto simp: stream_poll_read_def delivering_def split: if_splits)
next
  case (Cons front rest)
  obtain f out where r: "read_into front n = (f, out)" by fastforce
  have "seg_ok front" using assms(3) Cons by (simp add: stream_wf_def)
  then show ?thesis using assms(1,2,4) Cons r read_into_spec(1) [OF r]
    by (auto simp: stream_poll_read_def delivering_def)
qed

lemma read_from_live:
  assumes "read_from stream_poll_read b c = (b', c', res)" "delivering c" "stream_wf c" "can_read b" "stream_input c \<noteq> []"
  shows "delivering c' \<and> can_read b' \<and> (\<exists>k. res = Inr k \<and> k \<noteq> 0)"
proof -
  let ?n = "min (read_limit b) (bs_capacity (pb_buffer b))"
  obtain c1 q where q: "stream_poll_read c ?n = (c1, q)" by fastforce
  have "0 < ?n" using assms(4) by (simp add: can_read_def)
  from stream_poll_read_live [OF q assms(2,3) this assms(5)]
  obtain bs where bs: "q = Inr bs" "bs \<noteq> []" "delivering c1" by blast
  have "b' = b\<lparr>pb_buffer := (storage_clear (pb_buffer b))\<lparr>bs_bytes := bs\<rparr>\<rparr>" "c' = c1" "res = Inr (length bs)"
    using assms(1,4) q bs(1)
    by (auto simp: read_from_def read_into_spare_def storage_read_from_def Let_def can_read_def read_limit_def
        split: if_splits)
  then show ?thesis using bs assms(4) by (auto simp: can_read_def read_limit_def storage_clear_def)
qed

abbreviation sr_live :: "StreamingResponse \<Rightarrow> bool" where
  "sr_live sr \<equiv> delivering (sr_conn sr) \<and> can_read (cu_io_buffer (sr_cursor sr))"

context memchr_lib
begin

lemma read_next_chunk_live:
  assumes "read_next_chunk E sr = (sr', res)" "resp_between E sr S R N" "te_memchr E = M" "sr_live sr"
  shows "sr_live sr' \<and> res = Inr ()"
proof -
  let ?cu = "sr_cursor sr"
  have B: "stream_wf (cu_conn ?cu)" "stream_input (cu_conn ?cu) \<noteq> []"
    using assms(2) by (auto simp: resp_between_def)
  obtain b c q where q: "read_from stream_poll_read (cu_io_buffer ?cu) (cu_conn ?cu) = (b, c, q)" by (metis prod_cases3)
  from read_from_live [OF q _ B(1) _ B(2)] assms(4)
  obtain k where k: "q = Inr k" "k \<noteq> 0" "delivering c" "can_read b" by auto
  have "sr_live sr' \<and> (\<forall>e. res = Inl e \<longrightarrow> (\<exists>f. e = TransferIo (FramingCause f)))"
    using assms(1) q k by (auto simp: read_next_chunk_def Let_def frame_next_chunk_def split: prod.splits sum.splits)
  moreover have "\<not> isl res"
  proof -
    obtain f' r where f': "split_chunk M (te_target E) (cu_framer ?cu) (visible b) AllowIfStatusPrefix = (f', r)" by fastforce
    have V: "stream_input (cu_conn ?cu) = visible b @ stream_input c" using conn.read_from_spec [OF q B(1)] k(1) by simp
    have "\<exists>p. r = Inr p"
      using frame_window [of "cu_framer ?cu" S "[]" R "visible b" "stream_input c" N "te_target E" f' r] f' V assms(2,3)
      by (auto simp: resp_between_def)
    then show ?thesis using assms(1,2,3) q k f'
      by (auto simp: read_next_chunk_def Let_def frame_next_chunk_def frame_with_policy_def resp_between_def)
  qed
  ultimately show ?thesis by (cases res) auto
qed

lemma write_remaining_live:
  assumes "write_current_and_remaining_chunks E W w stats sr = (w', sr', res)" "resp_inv E sr S R N"
    "te_memchr E = M" "writer_lib W" "reliable W" "sr_live sr"
  shows "\<exists>s. res = Inr s"
  using assms
proof (induction E W w stats sr arbitrary: w' sr' res S rule: write_current_and_remaining_chunks.induct)
  case (1 E W w stats sr)
  let ?cu = "sr_cursor sr"
  note unfold = write_current_and_remaining_chunks.simps [of E W w stats sr] Let_def
  show ?case
  proof (cases "cu_frame ?cu")
    case (CompleteWindow r n)
    note c = resp_inv_complete [OF "1.prems"(2) CompleteWindow]
    obtain b' c' where q: "queue_pooled_next_response_input E n (cu_io_buffer ?cu) (sr_conn sr) = (b', c', Inr ())"
      using queue_pooled_next_spec [OF c(6,7,3), of E] unfolding c(2) by metis
    obtain w1 where "write_all W w (subrange (fst r) (snd r) (sr_window sr)) = (w1, Inr ())"
      using "1.prems"(5) by (metis reliable_def prod.collapse)
    then show ?thesis using "1.prems"(1) CompleteWindow q
      by (auto simp: unfold write_response_chunk_preserving_suffix_on_error_def)
  next
    case (IncompleteWindow r)
    note bt = resp_inv_between [OF "1.prems"(2) IncompleteWindow]
    obtain w1 u where u: "write_all W w (subrange (fst r) (snd r) (sr_window sr)) = (w1, u)" "u = Inr ()"
      using "1.prems"(5) by (metis reliable_def prod.collapse)
    obtain s1 q where q: "read_next_chunk E sr = (s1, q)" by fastforce
    have l: "sr_live s1" "q = Inr ()" using read_next_chunk_live [OF q bt "1.prems"(3,6)] by auto
    have inv: "resp_inv E s1 (S @ sr_window sr) R N" using read_next_chunk_spec [OF q bt "1.prems"(3)] l(2) by simp
    have L: "write_current_and_remaining_chunks E W w1
        (add_chunk (length (subrange (fst r) (snd r) (sr_window sr))) stats) s1 = (w', sr', res)"
      using "1.prems"(1) IncompleteWindow u q l(2) by (simp add: unfold)
    show ?thesis
      by (rule "1.IH" [OF refl IncompleteWindow refl u(1) [symmetric] u(2) refl q [symmetric] l(2) L inv "1.prems"(3,4,5) l(1)])
  qed
qed

end

lemma read_more_live:
  assumes "read_more stream_poll_read b c = (b', c', res)" "delivering c" "stream_wf c" "buffer_wf b" "can_read b"
    "stream_input c \<noteq> []" "length (visible b) < read_limit b"
  shows "delivering c' \<and> can_read b' \<and> (\<exists>k. res = Inr k \<and> k \<noteq> 0)"
proof -
  let ?st = "compact_visible_if_tail_full (pb_buffer b)"
  let ?n = "min (read_limit b - initialized_len ?st) (bs_capacity ?st - length (bs_bytes ?st))"
  have vis: "initialized_len ?st = length (visible b)"
    using length_as_slice [of ?st] by simp
  have "length (bs_bytes ?st) < bs_capacity ?st"
    using compact_spare [OF assms(4)] assms(5,7) length_as_slice [of "pb_buffer b"] by (simp add: can_read_def)
  then have n: "0 < ?n" using assms(7) vis by simp
  obtain c1 q where q: "stream_poll_read c ?n = (c1, q)" by fastforce
  obtain bs where bs: "q = Inr bs" "bs \<noteq> []" "delivering c1"
    using stream_poll_read_live [OF q assms(2,3) n assms(6)] by blast
  have lim: "read_limit (b\<lparr>pb_buffer := ?st\<rparr>) = read_limit b" by (simp add: read_limit_def)
  have "storage_read_from stream_poll_read ?st c (read_limit b - initialized_len ?st) =
      (?st\<lparr>bs_bytes := bs_bytes ?st @ bs\<rparr>, c1, Inr (length bs))"
    using n q bs(1) unfolding storage_read_from_def Let_def by (auto simp: min_def split: if_splits)
  then have "b' = b\<lparr>pb_buffer := ?st\<lparr>bs_bytes := bs_bytes ?st @ bs\<rparr>\<rparr>" "c' = c1" "res = Inr (length bs)"
    using assms(1) by (simp_all add: read_more_def read_into_spare_def Let_def lim)
  then show ?thesis using bs assms(5) by (auto simp: can_read_def read_limit_def)
qed

context memchr_lib
begin

lemma read_unbound_live:
  assumes "stream_wf c" "buffer_wf b" "delivering c" "can_read b"
    "status_line_len M (visible b @ stream_input c) = Some e" "e \<le> read_limit b"
  shows "\<exists>c' cl. read_unbound M request c b = (c', Inr cl) \<and> delivering c' \<and> can_read (cl_buffer cl)"
  using assms
proof (induction "stream_measure c" arbitrary: c b rule: less_induct)
  case less
  show ?case
  proof (cases "parse_bytes M request (visible b) = Err ReadIncomplete")
    case False
    then show ?thesis using less.prems by (auto simp: read_unbound.simps [of M request c b])
  next
    case True
    obtain b1 c1 q where q: "read_more stream_poll_read b c = (b1, c1, q)" by (metis prod_cases3)
    note rd = conn.read_more_spec [OF q less.prems(2,1)]
    have none: "status_line_len M (visible b) = None"
      using True by (auto simp: parse_bytes_def split: option.splits if_splits prod.splits)
    then have "length (visible b) < e" "stream_input c \<noteq> []"
      using less.prems(5) by (auto simp: status_line_len_def position_append split: option.splits)
    from read_more_live [OF q less.prems(3,1,2,4) this(2)] this(1) less.prems(6)
    obtain k where k: "q = Inr k" "k \<noteq> 0" "delivering c1" "can_read b1" by auto
    then have "read_unbound M request c b = read_unbound M request c1 b1"
      using True q by (simp add: read_unbound.simps [of M request c b])
    moreover have "\<exists>c' cl. read_unbound M request c1 b1 = (c', Inr cl) \<and> delivering c' \<and> can_read (cl_buffer cl)"
      using read_more_measure [OF q [unfolded k(1)] k(2)] rd k less.prems(5,6) by (intro less.hyps) auto
    ultimately show ?thesis by simp
  qed
qed

lemma append_to_retained_live:
  assumes "append_to_retained_prefix_if_writable E sr = (sr', res)" "resp_inv E sr S R N" "te_memchr E = M" "sr_live sr"
  shows "sr_live sr' \<and> res = Inr ()"
proof (cases "\<exists>w. cu_frame (sr_cursor sr) = IncompleteWindow w \<and> retained_append_permit (cu_io_buffer (sr_cursor sr))")
  case False
  then show ?thesis using assms(1,4)
    by (auto simp: append_to_retained_prefix_if_writable_def Let_def split: ResponseWindow.splits if_splits)
next
  case True
  let ?cu = "sr_cursor sr" and ?V = "sr_window sr"
  obtain w where w: "cu_frame ?cu = IncompleteWindow w" "retained_append_permit (cu_io_buffer ?cu)" using True by blast
  have "length ((S @ ?V) @ stream_input (cu_conn ?cu)) = length (R @ N)" "length (S @ ?V) < length R"
    using resp_inv_between [OF assms(2) w(1)] unfolding resp_between_def by metis+
  then have B: "stream_wf (cu_conn ?cu)" "buffer_wf (cu_io_buffer ?cu)" "stream_input (cu_conn ?cu) \<noteq> []"
    using assms(2) by (auto simp: resp_inv_def)
  have "length ?V < read_limit (cu_io_buffer ?cu)" using w(2) by (auto simp: retained_append_permit_def length_as_slice)
  moreover obtain b c q where q: "read_more stream_poll_read (cu_io_buffer ?cu) (cu_conn ?cu) = (b, c, q)" by (metis prod_cases3)
  ultimately obtain k where k: "q = Inr k" "k \<noteq> 0" "delivering c" "can_read b"
    using read_more_live [OF q _ B(1,2) _ B(3)] assms(4) by auto
  have "sr_live sr' \<and> (\<forall>e. res = Inl e \<longrightarrow> e = TransferIo Panicked)"
    using assms(1) w q k
    by (auto simp: append_to_retained_prefix_if_writable_def permit_read_def Let_def split: prod.splits sum.splits)
  moreover have "res \<noteq> Inl (TransferIo Panicked)"
  proof -
    obtain f' r where f': "split_chunk M (te_target E) (cu_framer ?cu) (drop (length ?V) (visible b)) AllowIfStatusPrefix = (f', r)"
      by fastforce
    obtain bs where V: "visible b = ?V @ bs" "stream_input (cu_conn ?cu) = bs @ stream_input c"
      using conn.read_more_spec [OF q B(2,1)] k(1) by auto
    have "\<exists>p. r = Inr p"
      using frame_window [of "cu_framer ?cu" S ?V R bs "stream_input c" N "te_target E" f' r] f' V assms(2,3) w(1)
      by (auto simp: resp_inv_def is_complete_def)
    then show ?thesis using assms(1,2,3) w q k f'
      by (auto simp: append_to_retained_prefix_if_writable_def permit_read_def Let_def split_appended_def
          resp_inv_def initialized_def length_as_slice)
  qed
  ultimately show ?thesis by (cases res) auto
qed

end

lemma read_unbound_classified:
  "read_unbound M request c b = (c', Inr cl) \<Longrightarrow> cl_frame cl \<noteq> Inl ReadIncomplete"
proof (induction M request c b rule: read_unbound.induct)
  case (1 M request c b)
  then show ?case
    by (auto simp: read_unbound.simps [of M request c b] Let_def split: if_splits prod.splits sum.splits)
qed

lemma digit_of_LF: "digit_of LF > 9"
  by code_simp

lemma status_parse_prefix_None:
  assumes "status_parse V = None" "i < length V" "V ! i = LF" "\<forall>j < i. V ! j \<noteq> LF"
  shows "status_parse (V @ D) = None"
proof (cases "length V < 3")
  case True
  then have "i < 3" "(V @ D) ! i = LF" using assms(2,3) by (auto simp: nth_append)
  then show ?thesis using digit_of_LF
    by (cases "i = 0"; cases "i = 1"; cases "i = 2") (auto simp: status_parse_def Let_def numeral_2_eq_2)
next
  case False
  then show ?thesis using assms(1) by (auto simp: status_parse_def nth_append)
qed

context memchr_lib
begin

lemma parse_bytes_defined:
  assumes "\<not> isl (parse_bytes M request (V @ D))" "parse_bytes M request V = Inl e"
  shows "e = ReadIncomplete"
proof (cases "status_line_len M V")
  case None
  then show ?thesis using assms(2) by (simp add: parse_bytes_def)
next
  case (Some k)
  then obtain i where i: "i < length V" "V ! i = LF" "\<forall>j < i. V ! j \<noteq> LF"
    by (auto simp: status_line_len_def position_Some_iff)
  have "status_parse V = None"
    using Some assms(2) by (auto simp: parse_bytes_def parse_response_status_def Let_def split: option.splits if_splits)
  from status_parse_prefix_None [OF this i, of D] status_line_len_append [OF Some, of D] assms(1)
  show ?thesis by (simp add: parse_bytes_def parse_response_status_def Let_def)
qed

end

section \<open>A sample exchange\<close>

text \<open>
  The reply to a BODY command in two reads: the first cuts the terminator, the second also brings the
  start of the next response.
\<close>

definition sample_env :: transfer_env where
  "sample_env = \<lparr>te_memchr = memchr_ref, te_target = Avx2, te_capacity = (\<lambda>n. n), te_buffer_size = 8,
     te_backend_id = BackendId 0\<rparr>"

definition sample_response :: bytes where
  "sample_response = ''222 b'' @ CRLF @ ''x'' @ CRLF @ ''.'' @ CRLF"

definition sample_guard :: ConnectionGuard where
  "sample_guard = idle_new (stream_new
     [Inr (''222 b'' @ CRLF @ ''x'' @ CRLF @ ''.''), Inr (CRLF @ ''430'')])"

definition sample_request :: RequestContext where
  "sample_request = from_verb_args ''BODY'' ''<a@b>''"

definition sample_read :: "ConnectionStream \<times> (ReadUnboundError + ClassifiedResponse)" where
  "sample_read = read_unbound memchr_ref sample_request (cg_conn sample_guard) (pool_acquire sample_env)"

lemma next_input_ok_code:
  assumes "list_all (\<lambda>k. plausible_status_prefix M (take k N)) [0..<Suc (length N)]"
  shows "next_input_ok M N"
  unfolding next_input_ok_def
proof
  fix k show "plausible_status_prefix M (take k N)"
    using assms by (cases "k \<le> length N") (auto simp: list_all_iff)
qed

lemma sample_env_simps [simp]: "te_memchr sample_env = memchr_ref" "memchr_lib memchr_ref"
  by (simp_all add: sample_env_def memchr_ref.memchr_lib_axioms)

lemma sample_guard_ok [simp]: "stream_wf (cg_conn sample_guard)" "delivering (cg_conn sample_guard)"
  by (simp_all add: sample_guard_def idle_new_def stream_new_def stream_wf_def delivering_def)

lemma sample_buffer_ok [simp]: "buffer_wf (pool_acquire sample_env)" "can_read (pool_acquire sample_env)"
  "visible (pool_acquire sample_env) = []" "read_limit (pool_acquire sample_env) = 8"
  by (simp_all add: pool_acquire_def can_read_def read_limit_def acquire_def create_aligned_buffer_def storage_new_def
      sample_env_def Let_def as_slice_def storage_wf_def)

lemma sample_input: "stream_input (cg_conn sample_guard) = sample_response @ ''430''"
  by code_simp

lemma sample_next: "next_input_ok memchr_ref ''430''"
  by (rule next_input_ok_code) code_simp

lemma sample_frames: "frames_as memchr_ref sample_request (stream_input (cg_conn sample_guard)) sample_response ''430''"
proof -
  have "case parse_bytes memchr_ref sample_request (sample_response @ ''430'') of
      Inr (MultilineFrame _ _) \<Rightarrow> True | _ \<Rightarrow> False" by code_simp
  moreover have "first_term_end sample_response = Some (length sample_response)" by code_simp
  ultimately show ?thesis using sample_next unfolding frames_as_def sample_input one_response_def
    by (auto split: sum.splits ResponseFrame.splits)
qed

lemma sample_status_line: "status_line_len memchr_ref (sample_response @ ''430'') = Some 7"
  by code_simp

lemma sample_read_ok: "read_unbound memchr_ref sample_request (cg_conn sample_guard) (pool_acquire sample_env) =
    (fst sample_read, Inr (projr (snd sample_read)))"
  using memchr_lib.read_unbound_live [of memchr_ref "cg_conn sample_guard" "pool_acquire sample_env" 7 sample_request]
    sample_status_line by (auto simp: sample_read_def sample_input)

text \<open>
  C25. Delivery: when no read fails before the response has arrived, the status line fits in the read
  buffer and the client's writes succeed, the exchange reads, classifies and writes the response, and
  the client receives all of it.
\<close>

theorem response_delivered:
  assumes "memchr_lib (te_memchr E)" "writer_lib W" "reliable W" "stream_wf (cg_conn g)" "delivering (cg_conn g)"
    and "buffer_wf b" "can_read b"
    and "frames_as (te_memchr E) request (visible b @ stream_input (cg_conn g)) R N"
    and "status_line_len (te_memchr E) (visible b @ stream_input (cg_conn g)) = Some e" "e \<le> read_limit b"
  shows "\<exists>c cl w' g'. read_unbound (te_memchr E) request (cg_conn g) b = (c, Inr cl) \<and>
    receiving_write E W w (g\<lparr>cg_conn := c\<rparr>) cl = (w', g', Inr (length R)) \<and> sent W w' = sent W w @ R"
proof -
  obtain c cl where r: "read_unbound (te_memchr E) request (cg_conn g) b = (c, Inr cl)" "delivering c"
    "can_read (cl_buffer cl)"
    using memchr_lib.read_unbound_live [OF assms(1,4,6,5,7,9,10)] by blast
  have cl: "stream_wf c" "buffer_wf (cl_buffer cl)" "cl_frame cl = parse_bytes (te_memchr E) request (visible (cl_buffer cl))"
    "frames_as (te_memchr E) request (visible (cl_buffer cl) @ stream_input c) R N"
    using memchr_lib.read_unbound_spec [OF assms(1) r(1) assms(4,6)] assms(8) by simp_all
  have D: "\<not> isl (parse_bytes (te_memchr E) request (visible (cl_buffer cl) @ stream_input c))"
    using cl(4) by (auto simp: frames_as_def split: sum.splits)
  obtain frame where fr: "cl_frame cl = Inr frame"
    using memchr_lib.parse_bytes_defined [OF assms(1) D] read_unbound_classified [OF r(1)] cl(3) by (metis sum.exhaust)
  from memchr_lib.from_classification_inv [OF assms(1) fr [unfolded cl(3)] cl(4,1,2) refl, of "cl_kind cl"]
  obtain sr where sr: "from_classification E (cl_kind cl) (cl_frame cl) (cl_buffer cl) c = Inr sr" "resp_inv E sr [] R N"
    using fr by metis
  have "sr_conn sr = c" "cu_io_buffer (sr_cursor sr) = cl_buffer cl"
    using sr(1) by (auto simp: from_classification_def cursor_begin_after_status_line_def split: sum.splits ResponseFrame.splits)
  then have live: "sr_live sr" using r by simp
  obtain s1 q where q: "append_to_retained_prefix_if_writable E sr = (s1, q)" by fastforce
  have s1: "sr_live s1" "q = Inr ()" "resp_inv E s1 [] R N"
    using memchr_lib.append_to_retained_live [OF assms(1) q sr(2) refl live]
      memchr_lib.append_to_retained_spec [OF assms(1) q sr(2) refl] by auto
  obtain w1 s2 res where w1: "write_current_and_remaining_chunks E W w stats_default s1 = (w1, s2, res)" by (metis prod_cases3)
  obtain st where st: "res = Inr st"
    using memchr_lib.write_remaining_live [OF assms(1) w1 s1(3) refl assms(2,3) s1(1)] by blast
  have "wrote W w w1 R 0 s2 N (Inr st)"
    using memchr_lib.write_remaining_spec [OF assms(1) w1 s1(3) refl assms(2)] st by simp
  then have "sent W w1 = sent W w @ R" "ws_bytes_written st = length R" by (auto simp: wrote_def)
  moreover have "\<exists>g'. receiving_write E W w (g\<lparr>cg_conn := c\<rparr>) cl = (w1, g', Inr (ws_bytes_written st))"
    using sr(1) q s1(2) w1 st
    by (auto simp: receiving_write_def receiving_stream_def stream_write_def stream_mut_def Let_def)
  ultimately show ?thesis using r(1) by metis
qed

theorem response_delivered_witness:
  "\<exists>c cl w' g'. read_unbound memchr_ref sample_request (cg_conn sample_guard) (pool_acquire sample_env) = (c, Inr cl) \<and>
     receiving_write sample_env open_api [] (sample_guard\<lparr>cg_conn := c\<rparr>) cl = (w', g', Inr (length sample_response)) \<and>
     w' = sample_response"
  using response_delivered [of sample_env open_api sample_guard "pool_acquire sample_env" sample_request sample_response
      "''430''" 7 "[]"] sample_frames sample_status_line open_conn.writer_lib_axioms
  by (simp add: sample_input reliable_def)

theorem response_transfer_exact_witness:
  "case receiving_write sample_env open_api [] (sample_guard\<lparr>cg_conn := fst sample_read\<rparr>) (projr (snd sample_read)) of
     (w', g', res) \<Rightarrow> prefix w' sample_response \<and>
       (transfer_fate g' res = BackendHealthy \<longrightarrow> stream_input (cg_conn g') = ''430'')"
proof -
  obtain w' g' res where r: "receiving_write sample_env open_api [] (sample_guard\<lparr>cg_conn := fst sample_read\<rparr>)
      (projr (snd sample_read)) = (w', g', res)" by (metis prod_cases3)
  then show ?thesis
    using response_transfer_exact [of sample_env open_api sample_guard "pool_acquire sample_env" sample_request
        sample_response "''430''" "fst sample_read" "projr (snd sample_read)" "[]" w' g' res]
      sample_frames sample_read_ok open_conn.writer_lib_axioms by auto
qed


section \<open>Any backend input\<close>

text \<open>
  Without an assumption on what the backend sends, the windows still lie inside the buffer, and a
  transfer that has sent a byte ends in an error that stops the session.
\<close>

definition window_inside :: "bytes \<Rightarrow> bytes \<Rightarrow> MultilineFramer \<Rightarrow> ResponseShape \<Rightarrow> ResponseWindow \<Rightarrow> bool" where
  "window_inside S V f shape w \<longleftrightarrow>
     (case w of
        CompleteWindow r n \<Rightarrow>
          \<exists>k. r = (0, k) \<and> n = (k, length V) \<and> k \<le> length V \<and> (shape = Multiline \<longrightarrow> 5 \<le> length S + k)
      | IncompleteWindow r \<Rightarrow> r = (0, length V) \<and> V \<noteq> [] \<and> framer_seen f (S @ V))"

definition sr_wf :: "StreamingResponse \<Rightarrow> bytes \<Rightarrow> bool" where
  "sr_wf sr S \<longleftrightarrow>
     stream_wf (sr_conn sr) \<and> buffer_wf (cu_io_buffer (sr_cursor sr)) \<and>
     cu_packed_policy (sr_cursor sr) = AllowIfStatusPrefix \<and>
     window_inside S (sr_window sr) (cu_framer (sr_cursor sr)) (sr_shape sr) (cu_frame (sr_cursor sr))"

lemma find_iter_sub_bound: "i \<in> set (find_iter_sub n h) \<Longrightarrow> i + length n \<le> length h"
proof (induction n h arbitrary: i rule: find_iter_sub.induct)
  case (1 n h)
  show ?case
  proof (cases "find_sub n h")
    case None
    then show ?thesis using "1.prems" by (simp add: find_iter_sub.simps [of n h] split: if_splits)
  next
    case (Some k)
    note b = find_sub_bound [OF Some]
    consider "i = k" | j where "n \<noteq> []" "i = k + length n + j" "j \<in> set (find_iter_sub n (drop (k + length n) h))"
      using "1.prems" Some by (auto simp: find_iter_sub.simps [of n h] split: if_splits)
    then show ?thesis using b "1.IH" Some by cases fastforce+
  qed
qed

lemma split_ends_allow: "split_ends M c AllowIfStatusPrefix es = Some r \<Longrightarrow> \<exists>e \<in> set es. r = Inr e"
  by (induction es) (auto split: if_splits)

context memchr_lib
begin

lemma split_chunk_allow:
  assumes "split_chunk M t f c AllowIfStatusPrefix = (f', r)" "framer_seen f S"
  shows "(\<exists>k. r = Inr (Complete k) \<and> k \<le> length c \<and> 5 \<le> length S + k) \<or>
    r = Inr Incomplete \<and> framer_seen f' (S @ c)"
proof -
  have sp: "k \<le> length c \<and> 5 \<le> length S + k" if "find_spanning_terminator f c = Some k" for k
  proof -
    have "ends_at S c k"
      using that unfolding find_spanning_terminator_ends [OF assms(2)] by (auto split: if_splits)
    then show ?thesis by (auto simp: ends_at_term_end term_end_iff)
  qed
  have "length TERMINATOR = 5" by (simp add: TERMINATOR_def)
  then have en: "k \<le> length c \<and> 5 \<le> k" if "k \<in> set (terminator_ends_in_chunk M t c)" for k
    using that find_iter_sub_bound [of _ TERMINATOR c] by (auto simp: terminator_ends_eq)
  have en': "k \<le> length c \<and> 5 \<le> length S + k" if "split_ends M c AllowIfStatusPrefix (terminator_ends_in_chunk M t c) = Some (Inr k)" for k
    using split_ends_allow [OF that] en by fastforce
  have no: "split_ends M c AllowIfStatusPrefix (terminator_ends_in_chunk M t c) \<noteq> Some (Inl e)" for e
    using split_ends_allow [of M c "terminator_ends_in_chunk M t c" "Inl e"] by blast
  show ?thesis
    using assms(1) sp en' no framer_seen_update [OF assms(2), of c]
    by (auto simp: split_chunk_def split: option.splits sum.splits if_splits)
qed

lemma window_inside_frame:
  assumes "split_chunk M t f c AllowIfStatusPrefix = (f', r)" "framer_seen f (S @ P)" "P @ c \<noteq> []"
  shows "\<exists>p. r = Inr p \<and> window_inside S (P @ c) f' shape (in_window p (length P) (length P + length c))"
  using split_chunk_allow [OF assms(1,2)] assms(3) by (auto simp: window_inside_def in_window_def Let_def)

lemma read_next_chunk_wf:
  assumes "read_next_chunk E sr = (sr', res)" "te_memchr E = M" "stream_wf (sr_conn sr)"
    "cu_packed_policy (sr_cursor sr) = AllowIfStatusPrefix" "framer_seen (cu_framer (sr_cursor sr)) S"
  shows "stream_wf (sr_conn sr') \<and> same_response sr sr' \<and> (case res of Inl e \<Rightarrow> \<not> stops e | Inr u \<Rightarrow> sr_wf sr' S)"
proof -
  let ?cu = "sr_cursor sr"
  obtain b c q where q: "read_from stream_poll_read (cu_io_buffer ?cu) (cu_conn ?cu) = (b, c, q)" by (metis prod_cases3)
  note rd = conn.read_from_spec [OF q assms(3)]
  show ?thesis
  proof (cases "\<exists>k. q = Inr k \<and> k \<noteq> 0")
    case False
    then show ?thesis using assms(1) q rd
      by (cases q) (auto simp: read_next_chunk_def Let_def same_response_def)
  next
    case True
    then have V: "visible b \<noteq> []" "stream_wf c" "buffer_wf b" using rd by auto
    obtain f' r where f': "split_chunk M (te_target E) (cu_framer ?cu) (visible b) AllowIfStatusPrefix = (f', r)" by fastforce
    obtain p where p: "r = Inr p" "window_inside S (visible b) f' (sr_shape sr) (in_window p 0 (length (visible b)))"
      using window_inside_frame [OF f', of S "[]" "sr_shape sr"] assms(5) V(1) by auto
    have "\<exists>n. sr' = sr\<lparr>sr_cursor := ?cu\<lparr>cu_io_buffer := b, cu_conn := c, cu_framer := f',
        cu_frame := in_window p 0 (length (visible b))\<rparr>, sr_bytes_received := n\<rparr> \<and> res = Inr ()"
      using assms(1,2,4) q True f' p(1)
      by (auto simp: read_next_chunk_def Let_def frame_next_chunk_def frame_with_policy_def)
    then show ?thesis using V assms(4) p(2) by (auto simp: sr_wf_def same_response_def)
  qed
qed

lemma sr_wf_incomplete:
  assumes "sr_wf sr S" "cu_frame (sr_cursor sr) = IncompleteWindow r"
  shows "subrange (fst r) (snd r) (sr_window sr) = sr_window sr" "sr_window sr \<noteq> []" "r = (0, length (sr_window sr))"
    "stream_wf (sr_conn sr)" "cu_packed_policy (sr_cursor sr) = AllowIfStatusPrefix"
    "framer_seen (cu_framer (sr_cursor sr)) (S @ sr_window sr)"
  using assms by (auto simp: sr_wf_def window_inside_def)

lemma sr_wf_complete:
  assumes "sr_wf sr S" "cu_frame (sr_cursor sr) = CompleteWindow r n"
  obtains k where "r = (0, k)" "n = (k, length (sr_window sr))" "k \<le> length (sr_window sr)"
    "stream_wf (sr_conn sr)" "buffer_wf (cu_io_buffer (sr_cursor sr))" "sr_shape sr = Multiline \<longrightarrow> 5 \<le> length S + k"
  using assms by (auto simp: sr_wf_def window_inside_def)

lemma drain_wf:
  assumes "drain E sr = (sr', res)" "te_memchr E = M" "sr_wf sr S"
  shows "stream_wf (sr_conn sr')"
  using assms
proof (induction E sr arbitrary: sr' res S rule: drain.induct)
  case (1 E sr)
  show ?case
  proof (cases "cu_frame (sr_cursor sr)")
    case (CompleteWindow r n)
    obtain k where k: "n = (k, length (sr_window sr))" "stream_wf (sr_conn sr)"
      by (rule sr_wf_complete [OF "1.prems"(3) CompleteWindow])
    obtain c' q where q: "queue_next_response_input n (cu_io_buffer (sr_cursor sr)) (sr_conn sr) = (c', q)" by fastforce
    then show ?thesis using "1.prems"(1) CompleteWindow queue_next_response_input_spec(1) [OF q [unfolded k(1)] k(2)]
      by (auto simp: drain.simps [of E sr])
  next
    case (IncompleteWindow r)
    note i = sr_wf_incomplete [OF "1.prems"(3) IncompleteWindow]
    obtain s1 q where q: "read_next_chunk E sr = (s1, q)" by fastforce
    note rd = read_next_chunk_wf [OF q "1.prems"(2) i(4,5,6)]
    show ?thesis
    proof (cases q)
      case (Inl e)
      then show ?thesis using "1.prems"(1) IncompleteWindow q rd by (auto simp: drain.simps [of E sr])
    next
      case (Inr u)
      then have "drain E s1 = (sr', res)" "sr_wf s1 (S @ sr_window sr)"
        using "1.prems"(1) IncompleteWindow q rd by (auto simp: drain.simps [of E sr])
      from "1.IH" [OF IncompleteWindow q [symmetric] Inr this(1) "1.prems"(2) this(2)] show ?thesis .
    qed
  qed
qed

lemma write_remaining_stops:
  assumes "write_current_and_remaining_chunks E W w stats sr = (w', sr', res)" "te_memchr E = M" "sr_wf sr S"
  shows "stream_wf (sr_conn sr') \<and> (\<forall>e. res = Inl e \<longrightarrow> stops e) \<and> (\<forall>s. res = Inr s \<longrightarrow> is_complete sr')"
  using assms
proof (induction E W w stats sr arbitrary: w' sr' res S rule: write_current_and_remaining_chunks.induct)
  case (1 E W w stats sr)
  let ?cu = "sr_cursor sr"
  note unfold = write_current_and_remaining_chunks.simps [of E W w stats sr] Let_def
  show ?case
  proof (cases "cu_frame ?cu")
    case (CompleteWindow r n)
    obtain k where k: "n = (k, length (sr_window sr))" "k \<le> length (sr_window sr)" "stream_wf (sr_conn sr)"
      "buffer_wf (cu_io_buffer ?cu)"
      by (rule sr_wf_complete [OF "1.prems"(3) CompleteWindow])
    obtain b' c' where q: "queue_pooled_next_response_input E n (cu_io_buffer ?cu) (sr_conn sr) = (b', c', Inr ())" "stream_wf c'"
      using queue_pooled_next_spec [OF k(3,4,2), of E] unfolding k(1) by metis
    obtain w1 u where "write_all W w (subrange (fst r) (snd r) (sr_window sr)) = (w1, u)" by fastforce
    then show ?thesis using "1.prems"(1) CompleteWindow q
      by (cases u) (auto simp: unfold write_response_chunk_preserving_suffix_on_error_def is_complete_def)
  next
    case (IncompleteWindow r)
    note i = sr_wf_incomplete [OF "1.prems"(3) IncompleteWindow]
    obtain w1 u where u: "write_all W w (sr_window sr) = (w1, u)" by fastforce
    obtain s1 q where q: "read_next_chunk E sr = (s1, q)" by fastforce
    note rd = read_next_chunk_wf [OF q "1.prems"(2) i(4,5,6)]
    obtain sd d where d: "drain E sr = (sd, d)" by fastforce
    consider (write_failed) e where "u = Inl e" | (read_failed) e where "u = Inr ()" "q = Inl e"
      | (more) "u = Inr ()" "q = Inr ()" by (cases u; cases q) auto
    then show ?thesis
    proof cases
      case write_failed
      then show ?thesis using "1.prems"(1) IncompleteWindow u d i(1) drain_wf [OF d "1.prems"(2,3)] by (auto simp: unfold)
    next
      case read_failed
      then show ?thesis using "1.prems"(1) IncompleteWindow u q i(1,2) rd by (auto simp: unfold)
    next
      case more
      have L: "write_current_and_remaining_chunks E W w1 (add_chunk (length (sr_window sr)) stats) s1 = (w', sr', res)"
        using IncompleteWindow u q more i(1) "1.prems"(1) by (simp add: unfold)
      have "sr_wf s1 (S @ sr_window sr)" using rd more by simp
      from "1.IH" [OF refl IncompleteWindow refl, unfolded i(1), OF u [symmetric] more(1) refl q [symmetric] more(2)
          L "1.prems"(2) this]
      show ?thesis .
    qed
  qed
qed

lemma append_to_retained_wf:
  assumes "append_to_retained_prefix_if_writable E sr = (sr', res)" "te_memchr E = M" "sr_wf sr S"
  shows "stream_wf (sr_conn sr') \<and> (case res of Inl e \<Rightarrow> \<not> stops e | Inr u \<Rightarrow> sr_wf sr' S)"
proof (cases "\<exists>w. cu_frame (sr_cursor sr) = IncompleteWindow w \<and> retained_append_permit (cu_io_buffer (sr_cursor sr))")
  case False
  then have "sr' = sr" "res = Inr ()"
    using assms(1) by (auto simp: append_to_retained_prefix_if_writable_def Let_def split: ResponseWindow.splits if_splits)
  then show ?thesis using assms(3) by (simp add: sr_wf_def)
next
  case permit: True
  let ?cu = "sr_cursor sr" and ?V = "sr_window sr"
  obtain w where w: "cu_frame ?cu = IncompleteWindow w" using permit by blast
  note i = sr_wf_incomplete [OF assms(3) w]
  have b: "buffer_wf (cu_io_buffer ?cu)" using assms(3) by (simp add: sr_wf_def)
  obtain b' c q where q: "permit_read stream_poll_read (cu_io_buffer ?cu) (cu_conn ?cu) = (b', c, q)" by (metis prod_cases3)
  note rd = conn.permit_read_spec [OF q b i(4)]
  show ?thesis
  proof (cases "\<exists>k. q = Inr (AppendData k)")
    case False
    then show ?thesis using assms(1) q rd w permit
      by (auto simp: append_to_retained_prefix_if_writable_def Let_def split: sum.splits AppendOutcome.splits)
  next
    case True
    then obtain bs where V: "q = Inr (AppendData (length ?V))" "visible b' = ?V @ bs" "stream_wf c" "buffer_wf b'"
      using rd by auto
    obtain f' r where f': "split_chunk M (te_target E) (cu_framer ?cu) bs AllowIfStatusPrefix = (f', r)" by fastforce
    obtain p where p: "r = Inr p"
      "window_inside S (?V @ bs) f' (sr_shape sr) (in_window p (length ?V) (length ?V + length bs))"
      using window_inside_frame [OF f' i(6), of "sr_shape sr"] i(2) by auto
    have sa: "split_appended M (te_target E) (cu_framer ?cu) (visible b') (length ?V) AllowIfStatusPrefix =
        (f', Inr (in_window p (length ?V) (length ?V + length bs)))"
      using f' p(1) V(2) by (simp add: split_appended_def)
    have "\<exists>n. sr' = sr\<lparr>sr_cursor := ?cu\<lparr>cu_io_buffer := b', cu_conn := c, cu_framer := f',
        cu_frame := in_window p (length ?V) (length ?V + length bs)\<rparr>, sr_bytes_received := n\<rparr> \<and> res = Inr ()"
      using assms(1,2) q V(1) i(5) sa w permit by (auto simp: append_to_retained_prefix_if_writable_def Let_def)
    then show ?thesis using V i(5) p(2) by (auto simp: sr_wf_def)
  qed
qed

lemma observe_stream_wf:
  assumes "observe_stream E sr = (sr', res)" "te_memchr E = M" "sr_wf sr S"
  shows "stream_wf (sr_conn sr')"
proof (cases "cu_frame (sr_cursor sr)")
  case (CompleteWindow r n)
  obtain k where k: "n = (k, length (sr_window sr))" "k \<le> length (sr_window sr)" "stream_wf (sr_conn sr)"
    "buffer_wf (cu_io_buffer (sr_cursor sr))" by (rule sr_wf_complete [OF assms(3) CompleteWindow])
  obtain b' c' where "queue_pooled_next_response_input E n (cu_io_buffer (sr_cursor sr)) (sr_conn sr) = (b', c', Inr ())" "stream_wf c'"
    using queue_pooled_next_spec [OF k(3,4,2), of E] unfolding k(1) by metis
  then show ?thesis using assms(1) CompleteWindow by (auto simp: observe_stream_def)
next
  case (IncompleteWindow r)
  then show ?thesis using drain_wf [OF _ assms(2,3)] assms(1) by (simp add: observe_stream_def)
qed

lemma stream_write_stops:
  assumes "stream_write E W w sr = (w', sr', res)" "te_memchr E = M" "sr_wf sr S"
  shows "stream_wf (sr_conn sr') \<and> (\<forall>e. res = Inl e \<longrightarrow> stops e \<or> w' = w) \<and> (\<forall>x. res = Inr x \<longrightarrow> is_complete sr')"
proof -
  obtain s1 q where q: "append_to_retained_prefix_if_writable E sr = (s1, q)" by fastforce
  note ap = append_to_retained_wf [OF q assms(2,3)]
  show ?thesis
  proof (cases q)
    case (Inl e)
    then show ?thesis using assms(1) q ap by (auto simp: stream_write_def)
  next
    case (Inr u)
    then have "write_current_and_remaining_chunks E W w stats_default s1 = (w', sr', res)" "sr_wf s1 S"
      using assms(1) q ap by (simp_all add: stream_write_def)
    from write_remaining_stops [OF this(1) assms(2) this(2)] show ?thesis by blast
  qed
qed

lemma finish_capture_stops:
  assumes "finish_capture E W w cap r n sr = (w', sr', res)" "sr_wf sr (to_vec cap)"
    "cu_frame (sr_cursor sr) = CompleteWindow r n" "chunked_wf cap"
  shows "stream_wf (sr_conn sr') \<and> (\<forall>e. res = Inl e \<longrightarrow> stops e \<or> w' = w) \<and> (\<forall>x. res = Inr x \<longrightarrow> is_complete sr')"
proof -
  let ?cu = "sr_cursor sr"
  obtain k where k: "r = (0, k)" "n = (k, length (sr_window sr))" "k \<le> length (sr_window sr)" "stream_wf (cu_conn ?cu)"
    "sr_shape sr = Multiline \<longrightarrow> 5 \<le> length (to_vec cap) + k" by (rule sr_wf_complete [OF assms(2,3)])
  obtain b' c' cap' q where q: "push_from_buffer E r n (cu_io_buffer ?cu) (cu_conn ?cu) cap = (b', c', cap', q)"
    by (metis prod_cases4)
  note ps = push_from_buffer_spec [OF q [unfolded k(1,2)] k(4,3) assms(4)]
  let ?sr = "sr\<lparr>sr_cursor := ?cu\<lparr>cu_io_buffer := b', cu_conn := c'\<rparr>\<rparr>"
  obtain w1 v where v: "write_all_to_recording W cap' w = (w1, v)" by fastforce
  show ?thesis
  proof (cases q)
    case (Inl e)
    then show ?thesis using assms(1) q ps by (auto simp: finish_capture_def Let_def)
  next
    case (Inr u)
    then have "sr_shape sr = Multiline \<longrightarrow> 5 \<le> cr_len cap'"
      using ps k(3,5) chunked_wf_len [of cap'] by auto
    then have "captured_of ?sr cap' \<noteq> None"
      by (auto simp: captured_of_def DOT_TERMINATOR_def split: ResponseShape.splits)
    then show ?thesis using assms(1,3) q Inr ps v
      by (cases v) (auto simp: finish_capture_def Let_def is_complete_def split: option.splits)
  qed
qed

lemma capture_loop_stops:
  assumes "capture_loop E W limit w cap sr = (w', sr', res)" "te_memchr E = M" "sr_wf sr (to_vec cap)" "chunked_wf cap"
  shows "stream_wf (sr_conn sr') \<and> (\<forall>e. res = Inl e \<longrightarrow> stops e \<or> w' = w) \<and> (\<forall>x. res = Inr x \<longrightarrow> is_complete sr')"
  using assms
proof (induction E W limit w cap sr arbitrary: w' sr' res rule: capture_loop.induct)
  case (1 E W limit w cap sr)
  let ?cu = "sr_cursor sr" and ?V = "sr_window sr"
  define exc where "exc = (case sr_shape sr of SingleLine \<Rightarrow> False | Multiline \<Rightarrow>
      capture_would_exceed_limit (cr_len cap) (snd (window_response (cu_frame ?cu)) - fst (window_response (cu_frame ?cu))) limit)"
  note unfold = capture_loop.simps [of E W limit w cap sr, unfolded Let_def, folded exc_def]
  consider (exceeds) exc | (complete) r n where "\<not> exc" "cu_frame ?cu = CompleteWindow r n"
    | (incomplete) r where "\<not> exc" "cu_frame ?cu = IncompleteWindow r" by (cases "cu_frame ?cu") auto
  then show ?case
  proof cases
    case exceeds
    obtain w1 v where v: "write_all_to_recording W cap w = (w1, v)" by fastforce
    obtain so cl where o: "observe_stream E sr = (so, cl)" by fastforce
    obtain w2 s2 r2 where r2: "write_current_and_remaining_chunks E W w1 stats_default sr = (w2, s2, r2)" by (metis prod_cases3)
    note wf = observe_stream_wf [OF o "1.prems"(2,3)] write_remaining_stops [OF r2 "1.prems"(2,3)]
    show ?thesis
    proof (cases v)
      case (Inl e)
      then have "sr' = so" "res = Inl (from_client_write_after_cleanup e cl)"
        using "1.prems"(1) exceeds v o by (simp_all add: unfold)
      then show ?thesis using wf by simp
    next
      case (Inr u)
      then have "sr' = s2" "\<forall>e. res = Inl e \<longrightarrow> r2 = Inl e" "\<forall>x. res = Inr x \<longrightarrow> (\<exists>s. r2 = Inr s)"
        using "1.prems"(1) exceeds v r2 by (cases r2, auto simp: unfold)+
      then show ?thesis using wf by blast
    qed
  next
    case complete
    then have "finish_capture E W w cap r n sr = (w', sr', res)" using "1.prems"(1) by (simp add: unfold)
    from finish_capture_stops [OF this "1.prems"(3) complete(2) "1.prems"(4)] show ?thesis .
  next
    case incomplete
    note i = sr_wf_incomplete [OF "1.prems"(3) incomplete(2)]
    obtain cap1 where cap1: "push_buffer_range cap (cu_io_buffer ?cu) (0, length ?V) = Some cap1" "chunked_wf cap1"
      "to_vec cap1 = to_vec cap @ subrange 0 (length ?V) ?V"
      by (rule push_buffer_range_spec [OF "1.prems"(4), of 0 "length ?V" "cu_io_buffer ?cu"]) (simp_all add: length_visible)
    have pb: "push_buffer_to E r cap (cu_io_buffer ?cu) = Some (cap1, pool_acquire E)"
      using cap1(1) i(3) by (simp add: push_buffer_to_def)
    let ?sr = "sr\<lparr>sr_cursor := ?cu\<lparr>cu_io_buffer := pool_acquire E\<rparr>\<rparr>"
    obtain s1 q where q: "read_next_chunk E ?sr = (s1, q)" by fastforce
    have "framer_seen (cu_framer ?cu) (to_vec cap1)" using i(6) cap1(3) by simp
    then have rd: "stream_wf (sr_conn s1) \<and> same_response ?sr s1 \<and> (case q of Inl e \<Rightarrow> \<not> stops e | Inr u \<Rightarrow> sr_wf s1 (to_vec cap1))"
      using read_next_chunk_wf [OF q "1.prems"(2), of "to_vec cap1"] i(4,5) by simp
    show ?thesis
    proof (cases q)
      case (Inl e)
      then have "w' = w" "sr' = s1" "res = Inl e" using "1.prems"(1) incomplete pb q by (auto simp: unfold)
      then show ?thesis using rd by simp
    next
      case (Inr u)
      then have "capture_loop E W limit w cap1 s1 = (w', sr', res)"
        using "1.prems"(1) incomplete pb q by (simp add: unfold)
      then show ?thesis
        using "1.IH" [OF refl refl refl _ incomplete(2) pb refl q [symmetric] Inr _ "1.prems"(2) _ cap1(2)] incomplete(1) rd Inr
        by (simp add: exc_def)
    qed
  qed
qed

lemma from_classification_wf:
  assumes "from_classification E kind (parse_bytes M request (visible b)) b c = Inr sr"
    and wf: "stream_wf c" "buffer_wf b" "te_memchr E = M"
  shows "sr_wf sr []"
proof -
  obtain frame where parse: "parse_bytes M request (visible b) = Inr frame"
    using assms(1) by (cases "parse_bytes M request (visible b)") (auto simp: from_classification_def)
  show ?thesis
  proof (cases rule: parse_bytes_frame [OF parse])
    case (1 st e)
    then show ?thesis using assms(1) parse wf by (auto simp: from_classification_def sr_wf_def window_inside_def)
  next
    case (2 st e)
    let ?V = "visible b"
    let ?f = "framer_update framer_default (take e ?V)"
    have seen: "framer_seen ?f ([] @ take e ?V)" using framer_seen_update [OF framer_seen_default, of "take e ?V"] by simp
    obtain f' r where f': "split_chunk M (te_target E) ?f (drop e ?V) AllowIfStatusPrefix = (f', r)" by fastforce
    have "?V \<noteq> []" using 2(2,3) by auto
    then obtain p where p: "r = Inr p" "window_inside [] ?V f' Multiline (in_window p e (length ?V))"
      using window_inside_frame [OF f' seen, of Multiline] 2(2) by auto
    have "begin_after_status_line M (te_target E) ?V e AllowIfStatusPrefix = Inr (f', in_window p e (length ?V))"
      using f' p(1) 2(2) by (simp add: begin_after_status_line_def Let_def)
    then show ?thesis using assms(1) parse 2 wf p(2)
      by (auto simp: from_classification_def cursor_begin_after_status_line_def sr_wf_def)
  qed
qed

lemma receiving_stream_wf:
  assumes "receiving_stream E g cl = (g1, Inr sr)" "classified_wf M request cl" "stream_wf (cg_conn g)" "te_memchr E = M"
  shows "sr_wf sr []" "cg_phase g1 = InFlight"
  using assms from_classification_wf [of E "cl_kind cl" request "cl_buffer cl" "cg_conn g" sr]
  by (auto simp: receiving_stream_def stream_mut_def classified_wf_def)

lemma receiving_write_stops:
  assumes "receiving_write E W w g cl = (w', g', res)" "classified_wf M request cl" "stream_wf (cg_conn g)" "te_memchr E = M"
  shows "stream_wf (cg_conn g') \<and> (\<forall>e. res = Inl e \<longrightarrow> stops e \<or> w' = w) \<and>
    (\<forall>x. res = Inr x \<longrightarrow> response_is_complete g')"
proof -
  obtain g1 q where q: "receiving_stream E g cl = (g1, q)" by fastforce
  show ?thesis
  proof (cases q)
    case (Inl e)
    then show ?thesis using assms(1,3) q by (auto simp: receiving_write_def receiving_stream_def stream_mut_def)
  next
    case (Inr sr)
    obtain w1 s1 r where r: "stream_write E W w sr = (w1, s1, r)" by (metis prod_cases3)
    note wf = receiving_stream_wf [OF q [unfolded Inr] assms(2-4)]
    from stream_write_stops [OF r assms(4) wf(1)] wf(2) show ?thesis
      using assms(1) q Inr r by (cases r) (auto simp: receiving_write_def mark_put_back)
  qed
qed

lemma receiving_capture_stops:
  assumes "receiving_capture_and_write E W w cap g cl = (w', g', res)" "classified_wf M request cl" "stream_wf (cg_conn g)"
    "te_memchr E = M"
  shows "stream_wf (cg_conn g') \<and> (\<forall>e. res = Inl e \<longrightarrow> stops e \<or> w' = w) \<and>
    (\<forall>x. res = Inr x \<longrightarrow> response_is_complete g')"
proof -
  obtain g1 q where q: "receiving_stream E g cl = (g1, q)" by fastforce
  show ?thesis
  proof (cases q)
    case (Inl e)
    then show ?thesis using assms(1,3) q by (auto simp: receiving_capture_and_write_def receiving_stream_def stream_mut_def)
  next
    case (Inr sr)
    let ?cap = "chunked_clear cap"
    obtain w1 s1 r where r: "capture_loop E W MAX_CAPTURED_MULTILINE_RESPONSE_BYTES w ?cap sr = (w1, s1, r)" by (metis prod_cases3)
    note wf = receiving_stream_wf [OF q [unfolded Inr] assms(2-4)]
    have "sr_wf sr (to_vec ?cap)" "chunked_wf ?cap" using wf(1) by simp_all
    from capture_loop_stops [OF r assms(4) this] wf(2) show ?thesis
      using assms(1) q Inr r by (auto simp: receiving_capture_and_write_def stream_capture_and_write_def mark_put_back)
  qed
qed

lemma receiving_observe_wf:
  assumes "receiving_observe E g cl = (g', res)" "classified_wf M request cl" "stream_wf (cg_conn g)" "te_memchr E = M"
  shows "stream_wf (cg_conn g') \<and> (\<forall>x. res = Inr x \<longrightarrow> response_is_complete g')"
proof -
  obtain g1 q where q: "receiving_stream E g cl = (g1, q)" by fastforce
  show ?thesis
  proof (cases q)
    case (Inl e)
    then show ?thesis using assms(1,3) q by (auto simp: receiving_observe_def receiving_stream_def stream_mut_def)
  next
    case (Inr sr)
    obtain s1 r where r: "observe_stream E sr = (s1, r)" by fastforce
    note wf = receiving_stream_wf [OF q [unfolded Inr] assms(2-4)]
    from observe_stream_wf [OF r assms(4) wf(1)] mark_put_back [OF wf(2), of True "sr_cursor s1"] show ?thesis
      using assms(1) q Inr r by (cases r) (auto simp: receiving_observe_def put_back_def)
  qed
qed

end

end
