(* ===== verification/Codec.thy ===== *)
theory Codec
  imports Prelude
begin

text \<open>
  Little-endian integer fields and range reads, as the persistent formats of the proxy use them
  (\<open>to_le_bytes\<close>, \<open>from_le_bytes\<close> and \<open>slice::get\<close> of the standard library).
\<close>

section \<open>Little-endian integers\<close>

primrec le_bytes :: "nat \<Rightarrow> nat \<Rightarrow> bytes" where
  "le_bytes 0 n = []"
| "le_bytes (Suc k) n = char_of (n mod 256) # le_bytes k (n div 256)"

primrec le_val :: "bytes \<Rightarrow> nat" where
  "le_val [] = 0"
| "le_val (c # cs) = byte_val c + 256 * le_val cs"

lemma length_le_bytes [simp]: "length (le_bytes k n) = k"
  by (induction k arbitrary: n) auto

lemma le_val_le_bytes [simp]: "le_val (le_bytes k n) = n mod 256 ^ k"
proof (induction k arbitrary: n)
  case (Suc k)
  have "n mod (256 * 256 ^ k) = 256 * (n div 256 mod 256 ^ k) + n mod 256"
    by (rule mod_mult2_eq)
  then show ?case by (simp add: Suc of_char_of)
qed simp

lemma le_val_less: "le_val bs < 256 ^ length bs"
proof (induction bs)
  case (Cons c cs)
  have "byte_val c < 256" by simp
  with Cons.IH show ?case unfolding le_val.simps length_Cons power_Suc by linarith
qed simp

lemma le_bytes_le_val [simp]: "le_bytes (length bs) (le_val bs) = bs"
proof (induction bs)
  case (Cons c cs)
  have "byte_val c < 256" by simp
  then show ?case using Cons by (simp add: mod_mult_self2 div_mult_self2)
qed simp

definition u64_to_le :: "u64 \<Rightarrow> bytes" where "u64_to_le w = le_bytes 8 (unat w)"
definition u64_from_le :: "bytes \<Rightarrow> u64" where "u64_from_le bs = word_of_nat (le_val bs)"
definition u32_to_le :: "u32 \<Rightarrow> bytes" where "u32_to_le w = le_bytes 4 (unat w)"
definition u32_from_le :: "bytes \<Rightarrow> u32" where "u32_from_le bs = word_of_nat (le_val bs)"
definition u16_to_le :: "u16 \<Rightarrow> bytes" where "u16_to_le w = le_bytes 2 (unat w)"
definition u16_from_le :: "bytes \<Rightarrow> u16" where "u16_from_le bs = word_of_nat (le_val bs)"

lemma length_to_le [simp]:
  "length (u64_to_le a) = 8" "length (u32_to_le b) = 4" "length (u16_to_le c) = 2"
  by (simp_all add: u64_to_le_def u32_to_le_def u16_to_le_def)

lemma from_to_le [simp]:
  "u64_from_le (u64_to_le a) = a" "u32_from_le (u32_to_le b) = b" "u16_from_le (u16_to_le c) = c"
proof -
  have "unat a < 256 ^ 8" "unat b < 256 ^ 4" "unat c < 256 ^ 2"
    using unsigned_less [of a] unsigned_less [of b] unsigned_less [of c] by simp_all
  then show "u64_from_le (u64_to_le a) = a" "u32_from_le (u32_to_le b) = b"
    "u16_from_le (u16_to_le c) = c"
    by (simp_all add: u64_from_le_def u64_to_le_def u32_from_le_def u32_to_le_def
        u16_from_le_def u16_to_le_def)
qed

lemma unat_from_le:
  "length bs = 8 \<Longrightarrow> unat (u64_from_le bs) = le_val bs"
  "length bs = 4 \<Longrightarrow> unat (u32_from_le bs) = le_val bs"
  "length bs = 2 \<Longrightarrow> unat (u16_from_le bs) = le_val bs"
  using le_val_less [of bs]
  by (simp_all add: u64_from_le_def u32_from_le_def u16_from_le_def unat_of_nat)

lemma to_from_le:
  "length bs = 8 \<Longrightarrow> u64_to_le (u64_from_le bs) = bs"
  "length bs = 4 \<Longrightarrow> u32_to_le (u32_from_le bs) = bs"
  "length bs = 2 \<Longrightarrow> u16_to_le (u16_from_le bs) = bs"
  using le_bytes_le_val [of bs]
  by (simp_all add: u64_to_le_def u32_to_le_def u16_to_le_def unat_from_le)

section \<open>Range reads\<close>

text \<open>\<open>data.get(a..b)\<close>.\<close>

definition slice_get :: "nat \<Rightarrow> nat \<Rightarrow> 'a list \<Rightarrow> 'a list option" where
  "slice_get a b xs = (if a \<le> b \<and> b \<le> length xs then Some (subrange a b xs) else None)"

lemma slice_get_append [simp]:
  "slice_get (length xs) (length xs + length ys) (xs @ ys @ zs) = Some ys"
  by (simp add: slice_get_def subrange_def)

lemma slice_get_append_at:
  "i = length xs \<Longrightarrow> j = i + length ys \<Longrightarrow> slice_get i j (xs @ ys @ zs) = Some ys"
  by simp

lemma slice_get_Some_length: "slice_get a b xs = Some ys \<Longrightarrow> length ys = b - a \<and> a \<le> b \<and> b \<le> length xs"
  by (auto simp: slice_get_def subrange_length split: if_splits)

end
