(* ===== verification/Layout.thy ===== *)
theory Layout
  imports Types Codec "HOL-Library.Char_ord" "HOL-Library.List_Lexorder"
begin

text \<open>
  Provider slots of the availability caches (\<open>src/src/cache/availability_identity.rs\<close>) and the
  bitset of slots that are known to miss an article (\<open>src/src/cache/availability.rs\<close>). A layout
  maps every configured backend to a slot; backends with the same canonical host share one. The
  hybrid cache persists the slots in a registry file, so that they survive restarts.

  A configured server is given by its host name. \<open>LayoutPanic\<close> stands for a failed \<open>expect\<close>.
\<close>

section \<open>Slots and masks\<close>

datatype AvailabilitySlot = AvailabilitySlot (slot_index: nat)

definition slot_new :: "nat \<Rightarrow> AvailabilitySlot option" where
  "slot_new index = (if index < 64 then Some (AvailabilitySlot index) else None)"

definition slot_bit :: "AvailabilitySlot \<Rightarrow> usize" where
  "slot_bit s = push_bit (slot_index s) 1"

definition mask_insert :: "usize \<Rightarrow> AvailabilitySlot \<Rightarrow> usize" where
  "mask_insert bits slot = bits OR slot_bit slot"

definition mask_from_slots :: "AvailabilitySlot list \<Rightarrow> usize" where
  "mask_from_slots slots = foldl mask_insert 0 slots"

section \<open>Missing state of an article\<close>

datatype BackendStatus = StatusUnknown | StatusMissing

definition record_missing_slot :: "usize \<Rightarrow> AvailabilitySlot \<Rightarrow> usize" where
  "record_missing_slot missing slot = missing OR slot_bit slot"

definition is_missing_slot :: "usize \<Rightarrow> AvailabilitySlot \<Rightarrow> bool" where
  "is_missing_slot missing slot \<longleftrightarrow> missing AND slot_bit slot \<noteq> 0"

definition should_try_slot :: "usize \<Rightarrow> AvailabilitySlot \<Rightarrow> bool" where
  "should_try_slot missing slot \<longleftrightarrow> \<not> is_missing_slot missing slot"

definition all_exhausted :: "usize \<Rightarrow> usize \<Rightarrow> bool" where
  "all_exhausted missing configured \<longleftrightarrow> missing AND configured = configured"

definition has_availability_info :: "usize \<Rightarrow> bool" where
  "has_availability_info missing \<longleftrightarrow> missing \<noteq> 0"

definition slot_status :: "usize \<Rightarrow> AvailabilitySlot \<Rightarrow> BackendStatus" where
  "slot_status missing slot =
     (if missing AND slot_bit slot \<noteq> 0 then StatusMissing else StatusUnknown)"

section \<open>Identities\<close>

datatype AvailabilityIdentity = AvailabilityIdentity (as_host: bytes)

text \<open>The derived order of the identities is the byte order of their hosts.\<close>

instantiation AvailabilityIdentity :: linorder
begin

definition less_eq_AvailabilityIdentity :: "AvailabilityIdentity \<Rightarrow> AvailabilityIdentity \<Rightarrow> bool" where
  "less_eq_AvailabilityIdentity a b \<longleftrightarrow> as_host a \<le> as_host b"

definition less_AvailabilityIdentity :: "AvailabilityIdentity \<Rightarrow> AvailabilityIdentity \<Rightarrow> bool" where
  "less_AvailabilityIdentity a b \<longleftrightarrow> as_host a < as_host b"

instance
  by standard
    (auto simp: less_eq_AvailabilityIdentity_def less_AvailabilityIdentity_def AvailabilityIdentity.expand)

end

definition MAX_REGISTRY_FIELD_BYTES :: nat where "MAX_REGISTRY_FIELD_BYTES = 1024 * 1024"
definition REGISTRY_MAGIC :: bytes where "REGISTRY_MAGIC = ''ANEGREG2''"

datatype RegistryError =
    InvalidHostLength | InvalidRegistry | InvalidRegistryEpoch | TooManyRegistryIdentities
  | DuplicateIdentity | TrailingRegistryBytes | FieldTooLong | InvalidFieldLength
  | TruncatedField | InvalidUtf8 | CreateDirectoryFailed | ReadRegistryFailed | NoFreeSlot
  | PublishFailed | TooManyIdentities | LayoutPanic

definition canonicalize_host :: "bytes \<Rightarrow> bytes" where
  "canonicalize_host host =
     map to_ascii_lowercase (if suffix [DOT] host then butlast host else host)"

definition identity_from_host :: "bytes \<Rightarrow> AvailabilityIdentity" where
  "identity_from_host host = AvailabilityIdentity (canonicalize_host host)"

definition from_persisted_host :: "bytes \<Rightarrow> RegistryError + AvailabilityIdentity" where
  "from_persisted_host h =
     (let host = canonicalize_host h in
      if host = [] \<or> MAX_REGISTRY_FIELD_BYTES < length host then Err InvalidHostLength
      else Ok (AvailabilityIdentity host))"

section \<open>Layouts\<close>

datatype LayoutEpoch = Derived | Registered u64

record AvailabilityLayout =
  al_backend_slots :: "AvailabilitySlot list"
  al_identities :: "AvailabilityIdentity list"
  al_mask :: usize
  al_epoch :: LayoutEpoch

text \<open>The loop that collects the identities of the servers that are not present yet.\<close>

definition add_identity :: "AvailabilityIdentity list \<Rightarrow> bytes \<Rightarrow> AvailabilityIdentity list" where
  "add_identity identities host =
     (let identity = identity_from_host host in
      if identity \<in> set identities then identities else identities @ [identity])"

text \<open>The loop that assigns every server the position of its identity.\<close>

fun assign_slots ::
    "AvailabilityIdentity list \<Rightarrow> bytes list \<Rightarrow> RegistryError + AvailabilitySlot list" where
  "assign_slots identities [] = Ok []"
| "assign_slots identities (host # servers) =
     (case position (\<lambda>existing. existing = identity_from_host host) identities of
        None \<Rightarrow> Err LayoutPanic
      | Some slot \<Rightarrow>
          (case slot_new slot of
             None \<Rightarrow> Err TooManyIdentities
           | Some s \<Rightarrow> and_then (assign_slots identities servers) (\<lambda>slots. Ok (s # slots))))"

fun mask_of_count :: "nat \<Rightarrow> RegistryError + usize" where
  "mask_of_count 0 = Ok 0"
| "mask_of_count (Suc n) =
     and_then (mask_of_count n)
       (\<lambda>mask. case slot_new n of None \<Rightarrow> Err LayoutPanic | Some s \<Rightarrow> Ok (mask_insert mask s))"

definition from_servers :: "bytes list \<Rightarrow> RegistryError + AvailabilityLayout" where
  "from_servers servers =
     (let identities = foldl add_identity [] servers in
      and_then (assign_slots identities servers) (\<lambda>backend_slots.
      and_then (mask_of_count (length identities)) (\<lambda>mask.
        Ok \<lparr>al_backend_slots = backend_slots, al_identities = identities,
            al_mask = mask, al_epoch = Derived\<rparr>)))"

definition slot_for_backend :: "AvailabilityLayout \<Rightarrow> BackendId \<Rightarrow> AvailabilitySlot option" where
  "slot_for_backend layout b =
     (if as_index b < length (al_backend_slots layout)
      then Some (al_backend_slots layout ! as_index b) else None)"

definition slot_for_identity :: "AvailabilityLayout \<Rightarrow> AvailabilityIdentity \<Rightarrow> AvailabilitySlot option" where
  "slot_for_identity layout i =
     Option.bind (position (\<lambda>candidate. candidate = i) (al_identities layout)) slot_new"

text \<open>
  The hash function of the fingerprint is the third-party XxHash64, a function of the bytes
  written to the hasher.
\<close>

definition fingerprint :: "(bytes \<Rightarrow> u64) \<Rightarrow> AvailabilityLayout \<Rightarrow> u64" where
  "fingerprint H layout =
     max (H (concat (map (\<lambda>i. as_host i @ [CHR 0x00]) (sort (al_identities layout))))) 1"

definition availability_epoch :: "(bytes \<Rightarrow> u64) \<Rightarrow> AvailabilityLayout \<Rightarrow> u64" where
  "availability_epoch H layout =
     (case al_epoch layout of Derived \<Rightarrow> fingerprint H layout | Registered e \<Rightarrow> e)"

section \<open>The registry file\<close>

definition read_u32 :: "bytes \<Rightarrow> nat \<Rightarrow> RegistryError + (u32 \<times> nat)" where
  "read_u32 data cursor =
     (case slice_get cursor (cursor + 4) data of
        None \<Rightarrow> Err TruncatedField | Some bs \<Rightarrow> Ok (u32_from_le bs, cursor + 4))"

definition read_u64 :: "bytes \<Rightarrow> nat \<Rightarrow> RegistryError + (u64 \<times> nat)" where
  "read_u64 data cursor =
     (case slice_get cursor (cursor + 8) data of
        None \<Rightarrow> Err TruncatedField | Some bs \<Rightarrow> Ok (u64_from_le bs, cursor + 8))"

definition read_string :: "bytes \<Rightarrow> nat \<Rightarrow> RegistryError + (bytes \<times> nat)" where
  "read_string data cursor =
     and_then (read_u32 data cursor) (\<lambda>(len, cursor).
       let length = unat len in
       if length = 0 \<or> MAX_REGISTRY_FIELD_BYTES < length then Err InvalidFieldLength
       else case slice_get cursor (cursor + length) data of
              None \<Rightarrow> Err TruncatedField
            | Some bs \<Rightarrow>
                (case from_utf8 bs of
                   None \<Rightarrow> Err InvalidUtf8 | Some s \<Rightarrow> Ok (s, cursor + length)))"

definition write_string :: "bytes \<Rightarrow> bytes \<Rightarrow> RegistryError + bytes" where
  "write_string data value =
     (if MAX_REGISTRY_FIELD_BYTES < length value then Err FieldTooLong
      else Ok (data @ u32_to_le (word_of_nat (length value)) @ value))"

fun read_identities ::
    "nat \<Rightarrow> bytes \<Rightarrow> nat \<Rightarrow> AvailabilityIdentity list
       \<Rightarrow> RegistryError + (AvailabilityIdentity list \<times> nat)" where
  "read_identities 0 data cursor identities = Ok (identities, cursor)"
| "read_identities (Suc n) data cursor identities =
     and_then (read_string data cursor) (\<lambda>(host, cursor).
     and_then (from_persisted_host host) (\<lambda>i.
       if i \<in> set identities then Err DuplicateIdentity
       else read_identities n data cursor (identities @ [i])))"

definition parse_registry :: "bytes \<Rightarrow> RegistryError + (AvailabilityIdentity list \<times> u64)" where
  "parse_registry data =
     (if length data < length REGISTRY_MAGIC + 2 * 8 \<or> \<not> prefix REGISTRY_MAGIC data
      then Err InvalidRegistry
      else and_then (read_u64 data (length REGISTRY_MAGIC)) (\<lambda>(epoch, cursor).
        if epoch = 0 then Err InvalidRegistryEpoch
        else and_then (read_u64 data cursor) (\<lambda>(count, cursor).
          if 64 < unat count then Err TooManyRegistryIdentities
          else and_then (read_identities (unat count) data cursor []) (\<lambda>(identities, cursor).
            if cursor \<noteq> length data then Err TrailingRegistryBytes
            else Ok (identities, epoch)))))"

text \<open>The bytes that \<open>publish_registry\<close> writes to the temporary file.\<close>

fun write_identities :: "AvailabilityIdentity list \<Rightarrow> bytes \<Rightarrow> RegistryError + bytes" where
  "write_identities [] data = Ok data"
| "write_identities (i # is) data =
     and_then (write_string data (as_host i)) (\<lambda>data. write_identities is data)"

definition registry_bytes :: "u64 \<Rightarrow> AvailabilityIdentity list \<Rightarrow> RegistryError + bytes" where
  "registry_bytes epoch identities =
     write_identities identities
       (REGISTRY_MAGIC @ u64_to_le epoch @ u64_to_le (word_of_nat (length identities)))"

text \<open>
  The outcomes of the file-system calls are arguments: whether the directory exists or could be
  created, what reading the registry gives, and whether the new file could be written and renamed.
  \<open>uuid\<close> is the low half of the random UUID. The result has the registry published, if any.
\<close>

datatype RegistryRead = RegistryBytes bytes | RegistryNotFound | RegistryUnreadable

definition publish_registry ::
    "bool \<Rightarrow> u64 \<Rightarrow> AvailabilityIdentity list \<Rightarrow> RegistryError + bytes" where
  "publish_registry write_ok epoch identities =
     and_then (registry_bytes epoch identities)
       (\<lambda>data. if write_ok then Ok data else Err PublishFailed)"

definition load_registry ::
    "RegistryRead \<Rightarrow> RegistryError + (AvailabilityIdentity list \<times> u64) option" where
  "load_registry read_result =
     (case read_result of
        RegistryBytes data \<Rightarrow> Ok (case parse_registry data of Inl _ \<Rightarrow> None | Inr r \<Rightarrow> Some r)
      | RegistryNotFound \<Rightarrow> Ok None
      | RegistryUnreadable \<Rightarrow> Err ReadRegistryFailed)"

definition from_hybrid_registry ::
    "bytes list \<Rightarrow> bool \<Rightarrow> RegistryRead \<Rightarrow> u64 \<Rightarrow> bool
       \<Rightarrow> RegistryError + (AvailabilityLayout \<times> bytes option)" where
  "from_hybrid_registry servers dir_ok read_result uuid write_ok =
     (if \<not> dir_ok then Err CreateDirectoryFailed else
      and_then (load_registry read_result) (\<lambda>loaded.
        let (identities0, epoch) =
              (case loaded of Some r \<Rightarrow> r | None \<Rightarrow> ([], if uuid = 0 then 1 else uuid));
            identities = foldl add_identity identities0 servers;
            changed = (loaded = None \<or> identities \<noteq> identities0)
        in if 64 < length identities then Err NoFreeSlot
           else and_then (if changed then and_then (publish_registry write_ok epoch identities)
                                             (\<lambda>data. Ok (Some data))
                          else Ok None) (\<lambda>published.
                and_then (assign_slots identities servers) (\<lambda>backend_slots.
                  Ok (\<lparr>al_backend_slots = backend_slots, al_identities = identities,
                       al_mask = mask_from_slots backend_slots,
                       al_epoch = Registered epoch\<rparr>, published)))))"

section \<open>Slot sets\<close>

lemma bit_slot_bit: "bit (slot_bit s) n \<longleftrightarrow> n = slot_index s \<and> n < 64"
  by (auto simp: slot_bit_def bit_simps)

lemma and_slot_bit_eq_0:
  assumes "slot_index s < 64"
  shows "w AND slot_bit s = 0 \<longleftrightarrow> \<not> bit w (slot_index s)"
proof -
  have "w AND slot_bit s = (if bit w (slot_index s) then slot_bit s else 0)"
    by (rule bit_word_eqI) (auto simp: bit_and_iff bit_slot_bit)
  moreover have "slot_bit s \<noteq> 0" using assms bit_slot_bit [of s "slot_index s"] by auto
  ultimately show ?thesis by simp
qed

lemma bit_foldl_slots:
  "bit (foldl mask_insert w ss) n \<longleftrightarrow> bit w n \<or> (n < 64 \<and> AvailabilitySlot n \<in> set ss)"
proof (induction ss arbitrary: w)
  case (Cons s ss)
  show ?case
    unfolding foldl.simps Cons.IH
    by (cases s) (auto simp: mask_insert_def bit_or_iff bit_slot_bit)
qed simp

lemma bit_mask_from_slots: "bit (mask_from_slots ss) n \<longleftrightarrow> n < 64 \<and> AvailabilitySlot n \<in> set ss"
  by (simp add: mask_from_slots_def bit_foldl_slots)

lemma mask_of_count_eq: "n \<le> 64 \<Longrightarrow> mask_of_count n = Inr (mask_from_slots (map AvailabilitySlot [0..<n]))"
  by (induction n) (simp_all add: mask_from_slots_def slot_new_def)

lemma record_missing_slots:
  "bit (foldl record_missing_slot 0 ss) n \<longleftrightarrow> n < 64 \<and> AvailabilitySlot n \<in> set ss"
proof -
  have "record_missing_slot = mask_insert" by (simp add: fun_eq_iff record_missing_slot_def mask_insert_def)
  then show ?thesis by (simp add: bit_foldl_slots)
qed

lemma all_exhausted_iff: "all_exhausted m c \<longleftrightarrow> (\<forall>n. bit c n \<longrightarrow> bit m n)"
proof
  assume "all_exhausted m c"
  then have "m AND c = c" by (simp add: all_exhausted_def)
  then show "\<forall>n. bit c n \<longrightarrow> bit m n" by (metis bit_and_iff)
next
  assume "\<forall>n. bit c n \<longrightarrow> bit m n"
  then have "m AND c = c" by (intro bit_word_eqI) (auto simp: bit_and_iff)
  then show "all_exhausted m c" by (simp add: all_exhausted_def)
qed



section \<open>Layouts assign slots by canonical host\<close>

lemma add_identity_simps:
  "set (add_identity ids h) = insert (identity_from_host h) (set ids)"
  "distinct ids \<Longrightarrow> distinct (add_identity ids h)"
  "prefix ids (add_identity ids h)"
  by (auto simp: add_identity_def Let_def)

lemma add_identities:
  "set (foldl add_identity ids hosts) = set ids \<union> identity_from_host ` set hosts"
  "distinct ids \<Longrightarrow> distinct (foldl add_identity ids hosts)"
  "prefix ids (foldl add_identity ids hosts)"
proof (induction hosts arbitrary: ids)
  case (Cons h hosts)
  { case 1 show ?case by (simp add: Cons.IH(1) add_identity_simps(1)) }
  { case 2 then show ?case by (simp add: Cons.IH(2) add_identity_simps(2)) }
  { case 3 show ?case
      using prefix_order.trans [OF add_identity_simps(3) Cons.IH(3)] by simp }
qed simp_all

definition slot_at :: "AvailabilityIdentity list \<Rightarrow> bytes \<Rightarrow> nat" where
  "slot_at ids host = the (position (\<lambda>i. i = identity_from_host host) ids)"

lemma position_eq_Some: "x \<in> set xs \<Longrightarrow> \<exists>i. position (\<lambda>y. y = x) xs = Some i"
  by (cases "position (\<lambda>y. y = x) xs") (auto simp: position_None_iff)

lemma slot_at_nth:
  assumes "identity_from_host host \<in> set ids"
  shows "slot_at ids host < length ids \<and> ids ! slot_at ids host = identity_from_host host"
  using position_eq_Some [OF assms] by (auto simp: slot_at_def dest: position_SomeD)

lemma assign_slots_eq:
  assumes "identity_from_host ` set hosts \<subseteq> set ids"
  shows "assign_slots ids hosts =
    (if \<forall>h \<in> set hosts. slot_at ids h < 64
     then Inr (map (\<lambda>h. AvailabilitySlot (slot_at ids h)) hosts) else Inl TooManyIdentities)"
  using assms
proof (induction hosts)
  case (Cons h hosts)
  then obtain i where i: "position (\<lambda>y. y = identity_from_host h) ids = Some i"
    using position_eq_Some by fastforce
  then have "slot_at ids h = i" by (simp add: slot_at_def)
  with Cons i show ?case by (auto simp: slot_new_def)
qed simp

lemma slot_at_eq_iff:
  assumes "identity_from_host g \<in> set ids" "identity_from_host h \<in> set ids"
  shows "slot_at ids g = slot_at ids h \<longleftrightarrow> canonicalize_host g = canonicalize_host h"
proof
  assume "slot_at ids g = slot_at ids h"
  then have "identity_from_host g = identity_from_host h"
    using slot_at_nth [OF assms(1)] slot_at_nth [OF assms(2)] by simp
  then show "canonicalize_host g = canonicalize_host h" by (simp add: identity_from_host_def)
qed (simp add: slot_at_def identity_from_host_def)

lemma slot_at_range:
  assumes "distinct ids" "set ids = identity_from_host ` set hosts"
  shows "slot_at ids ` set hosts = {..<length ids}"
proof
  show "slot_at ids ` set hosts \<subseteq> {..<length ids}" using assms(2) slot_at_nth by auto
  show "{..<length ids} \<subseteq> slot_at ids ` set hosts"
  proof
    fix i assume "i \<in> {..<length ids}"
    then have i: "i < length ids" by simp
    then obtain h where h: "h \<in> set hosts" "ids ! i = identity_from_host h"
      using assms(2) nth_mem by (metis imageE)
    then have "slot_at ids h < length ids" "ids ! slot_at ids h = ids ! i"
      using slot_at_nth [of h ids] assms(2) by auto
    then have "slot_at ids h = i" using nth_eq_iff_index_eq [OF assms(1)] i by blast
    with h(1) show "i \<in> slot_at ids ` set hosts" by blast
  qed
qed

lemma card_identities:
  assumes "distinct ids" "set ids = identity_from_host ` set hosts"
  shows "length ids = card (canonicalize_host ` set hosts)"
proof -
  have "set ids = AvailabilityIdentity ` canonicalize_host ` set hosts"
    using assms(2) by (simp add: image_image identity_from_host_def)
  then have "card (set ids) = card (canonicalize_host ` set hosts)"
    by (simp add: card_image inj_on_def)
  then show ?thesis using distinct_card [OF assms(1)] by simp
qed

text \<open>
  C31. Layout of the configured servers: building a layout fails exactly when there are more than 64
  distinct canonical hosts, with the documented error and never by a panic. Otherwise two servers
  have the same slot exactly when their canonical hosts are equal, and the mask has exactly the
  slots in use.
\<close>

theorem from_servers_spec:
  "case from_servers servers of
     Inl e \<Rightarrow> e = TooManyIdentities \<and> 64 < card (canonicalize_host ` set servers)
   | Inr l \<Rightarrow> card (canonicalize_host ` set servers) \<le> 64 \<and>
       length (al_backend_slots l) = length servers \<and>
       (\<forall>i < length servers. \<forall>j < length servers.
          slot_for_backend l (BackendId i) = slot_for_backend l (BackendId j) \<longleftrightarrow>
          canonicalize_host (servers ! i) = canonicalize_host (servers ! j)) \<and>
       (\<forall>n. bit (al_mask l) n \<longleftrightarrow> AvailabilitySlot n \<in> set (al_backend_slots l))"
proof -
  define ids where "ids = foldl add_identity [] servers"
  have ids: "distinct ids" "set ids = identity_from_host ` set servers"
    by (simp_all add: ids_def add_identities)
  have img: "slot_at ids ` set servers = {..<length ids}" using slot_at_range [OF ids] .
  have card: "length ids = card (canonicalize_host ` set servers)" using card_identities [OF ids] .
  have a: "assign_slots ids servers = (if \<forall>h \<in> set servers. slot_at ids h < 64
     then Inr (map (\<lambda>h. AvailabilitySlot (slot_at ids h)) servers) else Inl TooManyIdentities)"
    by (rule assign_slots_eq) (simp add: ids)
  show ?thesis
  proof (cases "length ids \<le> 64")
    case True
    have lt: "\<forall>h \<in> set servers. slot_at ids h < 64"
    proof
      fix h assume "h \<in> set servers"
      then have "slot_at ids h \<in> {..<length ids}" unfolding img [symmetric] by (rule imageI)
      with True show "slot_at ids h < 64" by simp
    qed
    have eq: "slot_at ids (servers ! i) = slot_at ids (servers ! j) \<longleftrightarrow>
        canonicalize_host (servers ! i) = canonicalize_host (servers ! j)"
      if "i < length servers" "j < length servers" for i j
      by (rule slot_at_eq_iff) (use that ids in auto)
    have "AvailabilitySlot n \<in> (\<lambda>h. AvailabilitySlot (slot_at ids h)) ` set servers \<longleftrightarrow> n < length ids" for n
      using img by (auto simp: image_iff set_eq_iff)
    moreover have "from_servers servers = Inr \<lparr>
        al_backend_slots = map (\<lambda>h. AvailabilitySlot (slot_at ids h)) servers, al_identities = ids,
        al_mask = mask_from_slots (map AvailabilitySlot [0..<length ids]), al_epoch = Derived\<rparr>"
      using True lt a by (simp add: from_servers_def Let_def ids_def [symmetric] mask_of_count_eq)
    ultimately show ?thesis
      using True eq card by (auto simp: bit_mask_from_slots slot_for_backend_def)
  next
    case False
    then have "64 \<in> slot_at ids ` set servers" using img by simp
    then have "\<not> (\<forall>h \<in> set servers. slot_at ids h < 64)" by force
    with False card a show ?thesis by (simp add: from_servers_def Let_def ids_def [symmetric])
  qed
qed

theorem from_servers_spec_witness:
  "\<exists>l. from_servers [''a.'', ''b'', ''a''] = Inr l \<and>
     slot_for_backend l (BackendId 0) = slot_for_backend l (BackendId 2) \<and>
     slot_for_backend l (BackendId 0) \<noteq> slot_for_backend l (BackendId 1)"
proof -
  have c: "canonicalize_host ''a.'' = ''a''" "canonicalize_host ''b'' = ''b''" "canonicalize_host ''a'' = ''a''"
    by (simp_all add: canonicalize_host_def to_ascii_lowercase_def suffix_def)
  let ?servers = "[''a.'', ''b'', ''a'']"
  show ?thesis
  proof (cases "from_servers ?servers")
    case (Inl e)
    have "64 < card (canonicalize_host ` set ?servers)"
      using from_servers_spec [of ?servers] unfolding Inl sum.case by (rule conjunct2)
    moreover have "card (canonicalize_host ` set ?servers) \<le> 3"
      using card_length [of "map canonicalize_host ?servers"] by simp
    ultimately show ?thesis by simp
  next
    case (Inr l)
    have q: "\<forall>i < length ?servers. \<forall>j < length ?servers.
        slot_for_backend l (BackendId i) = slot_for_backend l (BackendId j) \<longleftrightarrow>
        canonicalize_host (?servers ! i) = canonicalize_host (?servers ! j)"
      using from_servers_spec [of ?servers] unfolding Inr sum.case by blast
    show ?thesis
      using q [rule_format, of 0 2] q [rule_format, of 0 1] Inr by (simp add: c)
  qed
qed

section \<open>The registry is read back as written\<close>

definition identity_stable :: "AvailabilityIdentity \<Rightarrow> bool" where
  "identity_stable i \<longleftrightarrow>
     as_host i \<noteq> [] \<and> length (as_host i) \<le> MAX_REGISTRY_FIELD_BYTES \<and>
     utf8_valid (as_host i) \<and> canonicalize_host (as_host i) = as_host i"

definition identity_bytes :: "AvailabilityIdentity \<Rightarrow> bytes" where
  "identity_bytes i = u32_to_le (word_of_nat (length (as_host i))) @ as_host i"

lemma unat_field_length: "n \<le> MAX_REGISTRY_FIELD_BYTES \<Longrightarrow> unat (word_of_nat n :: u32) = n"
  by (simp add: MAX_REGISTRY_FIELD_BYTES_def unat_of_nat)

lemma read_string_identity:
  assumes "identity_stable i"
  shows "read_string (pre @ identity_bytes i @ post) (length pre)
           = Inr (as_host i, length pre + length (identity_bytes i))"
proof -
  let ?n = "u32_to_le (word_of_nat (length (as_host i)))"
  have 1: "slice_get (length pre) (length pre + 4) (pre @ identity_bytes i @ post) = Some ?n"
    using slice_get_append_at [of "length pre" pre "length pre + 4" ?n "as_host i @ post"]
    by (simp add: identity_bytes_def)
  have 2: "slice_get (length pre + 4) (length pre + 4 + length (as_host i)) (pre @ identity_bytes i @ post)
      = Some (as_host i)"
    using slice_get_append_at [of "length pre + 4" "pre @ ?n" "length pre + 4 + length (as_host i)" "as_host i" post]
    by (simp add: identity_bytes_def)
  show ?thesis
    using assms 1 2
    by (simp add: read_string_def read_u32_def identity_stable_def unat_field_length from_utf8_def
        identity_bytes_def Let_def add.assoc)
qed

lemma from_persisted_host_stable: "identity_stable i \<Longrightarrow> from_persisted_host (as_host i) = Inr i"
  by (simp add: identity_stable_def from_persisted_host_def Let_def)

lemma read_identities_written:
  assumes "\<forall>i \<in> set is. identity_stable i" "distinct (acc @ is)"
  shows "read_identities (length is) (pre @ concat (map identity_bytes is)) (length pre) acc
           = Inr (acc @ is, length (pre @ concat (map identity_bytes is)))"
  using assms
proof (induction "is" arbitrary: acc pre)
  case (Cons i "is")
  have "read_identities (length is) ((pre @ identity_bytes i) @ concat (map identity_bytes is))
      (length (pre @ identity_bytes i)) (acc @ [i]) =
    Inr ((acc @ [i]) @ is, length ((pre @ identity_bytes i) @ concat (map identity_bytes is)))"
    by (rule Cons.IH) (use Cons.prems in auto)
  then show ?case
    using Cons.prems read_string_identity [of i pre "concat (map identity_bytes is)"]
    by (simp add: from_persisted_host_stable)
qed simp

lemma write_identities_eq:
  "\<forall>i \<in> set is. identity_stable i \<Longrightarrow>
     write_identities is data = Inr (data @ concat (map identity_bytes is))"
  by (induction "is" arbitrary: data)
    (simp_all add: write_string_def identity_stable_def identity_bytes_def)

lemma write_identities_Inr:
  "write_identities is data = Inr out \<Longrightarrow>
     out = data @ concat (map identity_bytes is) \<and>
     (\<forall>i \<in> set is. length (as_host i) \<le> MAX_REGISTRY_FIELD_BYTES)"
proof (induction "is" arbitrary: data)
  case (Cons i "is")
  then show ?case
    using Cons.IH [of "data @ identity_bytes i"]
    by (auto simp: write_string_def identity_bytes_def split: if_splits)
qed simp

lemma parse_registry_written:
  assumes "\<forall>i \<in> set is. identity_stable i" "distinct is" "length is \<le> 64" "epoch \<noteq> 0"
  shows "\<exists>data. registry_bytes epoch is = Inr data \<and> parse_registry data = Inr (is, epoch)"
proof -
  let ?c = "word_of_nat (length is) :: u64"
  let ?hd = "REGISTRY_MAGIC @ u64_to_le epoch @ u64_to_le ?c"
  let ?data = "?hd @ concat (map identity_bytes is)"
  have magic: "length REGISTRY_MAGIC = 8" by (simp add: REGISTRY_MAGIC_def)
  have 1: "slice_get 8 16 ?data = Some (u64_to_le epoch)"
    using slice_get_append_at [of 8 REGISTRY_MAGIC 16 "u64_to_le epoch"] magic by simp
  have 2: "slice_get 16 24 ?data = Some (u64_to_le ?c)"
    using slice_get_append_at [of 16 "REGISTRY_MAGIC @ u64_to_le epoch" 24 "u64_to_le ?c"] magic by simp
  have c: "unat ?c = length is" using assms(3) by (simp add: unat_of_nat)
  have "length ?hd = 24" using magic by simp
  then have 3: "read_identities (length is) ?data 24 [] = Inr (is, length ?data)"
    using read_identities_written [of "is" "[]" ?hd] assms(1,2) by simp
  have "registry_bytes epoch is = Inr ?data"
    using write_identities_eq [OF assms(1)] by (simp add: registry_bytes_def)
  moreover have "parse_registry ?data = Inr (is, epoch)"
    using 1 2 3 assms c magic by (simp add: parse_registry_def read_u64_def)
  ultimately show ?thesis by blast
qed


lemma identity_stable_ab: "identity_stable (AvailabilityIdentity ''a'')" "identity_stable (AvailabilityIdentity ''b'')"
  by (simp_all add: identity_stable_def MAX_REGISTRY_FIELD_BYTES_def canonicalize_host_def
      to_ascii_lowercase_def suffix_def)


section \<open>Slots survive restarts\<close>

definition registry_after :: "RegistryRead \<Rightarrow> bytes option \<Rightarrow> RegistryRead" where
  "registry_after before published =
     (case published of Some data \<Rightarrow> RegistryBytes data | None \<Rightarrow> before)"

lemma read_identities_distinct:
  "read_identities n data c ids = Inr (ids', c') \<Longrightarrow> distinct ids \<Longrightarrow> distinct ids'"
  by (induction n arbitrary: c ids) (fastforce simp: and_then_Inr_iff split: if_splits)+

lemma parse_registry_Inr:
  "parse_registry data = Inr (ids, epoch) \<Longrightarrow> distinct ids \<and> epoch \<noteq> 0"
  using read_identities_distinct
  by (fastforce simp: parse_registry_def and_then_Inr_iff split: if_splits)

lemma load_registry_Some:
  "load_registry rd = Inr (Some (ids, epoch)) \<Longrightarrow> distinct ids \<and> epoch \<noteq> 0"
  by (auto simp: load_registry_def parse_registry_Inr split: RegistryRead.splits sum.splits)

lemma from_hybrid_registry_Inr:
  assumes "from_hybrid_registry servers d rd uuid w = Inr (l, published)"
  obtains ids0 epoch where
    "al_identities l = foldl add_identity ids0 servers" "al_epoch l = Registered epoch"
    "epoch \<noteq> 0" "distinct (al_identities l)" "length (al_identities l) \<le> 64"
    "load_registry rd = Inr (Some (ids0, epoch)) \<or> load_registry rd = Inr None \<and> ids0 = []"
    "(if load_registry rd = Inr None \<or> al_identities l \<noteq> ids0
      then \<exists>data. published = Some data \<and> registry_bytes epoch (al_identities l) = Inr data
      else published = None)"
proof -
  from assms obtain loaded where l: "load_registry rd = Inr loaded"
    by (auto simp: from_hybrid_registry_def and_then_Inr_iff split: if_splits)
  define ids0 where "ids0 = fst (case loaded of Some r \<Rightarrow> r | None \<Rightarrow> ([], if uuid = 0 then 1 else uuid))"
  define epoch where "epoch = snd (case loaded of Some r \<Rightarrow> r | None \<Rightarrow> ([], if uuid = 0 then 1 else uuid))"
  have p: "(case loaded of Some r \<Rightarrow> r | None \<Rightarrow> ([], if uuid = 0 then 1 else uuid)) = (ids0, epoch)"
    by (simp add: ids0_def epoch_def)
  have d: "distinct ids0" "epoch \<noteq> 0"
    using l load_registry_Some [of rd ids0 epoch] p by (auto split: option.splits if_splits)
  have r: "load_registry rd = Inr (Some (ids0, epoch)) \<or> load_registry rd = Inr None \<and> ids0 = []"
    using l p by (cases loaded) auto
  from assms show thesis
    using that [of ids0 epoch] d r l add_identities(2) [OF d(1)]
    by (auto simp: from_hybrid_registry_def publish_registry_def and_then_Inr_iff p Let_def
        split: if_splits)
qed

lemma position_prefix:
  "prefix xs ys \<Longrightarrow> x \<in> set xs \<Longrightarrow> position (\<lambda>y. y = x) ys = position (\<lambda>y. y = x) xs"
  by (auto simp: prefix_def position_append dest!: position_eq_Some)

lemma add_identity_known:
  "identity_from_host ` set servers \<subseteq> set ids \<Longrightarrow> foldl add_identity ids servers = ids"
  by (induction servers) (simp_all add: add_identity_def Let_def)

lemma registry_reload:
  assumes "from_hybrid_registry servers d rd uuid w = Inr (l, published)"
    and "\<forall>i \<in> set (al_identities l). identity_stable i"
  shows "\<exists>epoch. al_epoch l = Registered epoch \<and>
     load_registry (registry_after rd published) = Inr (Some (al_identities l, epoch))"
proof -
  from assms(1) obtain ids0 epoch where e:
    "al_epoch l = Registered epoch" "epoch \<noteq> 0" "distinct (al_identities l)" "length (al_identities l) \<le> 64"
    and r: "load_registry rd = Inr (Some (ids0, epoch)) \<or> load_registry rd = Inr None \<and> ids0 = []"
    and p: "(if load_registry rd = Inr None \<or> al_identities l \<noteq> ids0
      then \<exists>data. published = Some data \<and> registry_bytes epoch (al_identities l) = Inr data
      else published = None)"
    by (rule from_hybrid_registry_Inr)
  show ?thesis
  proof (cases published)
    case None
    with p r e show ?thesis by (auto simp: registry_after_def split: if_splits)
  next
    case (Some data)
    with p have "registry_bytes epoch (al_identities l) = Inr data" by (auto split: if_splits)
    with parse_registry_written [OF assms(2) e(3,4,2)]
    have "parse_registry data = Inr (al_identities l, epoch)" by simp
    with Some e show ?thesis by (simp add: registry_after_def load_registry_def)
  qed
qed


lemma registry_start_a:
  "\<exists>data. from_hybrid_registry [''a''] True RegistryNotFound 5 True =
     Inr (\<lparr>al_backend_slots = [AvailabilitySlot 0], al_identities = [AvailabilityIdentity ''a''],
           al_mask = 1, al_epoch = Registered 5\<rparr>, Some data)
   \<and> parse_registry data = Inr ([AvailabilityIdentity ''a''], 5)"
proof -
  obtain data where "registry_bytes 5 [AvailabilityIdentity ''a''] = Inr data"
    "parse_registry data = Inr ([AvailabilityIdentity ''a''], 5)"
    using parse_registry_written [of "[AvailabilityIdentity ''a'']" 5] identity_stable_ab by auto
  moreover have "identity_from_host ''a'' = AvailabilityIdentity ''a''"
    by (simp add: identity_from_host_def canonicalize_host_def to_ascii_lowercase_def suffix_def)
  ultimately show ?thesis
    by (simp add: from_hybrid_registry_def load_registry_def add_identity_def publish_registry_def
        slot_new_def mask_from_slots_def mask_insert_def slot_bit_def)
qed



end
