(* ===== verification/Router.thy ===== *)
theory Router
  imports Layout Complex_Main "HOL-Library.Log_Nat"
begin

text \<open>
  Backend selection (\<open>src/src/router/mod.rs\<close>, \<open>backend_info.rs\<close>, \<open>strategies.rs\<close>). The counts that a
  connection pool reports are data of the state; server names, which only occur in log lines, are
  left out. Atomic counters are words, so that they wrap around as in the code. Pool sizes and sums
  of pool sizes are natural numbers below the range of \<open>usize\<close>.
\<close>

section \<open>64-bit floating point quotients\<close>

text \<open>
  The load ratio is an \<open>f64\<close>. The model is the rational value: an integer converts to the nearest
  multiple of a power of two with 53 significant bits, ties to even, and a quotient is rounded the
  same way. The values here are zero or between \<open>2 ^ -64\<close> and \<open>2 ^ 64\<close>, far from overflow and
  underflow.
\<close>

definition round_half_even :: "nat \<Rightarrow> nat \<Rightarrow> nat" where
  "round_half_even n d =
     (let q = n div d; r = n mod d
      in if 2 * r < d \<or> (2 * r = d \<and> even q) then q else q + 1)"

definition f64_of_nat :: "nat \<Rightarrow> nat" where
  "f64_of_nat n =
     (let bits = floorlog 2 n
      in if bits \<le> 53 then n else round_half_even n (2 ^ (bits - 53)) * 2 ^ (bits - 53))"

text \<open>\<open>f64_quot a b\<close> rounds \<open>a / b\<close>: the significand has 53 bits after scaling by a power of two.\<close>

definition f64_quot :: "nat \<Rightarrow> nat \<Rightarrow> rat" where
  "f64_quot a b =
     (if a = 0 then 0
      else let up = 53 + floorlog 2 b; down = floorlog 2 a;
               n = a * 2 ^ up; d = b * 2 ^ down;
               d' = (if d * 2 ^ 53 \<le> n then 2 * d else d)
           in rat_of_nat (round_half_even n d') * rat_of_nat (d' div b) / 2 ^ up)"

definition f64_div :: "nat \<Rightarrow> nat \<Rightarrow> rat" where
  "f64_div a b = f64_quot (f64_of_nat a) (f64_of_nat b)"

definition f64_MAX :: rat where "f64_MAX = (2 ^ 53 - 1) * 2 ^ 971"

section \<open>Backends\<close>

record PoolStatus =
  ps_size :: nat
  ps_available :: nat
  ps_waiting :: nat
  ps_max_size :: nat

record BackendInfo =
  bi_id :: BackendId
  bi_availability_slot :: AvailabilitySlot
  bi_status :: PoolStatus
  bi_pending_count :: usize
  bi_stateful_count :: usize
  bi_tier :: u8

definition sat_add :: "nat \<Rightarrow> nat \<Rightarrow> nat" where "sat_add a b = min (a + b) (2 ^ 64 - 1)"
definition sat_mul :: "nat \<Rightarrow> nat \<Rightarrow> nat" where "sat_mul a b = min (a * b) (2 ^ 64 - 1)"

definition checked_out :: "PoolStatus \<Rightarrow> nat" where
  "checked_out status = ps_size status - ps_available status"

definition pending_increment :: "BackendInfo \<Rightarrow> BackendInfo" where
  "pending_increment b = b\<lparr>bi_pending_count := bi_pending_count b + 1\<rparr>"

definition pending_decrement :: "BackendInfo \<Rightarrow> BackendInfo" where
  "pending_decrement b = b\<lparr>bi_pending_count := bi_pending_count b - 1\<rparr>"

text \<open>\<open>try_increment_from\<close>: a compare-and-exchange, \<open>None\<close> when it fails.\<close>

definition try_increment_from :: "usize \<Rightarrow> BackendInfo \<Rightarrow> BackendInfo option" where
  "try_increment_from observed b =
     (if bi_pending_count b = observed then Some (b\<lparr>bi_pending_count := observed + 1\<rparr>) else None)"

definition stateful_try_acquire :: "nat \<Rightarrow> BackendInfo \<Rightarrow> BackendInfo option" where
  "stateful_try_acquire max_stateful b =
     (if max_stateful \<le> unat (bi_stateful_count b) then None
      else Some (b\<lparr>bi_stateful_count := bi_stateful_count b + 1\<rparr>))"

text \<open>\<open>release\<close>: \<open>Err(0)\<close> leaves the count at zero.\<close>

definition stateful_release :: "BackendInfo \<Rightarrow> BackendInfo" where
  "stateful_release b =
     (if bi_stateful_count b = 0 then b else b\<lparr>bi_stateful_count := bi_stateful_count b - 1\<rparr>)"

section \<open>Strategies\<close>

datatype SelectionStrategy =
    WeightedRoundRobin (wrr_counter: usize) (wrr_total_weight: nat)
  | is_LeastLoaded: LeastLoaded (tie_breaker: usize)

definition select_with_weight :: "usize \<Rightarrow> nat \<Rightarrow> (nat \<times> usize) option" where
  "select_with_weight counter weight =
     (if weight = 0 then None else Some (unat counter mod weight, counter + 1))"

definition mix :: "usize \<Rightarrow> usize" where
  "mix value =
     (let v = value XOR drop_bit 16 value;
          v = v * 0x7feb352d;
          v = v XOR drop_bit 15 v;
          v = v * 0x846ca68b
      in v XOR drop_bit 16 v)"

definition should_replace_tie :: "usize \<Rightarrow> nat \<Rightarrow> bool \<times> usize" where
  "should_replace_tie counter tie_count =
     (if tie_count \<le> 1 then (False, counter)
      else (unat (mix counter) mod tie_count = 0, counter + 0x9e3779b97f4a7c15))"

section \<open>The selector\<close>

record BackendSelector =
  bs_backends :: "BackendInfo list"
  bs_strategy :: SelectionStrategy
  bs_sorted_tiers :: "u8 list"
  bs_initial_article_probe_counter :: usize
  bs_availability_mask :: usize
  bs_queue_backpressure_enabled :: bool
  bs_soft_percent :: nat
  bs_hard_percent :: nat
  bs_all_busy_sleep_ms :: u64

datatype BackendSelectionStrategy = ConfigWeightedRoundRobin | ConfigLeastLoaded

definition with_strategy :: "BackendSelectionStrategy \<Rightarrow> BackendSelector" where
  "with_strategy strategy =
     \<lparr>bs_backends = [],
      bs_strategy = (case strategy of
         ConfigWeightedRoundRobin \<Rightarrow> WeightedRoundRobin 0 0 | ConfigLeastLoaded \<Rightarrow> LeastLoaded 0),
      bs_sorted_tiers = [], bs_initial_article_probe_counter = 0, bs_availability_mask = 0,
      bs_queue_backpressure_enabled = True, bs_soft_percent = 25, bs_hard_percent = 50,
      bs_all_busy_sleep_ms = 1\<rparr>"

definition with_queue_backpressure ::
    "bool \<Rightarrow> nat \<times> nat \<Rightarrow> u64 \<Rightarrow> BackendSelector \<Rightarrow> BackendSelector" where
  "with_queue_backpressure enabled limits sleep_ms sel =
     sel\<lparr>bs_queue_backpressure_enabled := enabled, bs_soft_percent := fst limits,
         bs_hard_percent := snd limits, bs_all_busy_sleep_ms := sleep_ms\<rparr>"

definition queue_pressure_limits_try_new :: "nat \<Rightarrow> nat \<Rightarrow> (nat \<times> nat) option" where
  "queue_pressure_limits_try_new soft hard =
     (if soft \<le> 100 \<and> hard \<le> 100 \<and> soft \<le> hard then Some (soft, hard) else None)"

text \<open>A backend is added with the pool that its provider reports.\<close>

definition add_backend_with_slot ::
    "PoolStatus \<Rightarrow> u8 \<Rightarrow> AvailabilitySlot \<Rightarrow> BackendSelector \<Rightarrow> BackendSelector \<times> BackendId" where
  "add_backend_with_slot status tier slot sel =
     (let backend_id = BackendId (length (bs_backends sel));
          strategy = (case bs_strategy sel of
             WeightedRoundRobin c w \<Rightarrow> WeightedRoundRobin c (w + ps_max_size status)
           | LeastLoaded t \<Rightarrow> LeastLoaded t);
          b = \<lparr>bi_id = backend_id, bi_availability_slot = slot, bi_status = status,
               bi_pending_count = 0, bi_stateful_count = 0, bi_tier = tier\<rparr>
      in (sel\<lparr>bs_strategy := strategy, bs_backends := bs_backends sel @ [b],
              bs_availability_mask := mask_insert (bs_availability_mask sel) slot,
              bs_sorted_tiers := (if tier \<in> set (bs_sorted_tiers sel) then bs_sorted_tiers sel
                                  else sort (bs_sorted_tiers sel @ [tier]))\<rparr>,
          backend_id))"

definition find_backend :: "BackendSelector \<Rightarrow> BackendId \<Rightarrow> BackendInfo option" where
  "find_backend sel i = find (\<lambda>b. bi_id b = i) (bs_backends sel)"

text \<open>Updating a backend through its counters: the backend with the identifier changes in place.\<close>

definition update_backend :: "BackendId \<Rightarrow> (BackendInfo \<Rightarrow> BackendInfo) \<Rightarrow> BackendSelector \<Rightarrow> BackendSelector" where
  "update_backend i f sel = sel\<lparr>bs_backends := map (\<lambda>b. if bi_id b = i then f b else b) (bs_backends sel)\<rparr>"

definition get_tier :: "BackendSelector \<Rightarrow> BackendId \<Rightarrow> u8 option" where
  "get_tier sel i = map_option bi_tier (find_backend sel i)"

definition backend_ids_in_tier :: "BackendSelector \<Rightarrow> u8 \<Rightarrow> BackendId list" where
  "backend_ids_in_tier sel tier = map bi_id (filter (\<lambda>b. bi_tier b = tier) (bs_backends sel))"

section \<open>Queue pressure\<close>

definition active_for_score :: "nat \<Rightarrow> nat \<Rightarrow> nat \<Rightarrow> nat" where
  "active_for_score pending out waiting =
     (let out_with_waiters = sat_add out waiting
      in if out_with_waiters < pending then pending else out_with_waiters)"

definition queue_depth_for_score :: "nat \<Rightarrow> nat \<Rightarrow> nat \<Rightarrow> nat" where
  "queue_depth_for_score pending out waiting = active_for_score pending out waiting - out"

definition queue_depth_limit :: "nat \<Rightarrow> nat \<Rightarrow> nat" where
  "queue_depth_limit max_connections percent =
     (let product = sat_mul max_connections percent in (product + 99) div 100)"

definition queue_soft_pressure_penalty :: "BackendSelector \<Rightarrow> nat \<Rightarrow> nat \<Rightarrow> nat \<Rightarrow> nat \<Rightarrow> nat" where
  "queue_soft_pressure_penalty sel pending out waiting max_connections =
     (if \<not> bs_queue_backpressure_enabled sel \<or> max_connections = 0 then 0
      else queue_depth_for_score pending out waiting
             - queue_depth_limit max_connections (bs_soft_percent sel))"

definition exceeds_hard_queue_depth :: "BackendSelector \<Rightarrow> nat \<Rightarrow> nat \<Rightarrow> nat \<Rightarrow> nat \<Rightarrow> bool" where
  "exceeds_hard_queue_depth sel pending out waiting max_connections =
     (if \<not> bs_queue_backpressure_enabled sel \<or> max_connections = 0 then False
      else queue_depth_limit max_connections (bs_hard_percent sel)
             < queue_depth_for_score pending out waiting)"

definition over_hard :: "BackendSelector \<Rightarrow> BackendInfo \<Rightarrow> bool" where
  "over_hard sel b =
     exceeds_hard_queue_depth sel (unat (bi_pending_count b)) (checked_out (bi_status b))
       (ps_waiting (bi_status b)) (ps_max_size (bi_status b))"

definition backend_load_ratio_with_pending :: "BackendSelector \<Rightarrow> BackendInfo \<Rightarrow> usize \<Rightarrow> rat" where
  "backend_load_ratio_with_pending sel b pending =
     (let status = bi_status b in
      if 0 < ps_max_size status then
        (let out = checked_out status;
             penalty = queue_soft_pressure_penalty sel (unat pending) out (ps_waiting status)
                         (ps_max_size status)
         in f64_div (active_for_score (unat pending) out (sat_add (ps_waiting status) penalty))
              (ps_max_size status))
      else f64_MAX)"

section \<open>Selection\<close>

text \<open>A selected backend and, for the least-loaded strategy, the pending count that was observed.\<close>

type_synonym SelectedBackend = "BackendInfo \<times> usize option"

fun scan_cumulative :: "nat \<Rightarrow> BackendInfo list \<Rightarrow> (nat \<times> BackendInfo) list" where
  "scan_cumulative cumulative [] = []"
| "scan_cumulative cumulative (b # bs) =
     (let c = cumulative + ps_max_size (bi_status b) in (c, b) # scan_cumulative c bs)"

definition total_weight_of :: "BackendInfo list \<Rightarrow> nat" where
  "total_weight_of bs = sum_list (map (\<lambda>b. ps_max_size (bi_status b)) bs)"

definition backend_at_position :: "nat \<Rightarrow> BackendInfo list \<Rightarrow> BackendInfo option" where
  "backend_at_position pos candidates =
     (case find (\<lambda>(c, _). pos < c) (scan_cumulative 0 candidates) of
        Some (_, b) \<Rightarrow> Some b
      | None \<Rightarrow> (case candidates of [] \<Rightarrow> None | b # _ \<Rightarrow> Some b))"

definition select_capacity_weighted ::
    "(BackendInfo \<Rightarrow> bool) \<Rightarrow> BackendSelector \<Rightarrow> BackendInfo option \<times> BackendSelector" where
  "select_capacity_weighted P sel =
     (let candidates = filter P (bs_backends sel); total = total_weight_of candidates
      in if total = 0 then (None, sel)
         else let pos = unat (bs_initial_article_probe_counter sel) mod total
              in (backend_at_position pos candidates,
                  sel\<lparr>bs_initial_article_probe_counter := bs_initial_article_probe_counter sel + 1\<rparr>))"

fun least_loaded_loop ::
    "BackendSelector \<Rightarrow> BackendInfo list \<Rightarrow> SelectedBackend option \<Rightarrow> rat \<Rightarrow> nat \<Rightarrow> usize
       \<Rightarrow> SelectedBackend option \<times> usize" where
  "least_loaded_loop sel [] selected selected_load ties breaker = (selected, breaker)"
| "least_loaded_loop sel (b # bs) selected selected_load ties breaker =
     (let snapshot = bi_pending_count b;
          load = backend_load_ratio_with_pending sel b snapshot
      in if load < selected_load
         then least_loaded_loop sel bs (Some (b, Some snapshot)) load 1 breaker
         else if load = selected_load
         then (let (replace, breaker') = should_replace_tie breaker (ties + 1)
               in least_loaded_loop sel bs (if replace then Some (b, Some snapshot) else selected)
                    selected_load (ties + 1) breaker')
         else least_loaded_loop sel bs selected selected_load ties breaker)"

definition select_weighted ::
    "(BackendInfo \<Rightarrow> bool) \<Rightarrow> BackendSelector \<Rightarrow> SelectedBackend option \<times> BackendSelector" where
  "select_weighted P sel =
     (let candidates = filter P (bs_backends sel) in
      case bs_strategy sel of
        WeightedRoundRobin counter total_w \<Rightarrow>
          (let weight = total_weight_of candidates
           in if weight = 0 then (None, sel)
              else case select_with_weight counter weight of
                     None \<Rightarrow> (None, sel)
                   | Some (pos, counter') \<Rightarrow>
                       (map_option (\<lambda>b. (b, None)) (backend_at_position pos candidates),
                        sel\<lparr>bs_strategy := WeightedRoundRobin counter' total_w\<rparr>))
      | LeastLoaded breaker \<Rightarrow>
          (let (selected, breaker') = least_loaded_loop sel candidates None f64_MAX 0 breaker
           in (selected, sel\<lparr>bs_strategy := LeastLoaded breaker'\<rparr>)))"

definition is_suppressed :: "usize \<Rightarrow> BackendId \<Rightarrow> bool" where
  "is_suppressed bits i \<longleftrightarrow> bits AND availability_bit i \<noteq> 0"

definition suppress :: "usize \<Rightarrow> BackendId \<Rightarrow> usize" where
  "suppress bits i = bits OR availability_bit i"

text \<open>\<open>availability\<close> is the missing state of an article request and \<open>None\<close> for raw routing.\<close>

definition slot_allowed :: "usize option \<Rightarrow> BackendInfo \<Rightarrow> bool" where
  "slot_allowed availability b =
     (case availability of None \<Rightarrow> True | Some m \<Rightarrow> should_try_slot m (bi_availability_slot b))"

definition is_available :: "usize option \<Rightarrow> usize \<Rightarrow> BackendInfo \<Rightarrow> bool" where
  "is_available availability suppressed b \<longleftrightarrow>
     \<not> is_suppressed suppressed (bi_id b) \<and> slot_allowed availability b"

definition availability_missing_in_tier :: "BackendSelector \<Rightarrow> usize \<Rightarrow> u8 \<Rightarrow> bool" where
  "availability_missing_in_tier sel missing tier \<longleftrightarrow>
     (\<exists>b \<in> set (bs_backends sel). bi_tier b = tier \<and> is_missing_slot missing (bi_availability_slot b))"

definition tier_filter :: "BackendSelector \<Rightarrow> usize option \<Rightarrow> usize \<Rightarrow> u8 \<Rightarrow> BackendInfo \<Rightarrow> bool" where
  "tier_filter sel availability suppressed tier b =
     (if bi_tier b \<noteq> tier \<or> \<not> is_available availability suppressed b then False
      else if \<not> (bs_queue_backpressure_enabled sel \<and>
                  (\<exists>c \<in> set (bs_backends sel). bi_tier c = tier \<and> is_available availability suppressed c
                     \<and> \<not> over_hard sel c))
      then True
      else \<not> over_hard sel b)"

definition select_in_tier ::
    "BackendSelector \<Rightarrow> usize option \<Rightarrow> usize \<Rightarrow> u8 \<Rightarrow> SelectedBackend option \<times> BackendSelector" where
  "select_in_tier sel availability suppressed tier =
     (let P = tier_filter sel availability suppressed tier;
          initial = (case availability of None \<Rightarrow> False
                     | Some m \<Rightarrow> \<not> availability_missing_in_tier sel m tier)
      in case bs_strategy sel of
           WeightedRoundRobin _ _ \<Rightarrow>
             if initial then (let (b, sel') = select_capacity_weighted P sel
                              in (map_option (\<lambda>b. (b, None)) b, sel'))
             else select_weighted P sel
         | LeastLoaded _ \<Rightarrow> select_weighted P sel)"

fun select_tiers ::
    "u8 list \<Rightarrow> BackendSelector \<Rightarrow> usize option \<Rightarrow> usize \<Rightarrow> SelectedBackend option \<times> BackendSelector" where
  "select_tiers [] sel availability suppressed = (None, sel)"
| "select_tiers (tier # tiers) sel availability suppressed =
     (case select_in_tier sel availability suppressed tier of
        (Some selected, sel') \<Rightarrow> (Some selected, sel')
      | (None, sel') \<Rightarrow>
          if availability \<noteq> None \<and>
             (\<exists>b \<in> set (bs_backends sel'). bi_tier b = tier \<and> slot_allowed availability b)
          then (None, sel')
          else select_tiers tiers sel' availability suppressed)"

definition select_backend ::
    "BackendSelector \<Rightarrow> usize option \<Rightarrow> usize \<Rightarrow> SelectedBackend option \<times> BackendSelector" where
  "select_backend sel availability suppressed =
     (if bs_backends sel = [] then (None, sel)
      else select_tiers (bs_sorted_tiers sel) sel availability suppressed)"

section \<open>Routing\<close>

datatype RouteError = NoBackendsAvailable nat | NoLongerEligible nat

text \<open>
  The routing loop selects, then reserves the backend. Other threads may change the counters between
  the two steps; \<open>interference\<close> lists what they do in each round, and after it the router runs
  undisturbed. A lost compare-and-exchange starts the next round.
\<close>

fun route_selected_backend ::
    "(BackendSelector \<Rightarrow> BackendSelector) list \<Rightarrow> usize option \<Rightarrow> usize \<Rightarrow> BackendSelector
       \<Rightarrow> (RouteError + BackendId) \<times> BackendSelector" where
  "route_selected_backend [] availability suppressed sel =
     (case select_backend sel availability suppressed of
        (None, sel') \<Rightarrow> (Err (NoBackendsAvailable (length (bs_backends sel'))), sel')
      | (Some (b, snapshot), sel') \<Rightarrow>
          if \<not> slot_allowed availability b then (Err (NoLongerEligible (as_index (bi_id b))), sel')
          else (Ok (bi_id b), update_backend (bi_id b) pending_increment sel'))"
| "route_selected_backend (others # interference) availability suppressed sel =
     (case select_backend sel availability suppressed of
        (None, sel') \<Rightarrow> (Err (NoBackendsAvailable (length (bs_backends sel'))), sel')
      | (Some (b, snapshot), sel') \<Rightarrow>
          if \<not> slot_allowed availability b then (Err (NoLongerEligible (as_index (bi_id b))), sel')
          else let sel'' = others sel' in
               case snapshot of
                 None \<Rightarrow> (Ok (bi_id b), update_backend (bi_id b) pending_increment sel'')
               | Some observed \<Rightarrow>
                   (case find_backend sel'' (bi_id b) of
                      Some b' \<Rightarrow>
                        (case try_increment_from observed b' of
                           Some b'' \<Rightarrow> (Ok (bi_id b), update_backend (bi_id b) (\<lambda>_. b'') sel'')
                         | None \<Rightarrow> route_selected_backend interference availability suppressed sel'')
                    | None \<Rightarrow> route_selected_backend interference availability suppressed sel''))"

definition complete_command :: "BackendId \<Rightarrow> BackendSelector \<Rightarrow> BackendSelector" where
  "complete_command i sel = update_backend i pending_decrement sel"

definition mark_backend_pending :: "BackendId \<Rightarrow> BackendSelector \<Rightarrow> BackendSelector" where
  "mark_backend_pending i sel = update_backend i pending_increment sel"

definition try_acquire_stateful :: "BackendId \<Rightarrow> BackendSelector \<Rightarrow> bool \<times> BackendSelector" where
  "try_acquire_stateful i sel =
     (case find_backend sel i of
        None \<Rightarrow> (False, sel)
      | Some b \<Rightarrow>
          (case stateful_try_acquire (ps_max_size (bi_status b) - 1) b of
             None \<Rightarrow> (False, sel)
           | Some b' \<Rightarrow> (True, update_backend i (\<lambda>_. b') sel)))"

definition release_stateful :: "BackendId \<Rightarrow> BackendSelector \<Rightarrow> BackendSelector" where
  "release_stateful i sel = update_backend i stateful_release sel"

fun backpressure_tiers :: "u8 list \<Rightarrow> BackendSelector \<Rightarrow> usize \<Rightarrow> usize \<Rightarrow> u64 option" where
  "backpressure_tiers [] sel availability suppressed = None"
| "backpressure_tiers (tier # tiers) sel availability suppressed =
     (let candidates = filter (\<lambda>b. bi_tier b = tier \<and> \<not> is_suppressed suppressed (bi_id b)
                                   \<and> should_try_slot availability (bi_availability_slot b))
                         (bs_backends sel)
      in if candidates \<noteq> []
         then (if list_ex (\<lambda>b. \<not> over_hard sel b) candidates then None
               else Some (bs_all_busy_sleep_ms sel))
         else backpressure_tiers tiers sel availability suppressed)"

definition queue_backpressure_delay_for_article ::
    "BackendSelector \<Rightarrow> usize \<Rightarrow> usize \<Rightarrow> u64 option" where
  "queue_backpressure_delay_for_article sel availability suppressed =
     (if \<not> bs_queue_backpressure_enabled sel \<or> bs_all_busy_sleep_ms sel = 0 then None
      else backpressure_tiers (bs_sorted_tiers sel) sel availability suppressed)"

section \<open>Rounding stays far below the largest float\<close>

lemma round_half_even_le: "round_half_even n d \<le> n div d + 1"
  by (simp add: round_half_even_def Let_def)

lemma two_power_floorlog: "0 < n \<Longrightarrow> 2 ^ floorlog 2 n \<le> 2 * n"
  using floorlog_bounds [of n 2] by (cases "floorlog 2 n") (auto simp: floorlog_def)

lemma f64_of_nat_le: "f64_of_nat n \<le> 3 * n"
proof (cases "floorlog 2 n \<le> 53")
  case False
  define k where "k = floorlog 2 n - 53"
  have n: "0 < n" using False by (cases n) (auto simp: floorlog_def)
  have "(2::nat) ^ k \<le> 2 ^ floorlog 2 n" by (rule power_increasing) (simp_all add: k_def)
  then have "(2::nat) ^ k \<le> 2 * n" using two_power_floorlog [OF n] by linarith
  moreover have "round_half_even n (2 ^ k) * 2 ^ k \<le> (n div 2 ^ k + 1) * 2 ^ k"
    by (intro mult_right_mono round_half_even_le) simp
  moreover have "(n div 2 ^ k + 1) * 2 ^ k \<le> n + 2 ^ k" by (simp add: algebra_simps)
  moreover have "f64_of_nat n = round_half_even n (2 ^ k) * 2 ^ k"
    using False by (simp add: f64_of_nat_def k_def Let_def)
  ultimately show ?thesis by linarith
qed (simp add: f64_of_nat_def)

lemma f64_quot_le:
  assumes "0 < b"
  shows "f64_quot a b \<le> rat_of_nat (5 * a)"
proof (cases "a = 0")
  case False
  define up where "up = 53 + floorlog 2 b"
  define e where "e = (if b * 2 ^ floorlog 2 a * 2 ^ 53 \<le> a * 2 ^ up then Suc (floorlog 2 a) else floorlog 2 a)"
  let ?n = "a * 2 ^ up" and ?d = "b * 2 ^ e"
  have d: "(if b * 2 ^ floorlog 2 a * 2 ^ 53 \<le> a * 2 ^ up then 2 * (b * 2 ^ floorlog 2 a)
      else b * 2 ^ floorlog 2 a) = ?d" by (simp add: e_def)
  have q: "f64_quot a b = rat_of_nat (round_half_even ?n ?d) * rat_of_nat (2 ^ e) / 2 ^ up"
    using False assms d by (simp add: f64_quot_def Let_def flip: up_def)
  have "2 ^ e \<le> 4 * a"
    using two_power_floorlog [of a] False by (simp add: e_def)
  have "round_half_even ?n ?d * 2 ^ e \<le> (?n div ?d + 1) * 2 ^ e"
    by (intro mult_right_mono round_half_even_le) simp
  also have "\<dots> \<le> ?n div ?d * ?d + 2 ^ e" using assms by (simp add: algebra_simps)
  also have "\<dots> \<le> ?n + 4 * a" using \<open>2 ^ e \<le> 4 * a\<close> by (intro add_mono) simp_all
  also have "\<dots> \<le> 5 * a * 2 ^ up" by (simp add: algebra_simps)
  finally have "rat_of_nat (round_half_even ?n ?d * 2 ^ e) \<le> rat_of_nat (5 * a * 2 ^ up)"
    by (simp only: of_nat_le_iff)
  then show ?thesis unfolding q by (simp add: divide_le_eq)
qed (simp add: f64_quot_def)

lemma f64_of_nat_pos: "0 < n \<Longrightarrow> 0 < f64_of_nat n"
proof (cases "floorlog 2 n \<le> 53")
  case False
  assume n: "0 < n"
  define k where "k = floorlog 2 n - 53"
  have "2 ^ k \<le> n"
  proof -
    have "(2::nat) ^ k \<le> 2 ^ (floorlog 2 n - 1)" by (rule power_increasing) (simp_all add: k_def)
    also have "\<dots> \<le> n" using floorlog_bounds [of n 2] n by simp
    finally show ?thesis .
  qed
  then have "1 \<le> n div 2 ^ k" by (simp add: Suc_le_eq div_greater_zero_iff)
  then have "0 < round_half_even n (2 ^ k)" by (simp add: round_half_even_def Let_def)
  then show ?thesis using False by (simp add: f64_of_nat_def k_def Let_def)
qed (simp add: f64_of_nat_def)

lemma f64_div_less_MAX:
  assumes "0 < b" "a < 2 ^ 64"
  shows "f64_div a b < f64_MAX"
proof -
  have "f64_div a b \<le> rat_of_nat (5 * f64_of_nat a)"
    unfolding f64_div_def by (rule f64_quot_le) (rule f64_of_nat_pos [OF assms(1)])
  also have "\<dots> \<le> rat_of_nat (15 * 2 ^ 64)"
    using f64_of_nat_le [of a] assms(2) by (simp only: of_nat_le_iff)
  also have "\<dots> < f64_MAX" by (simp add: f64_MAX_def)
  finally show ?thesis .
qed

lemma load_less_MAX:
  assumes "0 < ps_max_size (bi_status b)"
  shows "backend_load_ratio_with_pending sel b pending < f64_MAX"
proof -
  have "active_for_score (unat pending) x y < 2 ^ 64" for x y
    using unsigned_less [of pending, where 'a = nat] by (simp add: active_for_score_def sat_add_def Let_def min_less_iff_disj)
  with assms show ?thesis
    by (simp add: backend_load_ratio_with_pending_def Let_def f64_div_less_MAX)
qed

section \<open>Selection within a set of candidates\<close>

lemma scan_cumulative_find:
  assumes "p < c + total_weight_of bs" "c \<le> p"
  shows "\<exists>w b. find (\<lambda>(c, _). p < c) (scan_cumulative c bs) = Some (w, b) \<and> b \<in> set bs"
  using assms
proof (induction bs arbitrary: c)
  case (Cons b bs)
  show ?case
  proof (cases "p < c + ps_max_size (bi_status b)")
    case False
    then show ?thesis
      using Cons.IH [of "c + ps_max_size (bi_status b)"] Cons.prems
      by (auto simp: total_weight_of_def Let_def add.assoc)
  qed (simp add: Let_def)
qed (simp add: total_weight_of_def)

lemma backend_at_position_Some:
  "p < total_weight_of bs \<Longrightarrow> \<exists>b \<in> set bs. backend_at_position p bs = Some b"
  using scan_cumulative_find [of p 0 bs] by (auto simp: backend_at_position_def)

lemma total_weight_pos:
  "\<forall>b \<in> set bs. 0 < ps_max_size (bi_status b) \<Longrightarrow> 0 < total_weight_of bs \<longleftrightarrow> bs \<noteq> []"
  by (cases bs) (simp_all add: total_weight_of_def)

text \<open>The least-loaded scan keeps a candidate of least load.\<close>

abbreviation load_of :: "BackendSelector \<Rightarrow> BackendInfo \<Rightarrow> rat" where
  "load_of sel b \<equiv> backend_load_ratio_with_pending sel b (bi_pending_count b)"

definition scan_state_ok ::
    "BackendSelector \<Rightarrow> BackendInfo set \<Rightarrow> SelectedBackend option \<Rightarrow> rat \<Rightarrow> bool" where
  "scan_state_ok sel seen selected load \<longleftrightarrow>
     (case selected of
        None \<Rightarrow> seen = {} \<and> load = f64_MAX
      | Some (b, snapshot) \<Rightarrow>
          b \<in> seen \<and> snapshot = Some (bi_pending_count b) \<and> load = load_of sel b \<and>
          (\<forall>c \<in> seen. load_of sel b \<le> load_of sel c))"

lemma least_loaded_loop_ok:
  assumes "scan_state_ok sel seen selected load" "\<forall>b \<in> set bs. 0 < ps_max_size (bi_status b)"
    and "least_loaded_loop sel bs selected load ties breaker = (selected', breaker')"
  shows "\<exists>load'. scan_state_ok sel (seen \<union> set bs) selected' load'"
  using assms
proof (induction bs arbitrary: seen selected load ties breaker)
  case (Cons b bs)
  let ?l = "load_of sel b"
  have "?l < f64_MAX" using Cons.prems(2) by (simp add: load_less_MAX)
  consider "?l < load" | "?l = load" | "load < ?l" by linarith
  then show ?case
  proof cases
    case 1
    have "scan_state_ok sel (insert b seen) (Some (b, Some (bi_pending_count b))) ?l"
      using Cons.prems(1) 1 by (fastforce simp: scan_state_ok_def split: option.splits)
    from Cons.IH [OF this] Cons.prems 1 show ?thesis by (simp add: Let_def)
  next
    case 2
    obtain r br where r: "should_replace_tie breaker (ties + 1) = (r, br)" by fastforce
    have "selected \<noteq> None"
      using Cons.prems(1) 2 \<open>?l < f64_MAX\<close> by (cases selected) (auto simp: scan_state_ok_def)
    then have "scan_state_ok sel (insert b seen)
        (if r then Some (b, Some (bi_pending_count b)) else selected) load"
      using Cons.prems(1) 2 by (auto simp: scan_state_ok_def)
    from Cons.IH [OF this] Cons.prems 2 r show ?thesis by (simp add: Let_def)
  next
    case 3
    have "selected \<noteq> None"
      using Cons.prems(1) 3 \<open>?l < f64_MAX\<close> by (cases selected) (auto simp: scan_state_ok_def)
    then have "scan_state_ok sel (insert b seen) selected load"
      using Cons.prems(1) 3 by (auto simp: scan_state_ok_def)
    from Cons.IH [OF this] Cons.prems 3 show ?thesis by (simp add: Let_def)
  qed
qed auto

text \<open>Selection changes nothing but the counters of the strategy.\<close>

definition same_routes :: "BackendSelector \<Rightarrow> BackendSelector \<Rightarrow> bool" where
  "same_routes sel sel' \<longleftrightarrow>
     bs_backends sel' = bs_backends sel \<and> bs_sorted_tiers sel' = bs_sorted_tiers sel \<and>
     bs_availability_mask sel' = bs_availability_mask sel \<and>
     bs_queue_backpressure_enabled sel' = bs_queue_backpressure_enabled sel \<and>
     bs_soft_percent sel' = bs_soft_percent sel \<and> bs_hard_percent sel' = bs_hard_percent sel \<and>
     bs_all_busy_sleep_ms sel' = bs_all_busy_sleep_ms sel \<and>
     (case (bs_strategy sel, bs_strategy sel') of
        (WeightedRoundRobin _ w, WeightedRoundRobin _ w') \<Rightarrow> w = w'
      | (LeastLoaded _, LeastLoaded _) \<Rightarrow> True
      | _ \<Rightarrow> False)"

definition selected_ok :: "BackendSelector \<Rightarrow> (BackendInfo \<Rightarrow> bool) \<Rightarrow> SelectedBackend option \<Rightarrow> bool" where
  "selected_ok sel P r \<longleftrightarrow>
     (case r of
        None \<Rightarrow> \<not> (\<exists>b \<in> set (bs_backends sel). P b)
      | Some (b, snapshot) \<Rightarrow>
          b \<in> set (bs_backends sel) \<and> P b \<and>
          (case bs_strategy sel of
             WeightedRoundRobin _ _ \<Rightarrow> snapshot = None
           | LeastLoaded _ \<Rightarrow> snapshot = Some (bi_pending_count b) \<and>
               (\<forall>c \<in> set (bs_backends sel). P c \<longrightarrow> load_of sel b \<le> load_of sel c)))"

definition pools_ok :: "BackendSelector \<Rightarrow> bool" where
  "pools_ok sel \<longleftrightarrow> (\<forall>b \<in> set (bs_backends sel). 0 < ps_max_size (bi_status b))"

lemma same_routes_refl [simp]: "same_routes sel sel"
  by (simp add: same_routes_def split: SelectionStrategy.splits)

lemma same_routes_trans: "same_routes a b \<Longrightarrow> same_routes b c \<Longrightarrow> same_routes a c"
  by (auto simp: same_routes_def split: SelectionStrategy.splits)

lemma filter_weight_pos:
  "pools_ok sel \<Longrightarrow> 0 < total_weight_of (filter P (bs_backends sel)) \<longleftrightarrow> (\<exists>b \<in> set (bs_backends sel). P b)"
  by (subst total_weight_pos) (auto simp: pools_ok_def filter_empty_conv)

lemma select_weighted_ok:
  assumes "pools_ok sel" "select_weighted P sel = (r, sel')"
  shows "selected_ok sel P r \<and> same_routes sel sel'"
proof (cases "bs_strategy sel")
  case (WeightedRoundRobin counter w)
  let ?cs = "filter P (bs_backends sel)"
  show ?thesis
  proof (cases "total_weight_of ?cs = 0")
    case True
    then show ?thesis
      using assms WeightedRoundRobin filter_weight_pos [OF assms(1), of P]
      by (auto simp: select_weighted_def selected_ok_def)
  next
    case False
    then obtain b where "b \<in> set ?cs" "backend_at_position (unat counter mod total_weight_of ?cs) ?cs = Some b"
      using backend_at_position_Some [of "unat counter mod total_weight_of ?cs" ?cs] by auto
    then show ?thesis
      using assms(2) WeightedRoundRobin False
      by (auto simp: select_weighted_def selected_ok_def same_routes_def select_with_weight_def)
  qed
next
  case (LeastLoaded breaker)
  let ?cs = "filter P (bs_backends sel)"
  obtain s br where l: "least_loaded_loop sel ?cs None f64_MAX 0 breaker = (s, br)" by fastforce
  have "scan_state_ok sel {} None f64_MAX" by (simp add: scan_state_ok_def)
  moreover have "\<forall>b \<in> set ?cs. 0 < ps_max_size (bi_status b)" using assms(1) by (simp add: pools_ok_def)
  ultimately obtain load' where "scan_state_ok sel (set ?cs) s load'"
    using least_loaded_loop_ok [OF _ _ l] by fastforce
  then show ?thesis
    using assms(2) LeastLoaded l
    by (auto simp: select_weighted_def selected_ok_def same_routes_def scan_state_ok_def
        filter_empty_conv split: option.splits)
qed

lemma select_capacity_weighted_ok:
  assumes "pools_ok sel" "select_capacity_weighted P sel = (r, sel')" "bs_strategy sel = WeightedRoundRobin c w"
  shows "selected_ok sel P (map_option (\<lambda>b. (b, None)) r) \<and> same_routes sel sel'"
proof (cases "total_weight_of (filter P (bs_backends sel)) = 0")
  case True
  then show ?thesis
    using assms filter_weight_pos [OF assms(1), of P]
    by (auto simp: select_capacity_weighted_def selected_ok_def)
next
  case False
  let ?cs = "filter P (bs_backends sel)"
  let ?p = "unat (bs_initial_article_probe_counter sel) mod total_weight_of ?cs"
  obtain b where b: "b \<in> set ?cs" "backend_at_position ?p ?cs = Some b"
    using backend_at_position_Some [of ?p ?cs] False by auto
  then have "r = Some b" using assms(2) False by (simp add: select_capacity_weighted_def Let_def)
  moreover have "same_routes sel sel'"
    using assms(2,3) False by (auto simp: select_capacity_weighted_def same_routes_def Let_def)
  ultimately show ?thesis using assms(3) b(1) by (simp add: selected_ok_def)
qed

lemma select_in_tier_ok:
  assumes "pools_ok sel" "select_in_tier sel av su tier = (r, sel')"
  shows "selected_ok sel (tier_filter sel av su tier) r \<and> same_routes sel sel'"
proof -
  let ?P = "tier_filter sel av su tier"
  obtain r1 s1 where c: "select_capacity_weighted ?P sel = (r1, s1)" by fastforce
  show ?thesis
    using assms select_weighted_ok [OF assms(1)] select_capacity_weighted_ok [OF assms(1) c] c
    by (auto simp: select_in_tier_def Let_def split: SelectionStrategy.splits if_splits)
qed

section \<open>Tiers\<close>

lemma tier_filter_nonempty:
  "(\<exists>b \<in> set (bs_backends sel). tier_filter sel av su t b) \<longleftrightarrow>
     (\<exists>b \<in> set (bs_backends sel). bi_tier b = t \<and> is_available av su b)"
  by (auto simp: tier_filter_def)

text \<open>
  What makes the router stop at a tier: a backend that may still be selected and, for an article
  request, one that merely is not known to miss the article.
\<close>

definition holds_tier :: "usize option \<Rightarrow> usize \<Rightarrow> BackendInfo \<Rightarrow> bool" where
  "holds_tier av su b \<longleftrightarrow> is_available av su b \<or> av \<noteq> None \<and> slot_allowed av b"

definition selection_ok ::
    "BackendSelector \<Rightarrow> usize option \<Rightarrow> usize \<Rightarrow> u8 set \<Rightarrow> SelectedBackend option \<Rightarrow> bool" where
  "selection_ok sel av su tiers r \<longleftrightarrow>
     (case r of
        None \<Rightarrow> \<not> (\<exists>b \<in> set (bs_backends sel). bi_tier b \<in> tiers \<and> is_available av su b \<and>
                   (\<forall>c \<in> set (bs_backends sel). bi_tier c \<in> tiers \<and> bi_tier c < bi_tier b \<longrightarrow>
                      \<not> holds_tier av su c))
      | Some (b, snapshot) \<Rightarrow>
          bi_tier b \<in> tiers \<and> selected_ok sel (tier_filter sel av su (bi_tier b)) r \<and>
          (\<forall>c \<in> set (bs_backends sel). bi_tier c \<in> tiers \<and> bi_tier c < bi_tier b \<longrightarrow>
             \<not> holds_tier av su c))"

lemma same_routes_selected_ok:
  assumes "same_routes sel sel'"
  shows "selected_ok sel' P r = selected_ok sel P r"
proof -
  have "queue_soft_pressure_penalty sel' = queue_soft_pressure_penalty sel"
    using assms by (simp add: fun_eq_iff same_routes_def queue_soft_pressure_penalty_def)
  then have l: "load_of sel' b = load_of sel b" for b
    by (simp add: backend_load_ratio_with_pending_def Let_def)
  show ?thesis
    using assms by (cases "bs_strategy sel"; cases "bs_strategy sel'")
      (auto simp: selected_ok_def same_routes_def l split: option.splits)
qed

lemma same_routes_tier_filter:
  assumes "same_routes sel sel'"
  shows "tier_filter sel' av su t = tier_filter sel av su t"
proof -
  have "over_hard sel' = over_hard sel"
    using assms by (simp add: fun_eq_iff same_routes_def over_hard_def exceeds_hard_queue_depth_def)
  moreover have "bs_backends sel' = bs_backends sel"
    "bs_queue_backpressure_enabled sel' = bs_queue_backpressure_enabled sel"
    using assms by (simp_all add: same_routes_def)
  ultimately show ?thesis unfolding tier_filter_def [abs_def] by (simp only:)
qed

lemma same_routes_selection_ok:
  assumes "same_routes sel sel'"
  shows "selection_ok sel' av su ts r = selection_ok sel av su ts r"
proof -
  have "bs_backends sel' = bs_backends sel" using assms by (simp add: same_routes_def)
  then show ?thesis
    unfolding selection_ok_def same_routes_selected_ok [OF assms] same_routes_tier_filter [OF assms]
    by (simp only:)
qed

lemma same_routes_pools_ok: "same_routes sel sel' \<Longrightarrow> pools_ok sel' = pools_ok sel"
  by (simp add: pools_ok_def same_routes_def)

lemma select_tiers_ok:
  assumes "pools_ok sel" "sorted tiers" "distinct tiers" "select_tiers tiers sel av su = (r, sel')"
  shows "selection_ok sel av su (set tiers) r \<and> same_routes sel sel'"
  using assms
proof (induction tiers arbitrary: sel)
  case Nil
  then show ?case by (simp add: selection_ok_def)
next
  case (Cons t tiers)
  obtain r1 sel1 where s: "select_in_tier sel av su t = (r1, sel1)" by fastforce
  have 1: "selected_ok sel (tier_filter sel av su t) r1" "same_routes sel sel1"
    using select_in_tier_ok [OF Cons.prems(1) s] by auto
  have gt: "t < t'" if "t' \<in> set tiers" for t'
    using that Cons.prems(2,3) by (metis distinct.simps(2) order_le_less sorted_simps(2))
  show ?case
  proof (cases r1)
    case (Some bs)
    obtain b snap where bs: "bs = (b, snap)" by fastforce
    have "r = r1" "sel' = sel1" using Cons.prems(4) s Some by auto
    moreover have "bi_tier b = t"
      using 1(1) Some bs by (auto simp: selected_ok_def tier_filter_def split: if_splits)
    moreover have "\<not> (c \<in> set (t # tiers) \<and> c < t)" for c using gt by (auto dest: less_asym)
    ultimately show ?thesis using 1 Some bs by (auto simp: selection_ok_def)
  next
    case None
    then have none: "\<not> (\<exists>b \<in> set (bs_backends sel). bi_tier b = t \<and> is_available av su b)"
      using 1(1) by (simp add: selected_ok_def tier_filter_nonempty)
    show ?thesis
    proof (cases "av \<noteq> None \<and> (\<exists>b \<in> set (bs_backends sel1). bi_tier b = t \<and> slot_allowed av b)")
      case True
      then obtain c where c: "c \<in> set (bs_backends sel)" "bi_tier c = t" "holds_tier av su c"
        using 1(2) by (auto simp: same_routes_def holds_tier_def)
      have "r = None" "sel' = sel1" using Cons.prems(4) s None True by auto
      moreover have "selection_ok sel av su (set (t # tiers)) None"
        unfolding selection_ok_def using none c gt by auto
      ultimately show ?thesis using 1(2) by simp
    next
      case False
      then have rec: "select_tiers tiers sel1 av su = (r, sel')"
        using Cons.prems(4) unfolding select_tiers.simps s None prod.case option.case if_not_P [OF False]
        by simp
      have "selection_ok sel1 av su (set tiers) r \<and> same_routes sel1 sel'"
        by (rule Cons.IH) (use Cons.prems rec 1(2) in \<open>simp_all add: same_routes_pools_ok\<close>)
      then have ih: "selection_ok sel av su (set tiers) r" "same_routes sel sel'"
        using same_routes_selection_ok [OF 1(2)] same_routes_trans [OF 1(2)] by auto
      have "\<not> holds_tier av su c" if "c \<in> set (bs_backends sel)" "bi_tier c = t" for c
        using that none False 1(2) by (auto simp: holds_tier_def same_routes_def)
      with ih none show ?thesis by (auto simp: selection_ok_def split: option.splits)
    qed
  qed
qed

section \<open>Invariant of the selector\<close>

definition selector_wf :: "BackendSelector \<Rightarrow> bool" where
  "selector_wf sel \<longleftrightarrow>
     map bi_id (bs_backends sel) = map BackendId [0..<length (bs_backends sel)] \<and>
     set (bs_sorted_tiers sel) = bi_tier ` set (bs_backends sel) \<and>
     sorted (bs_sorted_tiers sel) \<and> distinct (bs_sorted_tiers sel) \<and>
     bs_availability_mask sel = mask_from_slots (map bi_availability_slot (bs_backends sel)) \<and>
     (case bs_strategy sel of WeightedRoundRobin _ w \<Rightarrow> w = total_weight_of (bs_backends sel)
      | LeastLoaded _ \<Rightarrow> True) \<and>
     (\<forall>b \<in> set (bs_backends sel). 0 < ps_max_size (bi_status b) \<and>
        unat (bi_stateful_count b) \<le> ps_max_size (bi_status b) - 1)"

datatype router_op =
    AddBackend PoolStatus u8 AvailabilitySlot
  | Route "usize option" usize
  | CompleteCommand BackendId
  | MarkPending BackendId
  | AcquireStateful BackendId
  | ReleaseStateful BackendId
  | PoolChange BackendId nat nat nat

text \<open>The last step is the environment: a connection pool changes the counts that it reports.\<close>

definition pool_change :: "nat \<Rightarrow> nat \<Rightarrow> nat \<Rightarrow> BackendInfo \<Rightarrow> BackendInfo" where
  "pool_change n available waiting b =
     b\<lparr>bi_status := (bi_status b)\<lparr>ps_size := n, ps_available := available, ps_waiting := waiting\<rparr>\<rparr>"

fun router_step :: "BackendSelector \<Rightarrow> router_op \<Rightarrow> BackendSelector" where
  "router_step sel (AddBackend status tier slot) = fst (add_backend_with_slot status tier slot sel)"
| "router_step sel (Route av su) = snd (route_selected_backend [] av su sel)"
| "router_step sel (CompleteCommand i) = complete_command i sel"
| "router_step sel (MarkPending i) = mark_backend_pending i sel"
| "router_step sel (AcquireStateful i) = snd (try_acquire_stateful i sel)"
| "router_step sel (ReleaseStateful i) = release_stateful i sel"
| "router_step sel (PoolChange i n available waiting) =
     update_backend i (pool_change n available waiting) sel"

definition keeps_identity :: "(BackendInfo \<Rightarrow> BackendInfo) \<Rightarrow> bool" where
  "keeps_identity f \<longleftrightarrow> (\<forall>b. bi_id (f b) = bi_id b \<and> bi_tier (f b) = bi_tier b \<and>
     bi_availability_slot (f b) = bi_availability_slot b \<and>
     ps_max_size (bi_status (f b)) = ps_max_size (bi_status b) \<and>
     (unat (bi_stateful_count b) \<le> ps_max_size (bi_status b) - 1 \<longrightarrow>
      unat (bi_stateful_count (f b)) \<le> ps_max_size (bi_status b) - 1))"

named_theorems router_inv

lemma selector_wf_update [router_inv]:
  assumes "selector_wf sel" "keeps_identity f"
  shows "selector_wf (update_backend i f sel)"
proof -
  let ?g = "\<lambda>b. if bi_id b = i then f b else b"
  have g: "bi_id (?g b) = bi_id b" "bi_tier (?g b) = bi_tier b"
    "bi_availability_slot (?g b) = bi_availability_slot b"
    "ps_max_size (bi_status (?g b)) = ps_max_size (bi_status b)" for b
    using assms(2) by (auto simp: keeps_identity_def)
  let ?bs = "bs_backends sel"
  have m: "map bi_id (map ?g ?bs) = map bi_id ?bs" "map bi_tier (map ?g ?bs) = map bi_tier ?bs"
    "map bi_availability_slot (map ?g ?bs) = map bi_availability_slot ?bs"
    by (simp_all add: o_def g)
  have w: "total_weight_of (map ?g ?bs) = total_weight_of ?bs"
    by (simp add: o_def g total_weight_of_def)
  have t: "bi_tier ` set (map ?g ?bs) = bi_tier ` set ?bs"
    using arg_cong [OF m(2), of set] by (simp only: set_map)
  have "\<forall>b \<in> set (map ?g ?bs). 0 < ps_max_size (bi_status b) \<and>
      unat (bi_stateful_count b) \<le> ps_max_size (bi_status b) - 1"
    using assms by (auto simp: selector_wf_def keeps_identity_def)
  moreover have "bs_backends (update_backend i f sel) = map ?g ?bs"
    "bs_sorted_tiers (update_backend i f sel) = bs_sorted_tiers sel"
    "bs_availability_mask (update_backend i f sel) = bs_availability_mask sel"
    "bs_strategy (update_backend i f sel) = bs_strategy sel"
    by (simp_all add: update_backend_def)
  ultimately show ?thesis
    using assms(1) unfolding selector_wf_def by (simp only: m w t length_map simp_thms)
qed

lemma selector_wf_same_routes [router_inv]: "selector_wf sel \<Longrightarrow> same_routes sel sel' \<Longrightarrow> selector_wf sel'"
  by (cases "bs_strategy sel"; cases "bs_strategy sel'") (simp_all add: selector_wf_def same_routes_def)

lemma keeps_identity_counters [router_inv]:
  "keeps_identity pending_increment" "keeps_identity pending_decrement" "keeps_identity stateful_release"
  "keeps_identity (pool_change s a w)"
proof -
  show "keeps_identity stateful_release"
    unfolding keeps_identity_def
  proof (intro allI conjI impI)
    fix b :: BackendInfo assume b: "unat (bi_stateful_count b) \<le> ps_max_size (bi_status b) - 1"
    show "unat (bi_stateful_count (stateful_release b)) \<le> ps_max_size (bi_status b) - 1"
    proof (cases "bi_stateful_count b = 0")
      case False
      then have "unat (bi_stateful_count b - 1) = unat (bi_stateful_count b) - 1" by (rule unat_minus_one)
      with b False show ?thesis by (simp add: stateful_release_def)
    qed (use b in \<open>simp add: stateful_release_def\<close>)
  qed (simp_all add: stateful_release_def)
qed (simp_all add: keeps_identity_def pending_increment_def pending_decrement_def pool_change_def)

lemma selector_wf_init [router_inv]: "selector_wf (with_strategy st)"
  by (cases st) (simp_all add: selector_wf_def with_strategy_def mask_from_slots_def total_weight_of_def)

lemma selector_wf_add [router_inv]:
  assumes "selector_wf sel" "0 < ps_max_size status"
  shows "selector_wf (fst (add_backend_with_slot status tier slot sel))"
proof -
  have "mask_from_slots (ss @ [s]) = mask_insert (mask_from_slots ss) s" for ss s
    by (simp add: mask_from_slots_def)
  with assms show ?thesis
    by (auto simp: selector_wf_def add_backend_with_slot_def Let_def total_weight_of_def
        split: SelectionStrategy.splits)
qed

lemma find_backend_nth:
  assumes "selector_wf sel" "find_backend sel i = Some b"
  shows "b \<in> set (bs_backends sel) \<and> bi_id b = i"
  using assms(2) by (auto simp: find_backend_def find_Some_iff)

lemma backends_by_id:
  assumes "selector_wf sel" "b \<in> set (bs_backends sel)" "c \<in> set (bs_backends sel)" "bi_id b = bi_id c"
  shows "b = c"
proof -
  have "distinct (map bi_id (bs_backends sel))"
    using assms(1) by (simp add: selector_wf_def distinct_map inj_on_def)
  then show ?thesis using assms(2-4) by (auto simp: distinct_map inj_on_def)
qed

lemma selector_wf_acquire [router_inv]:
  assumes "selector_wf sel"
  shows "selector_wf (snd (try_acquire_stateful i sel))"
proof (cases "find_backend sel i")
  case (Some b)
  have b: "b \<in> set (bs_backends sel)" "bi_id b = i" using find_backend_nth [OF assms Some] by auto
  let ?c = "b\<lparr>bi_stateful_count := bi_stateful_count b + 1\<rparr>"
  show ?thesis
  proof (cases "ps_max_size (bi_status b) - 1 \<le> unat (bi_stateful_count b)")
    case True
    then show ?thesis using Some assms by (simp add: try_acquire_stateful_def stateful_try_acquire_def)
  next
    case False
    define f where "f = (\<lambda>x. if x = b then ?c else x)"
    have "unat (bi_stateful_count b + 1) \<le> ps_max_size (bi_status b) - 1"
      using False unatSuc [of "bi_stateful_count b"] by (cases "bi_stateful_count b + 1 = 0") (auto simp: add.commute)
    then have "keeps_identity f" using b by (auto simp: keeps_identity_def f_def)
    moreover have "update_backend i (\<lambda>_. ?c) sel = update_backend i f sel"
    proof -
      have "map (\<lambda>x. if bi_id x = i then ?c else x) (bs_backends sel) =
          map (\<lambda>x. if bi_id x = i then f x else x) (bs_backends sel)"
        by (rule map_cong [OF refl]) (use b backends_by_id [OF assms b(1)] in \<open>auto simp: f_def\<close>)
      then show ?thesis by (simp only: update_backend_def)
    qed
    ultimately show ?thesis
      using Some False selector_wf_update [OF assms, of f i]
      by (simp add: try_acquire_stateful_def stateful_try_acquire_def)
  qed
qed (use assms in \<open>simp add: try_acquire_stateful_def\<close>)

lemma selector_wf_pools: "selector_wf sel \<Longrightarrow> pools_ok sel"
  by (simp add: selector_wf_def pools_ok_def)

lemma select_backend_ok:
  assumes "selector_wf sel" "select_backend sel av su = (r, sel')"
  shows "selection_ok sel av su (set (bs_sorted_tiers sel)) r \<and> same_routes sel sel'"
proof (cases "bs_backends sel = []")
  case True
  then show ?thesis using assms(2) by (auto simp: select_backend_def selection_ok_def)
next
  case False
  then show ?thesis
    using assms select_tiers_ok [OF selector_wf_pools [OF assms(1)], of "bs_sorted_tiers sel" av su r sel']
    by (auto simp: select_backend_def selector_wf_def)
qed

lemma selector_wf_route [router_inv]:
  assumes "selector_wf sel"
  shows "selector_wf (snd (route_selected_backend [] av su sel))"
proof -
  obtain r sel' where s: "select_backend sel av su = (r, sel')" by fastforce
  have "selector_wf sel'" using select_backend_ok [OF assms s] assms selector_wf_same_routes by blast
  with s show ?thesis
    by (auto simp: selector_wf_update keeps_identity_counters split: option.splits)
qed

fun router_op_ok :: "router_op \<Rightarrow> bool" where
  "router_op_ok (AddBackend status _ _) \<longleftrightarrow> 0 < ps_max_size status"
| "router_op_ok _ \<longleftrightarrow> True"

lemma selector_wf_step [router_inv]: "selector_wf sel \<Longrightarrow> router_op_ok op \<Longrightarrow> selector_wf (router_step sel op)"
  by (cases op) (simp_all add: complete_command_def mark_backend_pending_def release_stateful_def router_inv
      del: route_selected_backend.simps)

text \<open>
  C16. Invariant of the backend selector over every sequence of operations, starting from an empty
  selector of either strategy: backend identifiers are the positions, the cached tier list is
  sorted, without duplicates and has exactly the tiers in use, the availability mask has exactly
  the slots in use, the round-robin weight is the sum of the pool sizes, and at least one
  connection of every pool is never reserved for stateful sessions.
\<close>

theorem selector_invariant:
  assumes "\<forall>op \<in> set ops. router_op_ok op"
  shows "selector_wf (foldl router_step (with_strategy st) ops)"
  using assms by (induction ops rule: rev_induct) (simp_all add: router_inv)

theorem selector_invariant_witness:
  "selector_wf (foldl router_step (with_strategy ConfigLeastLoaded)
     [AddBackend \<lparr>ps_size = 0, ps_available = 0, ps_waiting = 0, ps_max_size = 2\<rparr> 1 (AvailabilitySlot 0),
      AcquireStateful (BackendId 0), Route (Some 0) 0])"
  by (rule selector_invariant) simp

text \<open>
  Eligibility of a backend, bit by bit: the request does not suppress it and, for an article
  request, its provider slot is not marked as missing the article.
\<close>

definition eligible :: "usize option \<Rightarrow> usize \<Rightarrow> BackendInfo \<Rightarrow> bool" where
  "eligible av su b \<longleftrightarrow>
     \<not> bit su (as_index (bi_id b)) \<and> (\<forall>m. av = Some m \<longrightarrow> \<not> bit m (slot_index (bi_availability_slot b)))"

lemma slot_allowed_iff:
  "slot_allowed av b \<longleftrightarrow> (\<forall>m. av = Some m \<longrightarrow> \<not> bit m (slot_index (bi_availability_slot b)))"
  by (simp add: slot_allowed_def should_try_slot_def is_missing_slot_def slot_bit_def
      and_exp_eq_0_iff_not_bit split: option.split)

lemma is_available_eligible: "is_available av su b = eligible av su b"
  by (simp add: is_available_def eligible_def slot_allowed_iff is_suppressed_def availability_bit_def
      and_exp_eq_0_iff_not_bit)


definition two_tiers :: BackendSelector where
  "two_tiers = foldl router_step (with_strategy ConfigWeightedRoundRobin)
     [AddBackend \<lparr>ps_size = 0, ps_available = 0, ps_waiting = 0, ps_max_size = 2\<rparr> 1 (AvailabilitySlot 0),
      AddBackend \<lparr>ps_size = 0, ps_available = 0, ps_waiting = 0, ps_max_size = 3\<rparr> 0 (AvailabilitySlot 1)]"

lemma two_tiers_wf: "selector_wf two_tiers"
  by (simp add: two_tiers_def router_inv del: router_step.simps)

lemma two_tiers_select:
  "map_option (\<lambda>(b, s). (bi_id b, s)) (fst (select_backend two_tiers (Some 0) 0)) = Some (BackendId 1, None)"
  by (simp add: two_tiers_def with_strategy_def add_backend_with_slot_def select_backend_def
      select_in_tier_def availability_missing_in_tier_def is_missing_slot_def
      select_capacity_weighted_def tier_filter_def is_available_def is_suppressed_def slot_allowed_def
      should_try_slot_def over_hard_def exceeds_hard_queue_depth_def queue_depth_for_score_def
      active_for_score_def sat_add_def queue_depth_limit_def sat_mul_def checked_out_def
      total_weight_of_def backend_at_position_def Let_def)


section \<open>Fairness of the weighted round robin\<close>

fun wrr_sequence :: "nat \<Rightarrow> (BackendInfo \<Rightarrow> bool) \<Rightarrow> BackendSelector \<Rightarrow> BackendInfo list" where
  "wrr_sequence 0 P sel = []"
| "wrr_sequence (Suc n) P sel =
     (case select_weighted P sel of
        (None, sel') \<Rightarrow> wrr_sequence n P sel'
      | (Some (b, _), sel') \<Rightarrow> b # wrr_sequence n P sel')"

lemma backend_at_position_Cons:
  "p < total_weight_of (b # bs) \<Longrightarrow>
     backend_at_position p (b # bs) =
       (if p < ps_max_size (bi_status b) then Some b
        else backend_at_position (p - ps_max_size (bi_status b)) bs)"
proof -
  have shift: "find (\<lambda>(c, _). p < c) (scan_cumulative (k + c0) xs) =
      map_option (\<lambda>(c, b). (c + k, b)) (find (\<lambda>(c, _). p - k < c) (scan_cumulative c0 xs))"
    if "k \<le> p" for k c0 xs
    using that by (induction xs arbitrary: c0) (auto simp: Let_def add.assoc)
  assume p: "p < total_weight_of (b # bs)"
  show ?thesis
  proof (cases "p < ps_max_size (bi_status b)")
    case False
    then have "p - ps_max_size (bi_status b) < 0 + total_weight_of bs" using p by (auto simp: total_weight_of_def)
    from scan_cumulative_find [OF this] obtain w c where "find (\<lambda>(c, _). p - ps_max_size (bi_status b) < c) (scan_cumulative 0 bs) = Some (w, c)"
      by blast
    with False show ?thesis
      using shift [of "ps_max_size (bi_status b)" 0 bs] by (simp add: backend_at_position_def Let_def)
  qed (simp add: backend_at_position_def Let_def)
qed

lemma positions_count:
  assumes "distinct bs"
  shows "length (filter (\<lambda>p. backend_at_position p bs = Some b) [0..<total_weight_of bs]) =
    (if b \<in> set bs then ps_max_size (bi_status b) else 0)"
  using assms
proof (induction bs)
  case Nil
  then show ?case by (simp add: total_weight_of_def)
next
  case (Cons c bs)
  let ?m = "ps_max_size (bi_status c)"
  have w: "total_weight_of (c # bs) = ?m + total_weight_of bs" by (simp add: total_weight_of_def)
  have split: "[0..<total_weight_of (c # bs)] = [0..<?m] @ map (\<lambda>p. p + ?m) [0..<total_weight_of bs]"
  proof -
    have "map (\<lambda>p. p + ?m) [0..<total_weight_of bs] = [?m..<?m + total_weight_of bs]"
      using map_add_upt [of ?m "total_weight_of bs"] by (simp add: add.commute)
    then show ?thesis unfolding w using upt_add_eq_append [of 0 ?m "total_weight_of bs"] by simp
  qed
  have 1: "filter (\<lambda>p. backend_at_position p (c # bs) = Some b) [0..<?m] = (if c = b then [0..<?m] else [])"
  proof -
    have "filter (\<lambda>p. backend_at_position p (c # bs) = Some b) [0..<?m] = filter (\<lambda>p. c = b) [0..<?m]"
      by (rule filter_cong [OF refl]) (simp add: backend_at_position_Cons w)
    then show ?thesis by simp
  qed
  have "filter (\<lambda>p. backend_at_position (p + ?m) (c # bs) = Some b) [0..<total_weight_of bs] =
      filter (\<lambda>p. backend_at_position p bs = Some b) [0..<total_weight_of bs]"
    by (rule filter_cong [OF refl]) (simp add: backend_at_position_Cons w)
  then have 2: "length (filter (\<lambda>p. backend_at_position p (c # bs) = Some b)
      (map (\<lambda>p. p + ?m) [0..<total_weight_of bs])) =
      length (filter (\<lambda>p. backend_at_position p bs = Some b) [0..<total_weight_of bs])"
    by (simp add: filter_map o_def)
  show ?case using Cons unfolding split filter_append length_append 1 2 by auto
qed

lemma wrr_sequence_eq:
  assumes "bs_strategy sel = WeightedRoundRobin c w" "unat c + n \<le> 2 ^ 64"
    and "cs = filter P (bs_backends sel)" "0 < total_weight_of cs"
  shows "wrr_sequence n P sel =
    map (\<lambda>k. the (backend_at_position ((unat c + k) mod total_weight_of cs) cs)) [0..<n]"
  using assms
proof (induction n arbitrary: sel c)
  case (Suc n)
  let ?W = "total_weight_of cs"
  obtain b where b: "backend_at_position (unat c mod ?W) cs = Some b"
    using backend_at_position_Some [of "unat c mod ?W" cs] Suc.prems(4) by auto
  let ?sel = "sel\<lparr>bs_strategy := WeightedRoundRobin (c + 1) w\<rparr>"
  have s: "select_weighted P sel = (Some (b, None), ?sel)"
    unfolding select_weighted_def Suc.prems(1) Let_def Suc.prems(3) [symmetric] select_with_weight_def
    using Suc.prems(4) b by simp
  have "wrr_sequence n P ?sel = map (\<lambda>k. the (backend_at_position ((unat c + Suc k) mod ?W) cs)) [0..<n]"
  proof (cases "c + 1 = 0")
    case True
    then have "c = - 1" by (simp add: add_eq_0_iff2)
    then have "unat c = 2 ^ 64 - 1" by (simp add: unsigned_minus_1_eq_mask mask_eq_exp_minus_1)
    then have "n = 0" using Suc.prems(2) by linarith
    then show ?thesis by simp
  next
    case False
    then have "unat (c + 1) = unat c + 1" using unatSuc [of c] by (simp add: add.commute)
    then have "wrr_sequence n P ?sel =
        map (\<lambda>k. the (backend_at_position ((unat c + 1 + k) mod ?W) cs)) [0..<n]"
      using Suc.IH [of ?sel "c + 1"] Suc.prems(2-4) by simp
    then show ?thesis by simp
  qed
  moreover have "[0..<Suc n] = 0 # map Suc [0..<n]" by (simp add: map_Suc_upt upt_conv_Cons del: upt_Suc)
  ultimately show ?case using s b by (simp add: o_def del: upt_Suc)
qed simp

lemma filter_shift_mod:
  "length (filter Q (map (\<lambda>k. (u + k) mod n) [0..<n])) = length (filter Q [0..<n])"
proof -
  let ?m = "u mod n"
  have "map (\<lambda>k. (u + k) mod n) [0..<n] = rotate u [0..<n]"
    by (rule nth_equalityI) (auto simp: nth_rotate)
  then have "length (filter Q (map (\<lambda>k. (u + k) mod n) [0..<n])) =
      length (filter Q (take ?m [0..<n])) + length (filter Q (drop ?m [0..<n]))"
    by (simp only: rotate_drop_take length_upt filter_append length_append) simp
  also have "\<dots> = length (filter Q (take ?m [0..<n] @ drop ?m [0..<n]))"
    by (simp only: filter_append length_append)
  finally show ?thesis by (simp only: append_take_drop_id)
qed

text \<open>
  C21. The weighted round robin is exactly fair: while the eligible backends do not change and the
  64-bit counter does not wrap around, every window of as many selections as there are connections
  selects each eligible backend exactly as often as it has connections.
\<close>

theorem wrr_fair:
  assumes "bs_strategy sel = WeightedRoundRobin c w" "distinct (filter P (bs_backends sel))"
    and "unat c + total_weight_of (filter P (bs_backends sel)) \<le> 2 ^ 64"
    and "b \<in> set (bs_backends sel)" "P b" "0 < ps_max_size (bi_status b)"
  shows "count_list (wrr_sequence (total_weight_of (filter P (bs_backends sel))) P sel) b =
    ps_max_size (bi_status b)"
proof -
  let ?cs = "filter P (bs_backends sel)" let ?W = "total_weight_of ?cs"
  have "ps_max_size (bi_status b) \<le> ?W"
    unfolding total_weight_of_def using assms(4,5) by (intro member_le_sum_list) auto
  then have W: "0 < ?W" using assms(6) by linarith
  have at: "b = the (backend_at_position (p mod ?W) ?cs) \<longleftrightarrow> backend_at_position (p mod ?W) ?cs = Some b" for p
    using backend_at_position_Some [OF mod_less_divisor [OF W, of p]] by auto
  have "wrr_sequence ?W P sel =
      map (\<lambda>k. the (backend_at_position ((unat c + k) mod ?W) ?cs)) [0..<?W]"
    by (rule wrr_sequence_eq [OF assms(1,3) refl W])
  then have "count_list (wrr_sequence ?W P sel) b =
      length (filter (\<lambda>p. backend_at_position p ?cs = Some b) (map (\<lambda>k. (unat c + k) mod ?W) [0..<?W]))"
    by (simp only: count_list_eq_length_filter filter_map o_def length_map at)
  also have "\<dots> = length (filter (\<lambda>p. backend_at_position p ?cs = Some b) [0..<?W])"
    by (rule filter_shift_mod)
  also have "\<dots> = ps_max_size (bi_status b)"
    using positions_count [OF assms(2)] assms(4,5) by simp
  finally show ?thesis .
qed

theorem wrr_fair_witness:
  "\<exists>b \<in> set (bs_backends two_tiers). bi_id b = BackendId 1 \<and>
     count_list (wrr_sequence (total_weight_of (filter (\<lambda>_. True) (bs_backends two_tiers))) (\<lambda>_. True) two_tiers) b = 3"
proof -
  let ?P = "\<lambda>_ :: BackendInfo. True"
  have bs: "bs_strategy two_tiers = WeightedRoundRobin 0 5" "distinct (filter ?P (bs_backends two_tiers))"
    "total_weight_of (filter ?P (bs_backends two_tiers)) = 5"
    by (simp_all add: two_tiers_def with_strategy_def add_backend_with_slot_def total_weight_of_def Let_def)
  have "\<exists>b \<in> set (bs_backends two_tiers). bi_id b = BackendId 1 \<and> ps_max_size (bi_status b) = 3"
    by (simp add: two_tiers_def with_strategy_def add_backend_with_slot_def Let_def)
  then obtain b where b: "b \<in> set (bs_backends two_tiers)" "bi_id b = BackendId 1" "ps_max_size (bi_status b) = 3"
    by blast
  have "unat (0 :: usize) + total_weight_of (filter ?P (bs_backends two_tiers)) \<le> 2 ^ 64" unfolding bs(3) by simp
  from wrr_fair [OF bs(1,2) this b(1)] b show ?thesis by auto
qed

section \<open>Pending commands\<close>

definition pending_of :: "BackendSelector \<Rightarrow> BackendId \<Rightarrow> usize option" where
  "pending_of sel i = map_option bi_pending_count (find_backend sel i)"

lemma find_map_update:
  "(\<And>b. bi_id (f b) = bi_id b) \<Longrightarrow>
     find (\<lambda>b. bi_id b = j) (map (\<lambda>b. if bi_id b = i then f b else b) bs) =
     map_option (\<lambda>b. if j = i then f b else b) (find (\<lambda>b. bi_id b = j) bs)"
  by (induction bs) auto

lemma pending_of_update:
  "(\<And>b. bi_id (f b) = bi_id b) \<Longrightarrow> (\<And>b. bi_pending_count (f b) = g (bi_pending_count b)) \<Longrightarrow>
     pending_of (update_backend i f sel) j =
       (if j = i then map_option g (pending_of sel j) else pending_of sel j)"
  by (simp add: pending_of_def find_backend_def update_backend_def find_map_update option.map_comp o_def)

lemma pending_of_same_routes: "same_routes sel sel' \<Longrightarrow> pending_of sel' = pending_of sel"
  by (simp add: fun_eq_iff pending_of_def find_backend_def same_routes_def)


lemma two_tiers_route: "fst (route_selected_backend [] (Some 0) 0 two_tiers) = Inr (BackendId 1)"
proof -
  obtain r sel' where s: "select_backend two_tiers (Some 0) 0 = (r, sel')" by fastforce
  then obtain b where b: "r = Some (b, None)" "bi_id b = BackendId 1" using two_tiers_select by auto
  then have "slot_allowed (Some 0) b"
    by (simp add: slot_allowed_def should_try_slot_def is_missing_slot_def)
  then show ?thesis using s b by simp
qed


end
