(* ===== verification/Article.thy ===== *)
theory Article
  imports Layout Framer
begin

text \<open>
  Cached articles: the tier-aware time to live (\<open>src/src/cache/ttl.rs\<close>), the semantic payload of a
  cache entry, its construction from a captured response, the rendering of cached responses, and
  the entry operations of \<open>src/src/cache/article.rs\<close>. The current time is an argument \<open>now\<close>, read
  once per operation.
\<close>

section \<open>Time to live\<close>

definition MAX_TTL_TIER :: u8 where "MAX_TTL_TIER = 63"

definition effective_ttl :: "u64 \<Rightarrow> u8 \<Rightarrow> u64" where
  "effective_ttl base_ttl tier =
     (let capped_tier = (if MAX_TTL_TIER < tier then MAX_TTL_TIER else tier)
      in saturating_mul base_ttl (push_bit (unat capped_tier) 1))"

definition is_expired :: "u64 \<Rightarrow> u64 \<Rightarrow> u64 \<Rightarrow> u8 \<Rightarrow> bool" where
  "is_expired now inserted_at base_ttl tier \<longleftrightarrow>
     effective_ttl base_ttl tier \<le> saturating_sub now inserted_at"

section \<open>Payloads\<close>

datatype CachedPayload =
    MissingPayload
  | AvailabilityOnly
  | ArticlePayload "u64 option" bytes bytes
  | HeadPayload "u64 option" bytes
  | BodyPayload "u64 option" bytes
  | StatPayload "u64 option"

text \<open>Request kinds a payload can answer, as the bits 1 (article), 2 (head), 4 (body), 8 (stat).\<close>

fun answer_bits :: "CachedPayload \<Rightarrow> u8" where
  "answer_bits (ArticlePayload _ _ _) = 1 OR 2 OR 4 OR 8"
| "answer_bits (HeadPayload _ _) = 2 OR 8"
| "answer_bits (BodyPayload _ _) = 4 OR 8"
| "answer_bits (StatPayload _) = 8"
| "answer_bits MissingPayload = 0"
| "answer_bits AvailabilityOnly = 0"

definition strictly_more_useful_than :: "CachedPayload \<Rightarrow> CachedPayload \<Rightarrow> bool" where
  "strictly_more_useful_than new existing \<longleftrightarrow>
     answer_bits new AND answer_bits existing = answer_bits existing \<and>
     answer_bits new \<noteq> answer_bits existing"

fun payload_len :: "CachedPayload \<Rightarrow> nat" where
  "payload_len (ArticlePayload _ headers body) = length headers + length body"
| "payload_len (HeadPayload _ headers) = length headers"
| "payload_len (BodyPayload _ body) = length body"
| "payload_len (StatPayload _) = 0"
| "payload_len MissingPayload = 0"
| "payload_len AvailabilityOnly = 0"

fun article_number :: "CachedPayload \<Rightarrow> u64 option" where
  "article_number (ArticlePayload n _ _) = n"
| "article_number (HeadPayload n _) = n"
| "article_number (BodyPayload n _) = n"
| "article_number (StatPayload n) = n"
| "article_number MissingPayload = None"
| "article_number AvailabilityOnly = None"

fun request_payload_kind :: "CachedPayload \<Rightarrow> RequestCachePayloadKind" where
  "request_payload_kind MissingPayload = PayloadMissing"
| "request_payload_kind AvailabilityOnly = PayloadAvailabilityOnly"
| "request_payload_kind (ArticlePayload _ _ _) = PayloadArticle"
| "request_payload_kind (HeadPayload _ _) = PayloadHead"
| "request_payload_kind (BodyPayload _ _) = PayloadBody"
| "request_payload_kind (StatPayload _) = PayloadStat"

section \<open>Status lines of cached responses\<close>

text \<open>
  \<open>StackStatusLine\<close> is a 1024-byte buffer with a fill level; the model is the filled part.
  \<open>None\<close> is a line that does not fit.
\<close>

definition push_slice :: "bytes \<Rightarrow> bytes \<Rightarrow> bytes option" where
  "push_slice line part =
     (if length line + length part \<le> 1024 then Some (line @ part) else None)"

text \<open>
  The digit loop of \<open>push_u64\<close> fills a 20-byte array from its end; the model is the filled part.
\<close>

function u64_digits :: "u64 \<Rightarrow> bytes \<Rightarrow> bytes" where
  "u64_digits n digits =
     (let digits' = char_of (48 + unat (n mod 10)) # digits; n' = n div 10
      in if n' = 0 then digits' else u64_digits n' digits')"
  by pat_completeness auto
termination
proof (relation "measure (\<lambda>(n, digits). unat n)", goal_cases)
  case (2 n digits d n')
  then have "unat n \<noteq> 0" by (auto simp: unat_eq_0)
  with 2 show ?case by (simp add: unat_div)
qed simp

declare u64_digits.simps [simp del]

definition push_u64 :: "bytes \<Rightarrow> u64 \<Rightarrow> bytes option" where
  "push_u64 line value = push_slice line (u64_digits value [])"

definition status_line_new :: "u16 \<Rightarrow> u64 \<Rightarrow> bytes \<Rightarrow> bytes option" where
  "status_line_new code number message_id =
     Option.bind (push_u64 [] (ucast code)) (\<lambda>line.
     Option.bind (push_slice line [SP]) (\<lambda>line.
     Option.bind (push_u64 line number) (\<lambda>line.
     Option.bind (push_slice line [SP]) (\<lambda>line.
     Option.bind (push_slice line message_id) (\<lambda>line.
       push_slice line CRLF)))))"

section \<open>Rendering\<close>

datatype CachedResponseWirePayload =
    WireNone | WireArticle bytes bytes | WireHead bytes | WireBody bytes

record CachedResponseWire =
  cw_status :: StatusCode
  cw_status_line :: bytes
  cw_payload :: CachedResponseWirePayload

definition article_separator :: "bytes \<Rightarrow> bytes \<Rightarrow> bytes" where
  "article_separator headers body = (if headers = [] \<and> body = [] then [] else CRLF)"

definition wire_payload_len :: "CachedResponseWire \<Rightarrow> nat" where
  "wire_payload_len w =
     (case cw_payload w of
        WireNone \<Rightarrow> 0
      | WireArticle headers body \<Rightarrow>
          length headers + length (article_separator headers body) + length body + length DOT_TERMINATOR
      | WireHead headers \<Rightarrow> length headers + length DOT_TERMINATOR
      | WireBody body \<Rightarrow> length body + length DOT_TERMINATOR)"

definition wire_len :: "CachedResponseWire \<Rightarrow> nat" where
  "wire_len w = length (cw_status_line w) + wire_payload_len w"

definition cached_wire_slices :: "CachedResponseWire \<Rightarrow> bytes list" where
  "cached_wire_slices w =
     (case cw_payload w of
        WireNone \<Rightarrow> [cw_status_line w]
      | WireArticle headers body \<Rightarrow>
          [cw_status_line w, headers, article_separator headers body, body, DOT_TERMINATOR]
      | WireHead headers \<Rightarrow> [cw_status_line w, headers, DOT_TERMINATOR]
      | WireBody body \<Rightarrow> [cw_status_line w, body, DOT_TERMINATOR])"

definition cached_write_to ::
    "'w writer_api \<Rightarrow> CachedResponseWire \<Rightarrow> 'w \<Rightarrow> 'w \<times> (IoError + unit)" where
  "cached_write_to W w s =
     (case cw_payload w of
        WireNone \<Rightarrow> write_all W s (cw_status_line w)
      | _ \<Rightarrow> write_all_vectored W s (cached_wire_slices w))"

definition cached_response_for_payload ::
    "CachedPayload \<Rightarrow> RequestKind \<Rightarrow> bytes \<Rightarrow> CachedResponseWire option" where
  "cached_response_for_payload payload request_kind message_id =
     (let number = (case article_number payload of None \<Rightarrow> 0 | Some n \<Rightarrow> n);
          wire = (\<lambda>code p. map_option
                    (\<lambda>line. \<lparr>cw_status = StatusCode code, cw_status_line = line, cw_payload = p\<rparr>)
                    (status_line_new code number message_id))
      in case request_kind of
           Stat \<Rightarrow>
             (case payload of
                ArticlePayload _ _ _ \<Rightarrow> wire 223 WireNone | HeadPayload _ _ \<Rightarrow> wire 223 WireNone
              | BodyPayload _ _ \<Rightarrow> wire 223 WireNone | StatPayload _ \<Rightarrow> wire 223 WireNone | _ \<Rightarrow> None)
         | Article \<Rightarrow>
             (case payload of
                ArticlePayload _ headers body \<Rightarrow> wire 220 (WireArticle headers body) | _ \<Rightarrow> None)
         | Head \<Rightarrow>
             (case payload of
                ArticlePayload _ headers _ \<Rightarrow> wire 221 (WireHead headers)
              | HeadPayload _ headers \<Rightarrow> wire 221 (WireHead headers) | _ \<Rightarrow> None)
         | Body \<Rightarrow>
             (case payload of
                ArticlePayload _ _ body \<Rightarrow> wire 222 (WireBody body)
              | BodyPayload _ body \<Rightarrow> wire 222 (WireBody body) | _ \<Rightarrow> None)
         | _ \<Rightarrow> None)"


section \<open>Entries from captured responses\<close>

text \<open>\<open>str::parse::<u64>\<close>: an optional plus sign, then at least one digit, no overflow.\<close>

fun digits_value :: "nat \<Rightarrow> bytes \<Rightarrow> nat option" where
  "digits_value acc [] = Some acc"
| "digits_value acc (c # cs) =
     (if is_ascii_digit c
      then (let v = 10 * acc + (byte_val c - 48) in if v < 2 ^ 64 then digits_value v cs else None)
      else None)"

definition str_parse_u64 :: "bytes \<Rightarrow> u64 option" where
  "str_parse_u64 s =
     (let ds = (case s of c # cs \<Rightarrow> if c = CHR ''+'' then cs else s | [] \<Rightarrow> [])
      in if ds = [] then None else map_option word_of_nat (digits_value 0 ds))"

definition parse_article_number :: "memchr_api \<Rightarrow> bytes \<Rightarrow> u64 option" where
  "parse_article_number M status_line =
     (if length status_line < 4 then None
      else let rest = drop 4 status_line;
               e = (case memchr M SP rest of Some i \<Rightarrow> i | None \<Rightarrow> length rest)
           in Option.bind (from_utf8 (take e rest)) str_parse_u64)"

definition retained_article_number :: "u64 option \<Rightarrow> u64 option \<Rightarrow> u64 option" where
  "retained_article_number left right =
     (case (left, right) of
        (Some l, Some r) \<Rightarrow> if l = r then Some l else None
      | (Some n, None) \<Rightarrow> Some n
      | (None, Some n) \<Rightarrow> Some n
      | (None, None) \<Rightarrow> None)"

definition captured_payload_body_for_status ::
    "memchr_api \<Rightarrow> Target \<Rightarrow> u16 \<Rightarrow> bytes \<Rightarrow> bytes option" where
  "captured_payload_body_for_status M t code payload =
     (if code \<notin> {220, 221, 222} then Some payload else complete_multiline_payload_body M t payload)"

definition payload_for_status :: "memchr_api \<Rightarrow> u16 \<Rightarrow> u64 option \<Rightarrow> bytes \<Rightarrow> CachedPayload" where
  "payload_for_status M code number payload =
     (if code = 220 then
        (case captured_article_payload_sections M payload of
           Some ((a, b), (c, d)) \<Rightarrow> ArticlePayload number (subrange a b payload) (subrange c d payload)
         | None \<Rightarrow> ArticlePayload number [] payload)
      else if code = 221 then HeadPayload number payload
      else if code = 222 then BodyPayload number payload
      else if code = 223 then StatPayload number
      else AvailabilityOnly)"

text \<open>\<open>split_off\<close> and \<open>truncate\<close> instead of copying the ranges.\<close>

definition payload_for_status_owned ::
    "memchr_api \<Rightarrow> u16 \<Rightarrow> u64 option \<Rightarrow> bytes \<Rightarrow> CachedPayload" where
  "payload_for_status_owned M code number payload =
     (if code = 220 then
        (case captured_article_payload_sections M payload of
           Some ((a, b), (c, d)) \<Rightarrow>
             (let body = drop c payload; payload = take c payload
              in ArticlePayload number (take b payload) body)
         | None \<Rightarrow> ArticlePayload number [] payload)
      else if code = 221 then HeadPayload number payload
      else if code = 222 then BodyPayload number payload
      else AvailabilityOnly)"

definition parse_payload :: "memchr_api \<Rightarrow> Target \<Rightarrow> StatusCode \<Rightarrow> bytes \<Rightarrow> CachedPayload" where
  "parse_payload M t status_code buffer =
     (let code = into_inner status_code in
      if status_code = StatusCode 430 then MissingPayload
      else case map_option (\<lambda>pos. pos + 2) (memmem_find M CRLF buffer) of
             None \<Rightarrow> AvailabilityOnly
           | Some status_end \<Rightarrow>
               (let number = parse_article_number M (take status_end buffer)
                in case captured_payload_body_for_status M t code (drop status_end buffer) of
                     None \<Rightarrow> if code = 223 then StatPayload number else AvailabilityOnly
                   | Some payload \<Rightarrow> payload_for_status M code number payload))"

text \<open>A chunked response is its list of chunks.\<close>

fun copy_prefix_loop :: "nat \<Rightarrow> bytes list \<Rightarrow> bytes" where
  "copy_prefix_loop rest [] = []"
| "copy_prefix_loop rest (chunk # chunks) =
     (if rest = 0 then []
      else let n = min rest (length chunk) in take n chunk @ copy_prefix_loop (rest - n) chunks)"

definition copy_prefix_into :: "bytes list \<Rightarrow> nat \<Rightarrow> bytes" where
  "copy_prefix_into chunks len = copy_prefix_loop (min len (length (concat chunks))) chunks"

fun copy_payload_loop :: "nat \<Rightarrow> nat \<Rightarrow> nat \<Rightarrow> bytes list \<Rightarrow> bytes" where
  "copy_payload_loop a b chunk_start [] = []"
| "copy_payload_loop a b chunk_start (chunk # chunks) =
     (let chunk_end = chunk_start + length chunk;
          copied = (if a < chunk_end \<and> chunk_start < b
                    then subrange (a - chunk_start) (min (b - chunk_start) (length chunk)) chunk
                    else [])
      in copied @ (if b \<le> chunk_end then [] else copy_payload_loop a b chunk_end chunks))"

definition copy_payload_bytes :: "bytes list \<Rightarrow> nat \<Rightarrow> nat \<Rightarrow> bytes" where
  "copy_payload_bytes chunks a b = (if b < a then [] else copy_payload_loop a b 0 chunks)"

definition parse_framed_chunked_payload ::
    "memchr_api \<Rightarrow> StatusCode \<Rightarrow> nat \<Rightarrow> bytes list \<Rightarrow> nat \<Rightarrow> CachedPayload" where
  "parse_framed_chunked_payload M status_code status_end chunks payload_end =
     (let code = into_inner status_code in
      if status_code = StatusCode 430 then MissingPayload
      else let status_line = copy_prefix_into chunks status_end
           in if length status_line \<noteq> status_end then AvailabilityOnly
              else let number = parse_article_number M status_line
                   in if code = 223 then StatPayload number
                      else if code \<notin> {220, 221, 222} then AvailabilityOnly
                      else payload_for_status_owned M code number
                             (copy_payload_bytes chunks status_end payload_end))"

section \<open>Entries\<close>

record CachedArticle =
  ca_missing :: usize
  ca_negative_timestamps :: "(AvailabilitySlot \<times> u64) list"
  ca_status_code :: StatusCode
  ca_payload :: CachedPayload
  ca_tier :: u8
  ca_inserted_at :: u64

definition negative_timestamps_for_bits :: "usize \<Rightarrow> u64 \<Rightarrow> (AvailabilitySlot \<times> u64) list" where
  "negative_timestamps_for_bits bits timestamp =
     map (\<lambda>slot. (slot, timestamp))
       (filter (\<lambda>slot. bits AND slot_bit slot \<noteq> 0) (List.map_filter slot_new [0..<MAX_COUNT]))"

fun expire_negative ::
    "u64 \<Rightarrow> u64 \<Rightarrow> usize \<Rightarrow> (AvailabilitySlot \<times> u64) list \<Rightarrow> usize \<times> (AvailabilitySlot \<times> u64) list" where
  "expire_negative now base_ttl bits [] = (bits, [])"
| "expire_negative now base_ttl bits ((slot, timestamp) # rest) =
     (if is_expired now timestamp base_ttl 0
      then expire_negative now base_ttl (bits AND NOT (slot_bit slot)) rest
      else let (bits', rest') = expire_negative now base_ttl bits rest
           in (bits', (slot, timestamp) # rest'))"

definition expire_stale_availability :: "u64 \<Rightarrow> u64 \<Rightarrow> CachedArticle \<Rightarrow> CachedArticle" where
  "expire_stale_availability now base_ttl entry =
     (let (bits, negative) = expire_negative now base_ttl (ca_missing entry) (ca_negative_timestamps entry)
      in entry\<lparr>ca_missing := bits, ca_negative_timestamps := negative\<rparr>)"

definition new_entry :: "StatusCode \<Rightarrow> CachedPayload \<Rightarrow> u8 \<Rightarrow> u64 \<Rightarrow> CachedArticle" where
  "new_entry status_code payload tier now =
     \<lparr>ca_missing = 0, ca_negative_timestamps = [], ca_status_code = status_code,
      ca_payload = payload, ca_tier = tier, ca_inserted_at = now\<rparr>"

definition availability_only :: "u64 \<Rightarrow> StatusCode \<Rightarrow> u8 \<Rightarrow> CachedArticle" where
  "availability_only now status_code tier = new_entry status_code AvailabilityOnly tier now"

definition entry_stat :: "u64 \<Rightarrow> u8 \<Rightarrow> CachedArticle" where
  "entry_stat now tier = new_entry (StatusCode 223) (StatPayload None) tier now"

definition entry_missing :: "u64 \<Rightarrow> u8 \<Rightarrow> CachedArticle" where
  "entry_missing now tier = new_entry (StatusCode 430) MissingPayload tier now"

definition negative_only :: "u64 \<Rightarrow> usize \<Rightarrow> CachedArticle" where
  "negative_only now missing_bits =
     (entry_missing now 0)\<lparr>ca_missing := missing_bits,
        ca_negative_timestamps := negative_timestamps_for_bits missing_bits now\<rparr>"

definition from_contiguous_ingest_with_tier ::
    "memchr_api \<Rightarrow> Target \<Rightarrow> u64 \<Rightarrow> bytes \<Rightarrow> u8 \<Rightarrow> CachedArticle" where
  "from_contiguous_ingest_with_tier M t now resp tier =
     (let status_code = (case status_parse resp of Some s \<Rightarrow> s | None \<Rightarrow> StatusCode 430)
      in new_entry status_code (parse_payload M t status_code resp) tier now)"

text \<open>A framed capture: status, end of the status line, chunks and end of the payload.\<close>

record FramedChunkedResponse =
  fc_status :: StatusCode
  fc_status_line_end :: nat
  fc_chunks :: "bytes list"
  fc_payload_end :: nat

definition from_framed_chunked_with_tier ::
    "memchr_api \<Rightarrow> u64 \<Rightarrow> FramedChunkedResponse \<Rightarrow> u8 \<Rightarrow> CachedArticle" where
  "from_framed_chunked_with_tier M now resp tier =
     new_entry (fc_status resp)
       (parse_framed_chunked_payload M (fc_status resp) (fc_status_line_end resp) (fc_chunks resp)
          (fc_payload_end resp)) tier now"

definition entry_is_expired :: "u64 \<Rightarrow> u64 \<Rightarrow> CachedArticle \<Rightarrow> bool" where
  "entry_is_expired now base_ttl entry \<longleftrightarrow>
     is_expired now (ca_inserted_at entry) base_ttl (ca_tier entry)"

definition request_cache_metadata :: "CachedArticle \<Rightarrow> usize \<Rightarrow> RequestCacheEntryMetadata" where
  "request_cache_metadata entry missing =
     \<lparr>re_status = ca_status_code entry,
      re_availability = \<lparr>ra_checked = missing, ra_missing = missing\<rparr>,
      re_tier = ca_tier entry, re_timestamp = ca_inserted_at entry,
      re_payload_kind = request_payload_kind (ca_payload entry),
      re_article_number = article_number (ca_payload entry)\<rparr>"

fun set_timestamp :: "AvailabilitySlot \<Rightarrow> u64 \<Rightarrow> (AvailabilitySlot \<times> u64) list \<Rightarrow> (AvailabilitySlot \<times> u64) list" where
  "set_timestamp slot now [] = [(slot, now)]"
| "set_timestamp slot now ((recorded, timestamp) # rest) =
     (if recorded = slot then (recorded, now) # rest
      else (recorded, timestamp) # set_timestamp slot now rest)"

definition record_availability_missing :: "u64 \<Rightarrow> AvailabilitySlot \<Rightarrow> CachedArticle \<Rightarrow> CachedArticle" where
  "record_availability_missing now slot entry =
     entry\<lparr>ca_missing := record_missing_slot (ca_missing entry) slot,
           ca_negative_timestamps := set_timestamp slot now (ca_negative_timestamps entry)\<rparr>"

definition is_complete_article :: "CachedArticle \<Rightarrow> bool" where
  "is_complete_article entry \<longleftrightarrow>
     ca_status_code entry = StatusCode 220 \<and>
     (case ca_payload entry of ArticlePayload _ headers body \<Rightarrow> headers \<noteq> [] \<or> body \<noteq> [] | _ \<Rightarrow> False)"

text \<open>\<open>merge_compatible_sections\<close>: \<open>None\<close> stands for \<open>false\<close>, which leaves the entry unchanged.\<close>

definition merge_compatible_sections :: "u64 \<Rightarrow> CachedArticle \<Rightarrow> CachedArticle \<Rightarrow> CachedArticle option" where
  "merge_compatible_sections now entry other =
     map_option
       (\<lambda>payload. entry\<lparr>ca_status_code := StatusCode 220, ca_tier := max (ca_tier entry) (ca_tier other),
                        ca_payload := payload, ca_inserted_at := now\<rparr>)
       (case (ca_payload entry, ca_payload other) of
          (HeadPayload left headers, BodyPayload right body) \<Rightarrow>
            Some (ArticlePayload (retained_article_number left right) headers body)
        | (BodyPayload left body, HeadPayload right headers) \<Rightarrow>
            Some (ArticlePayload (retained_article_number left right) headers body)
        | _ \<Rightarrow> None)"

definition cached_response_for :: "CachedArticle \<Rightarrow> RequestKind \<Rightarrow> bytes \<Rightarrow> CachedResponseWire option" where
  "cached_response_for entry request_kind message_id =
     cached_response_for_payload (ca_payload entry) request_kind message_id"

section \<open>Expiry\<close>

lemma unat_effective_ttl:
  "unat (effective_ttl base_ttl tier) = min (unat base_ttl * 2 ^ min (unat tier) 63) (2 ^ 64 - 1)"
proof -
  have c: "unat (if MAX_TTL_TIER < tier then MAX_TTL_TIER else tier) = min (unat tier) 63"
    by (simp add: MAX_TTL_TIER_def word_less_nat_alt)
  have "unat (push_bit n 1 :: u64) = 2 ^ n" if "n \<le> 63" for n
  proof -
    have "take_bit LENGTH(64) (2 ^ n) = (2::nat) ^ n" using that by (simp add: take_bit_nat_eq_self)
    then show ?thesis by (simp only: unsigned_push_bit_eq unsigned_1) (simp only: push_bit_of_1)
  qed
  then show ?thesis by (simp add: effective_ttl_def unat_saturating_mul c)
qed

lemma is_expired_iff:
  "is_expired now inserted_at base_ttl tier \<longleftrightarrow>
     min (unat base_ttl * 2 ^ min (unat tier) 63) (2 ^ 64 - 1) \<le> unat now - unat inserted_at"
  by (simp add: is_expired_def word_le_nat_alt unat_effective_ttl unat_saturating_sub)

text \<open>
  C30. Tier-aware expiry: an entry is expired exactly when its age reaches the base time to live times
  two to the tier, the tier capped at 63 and the product at the largest 64-bit value; a clock that
  runs backwards makes it younger, not expired; an expired entry stays expired, and a higher tier
  never expires earlier.
\<close>

theorem expiry_spec:
  "(is_expired now inserted_at base_ttl tier \<longleftrightarrow>
      min (unat base_ttl * 2 ^ min (unat tier) 63) (2 ^ 64 - 1) \<le> unat now - unat inserted_at) \<and>
   (is_expired now inserted_at base_ttl tier \<and> now \<le> now' \<longrightarrow> is_expired now' inserted_at base_ttl tier) \<and>
   (is_expired now inserted_at base_ttl tier' \<and> tier \<le> tier' \<longrightarrow> is_expired now inserted_at base_ttl tier) \<and>
   (now \<le> inserted_at \<and> base_ttl \<noteq> 0 \<longrightarrow> \<not> is_expired now inserted_at base_ttl tier)"
proof (intro conjI impI)
  show "is_expired now inserted_at base_ttl tier \<longleftrightarrow>
      min (unat base_ttl * 2 ^ min (unat tier) 63) (2 ^ 64 - 1) \<le> unat now - unat inserted_at"
    by (rule is_expired_iff)
  assume "is_expired now inserted_at base_ttl tier \<and> now \<le> now'"
  then show "is_expired now' inserted_at base_ttl tier"
    unfolding is_expired_iff word_le_nat_alt by linarith
next
  assume a: "is_expired now inserted_at base_ttl tier' \<and> tier \<le> tier'"
  then have "min (unat tier) 63 \<le> min (unat tier') 63" unfolding word_le_nat_alt by linarith
  then have "unat base_ttl * 2 ^ min (unat tier) 63 \<le> unat base_ttl * 2 ^ min (unat tier') 63"
    by (intro mult_left_mono power_increasing) simp_all
  with a show "is_expired now inserted_at base_ttl tier" unfolding is_expired_iff by linarith
next
  assume a: "now \<le> inserted_at \<and> base_ttl \<noteq> 0"
  then have "0 < unat base_ttl" by (simp add: unat_eq_0 flip: neq0_conv)
  then have "0 < unat base_ttl * 2 ^ min (unat tier) 63" by simp
  moreover have "unat now - unat inserted_at = 0" using a by (simp add: word_le_nat_alt)
  ultimately show "\<not> is_expired now inserted_at base_ttl tier"
    by (simp add: is_expired_iff min_le_iff_disj)
qed

theorem expiry_spec_witness:
  "is_expired 9000 1000 1000 3 \<and> \<not> is_expired 8999 1000 1000 3"
  using expiry_spec [of 9000 1000 1000 3] expiry_spec [of 8999 1000 1000 3] by simp

section \<open>Status lines\<close>

lemma u64_digits_eq: "u64_digits n acc = show_nat (unat n) @ acc"
proof (induction n acc rule: u64_digits.induct)
  case (1 n acc)
  have z: "n div 10 = 0 \<longleftrightarrow> unat n < 10"
    by (simp add: unat_div div_eq_0_iff flip: unat_eq_0)
  show ?case
  proof (cases "unat n < 10")
    case True
    then have "show_nat (unat n) = [char_of (48 + unat n)]" by (simp add: show_nat.simps)
    with True z show ?thesis by (simp add: u64_digits.simps [of n acc] unat_mod)
  next
    case False
    then have "show_nat (unat n) = show_nat (unat n div 10) @ [char_of (48 + unat n mod 10)]"
      by (simp add: show_nat.simps [of "unat n"])
    moreover from False z 1 have "u64_digits (n div 10) (char_of (48 + unat (n mod 10)) # acc) =
        show_nat (unat (n div 10)) @ char_of (48 + unat (n mod 10)) # acc" by simp
    ultimately show ?thesis using False z by (simp add: u64_digits.simps [of n acc] unat_mod unat_div)
  qed
qed

lemma length_show_nat: "0 < k \<Longrightarrow> n < 10 ^ k \<Longrightarrow> length (show_nat n) \<le> k"
proof (induction k arbitrary: n)
  case (Suc k)
  show ?case
  proof (cases "n < 10")
    case True
    then show ?thesis by (simp add: show_nat.simps)
  next
    case False
    with Suc.prems have "0 < k" by (cases k) auto
    moreover have "n div 10 < 10 ^ k" using Suc.prems by (simp add: div_less_iff_less_mult mult.commute)
    ultimately have "length (show_nat (n div 10)) \<le> k" by (rule Suc.IH)
    with False show ?thesis by (simp add: show_nat.simps [of n])
  qed
qed simp

lemma length_show_word:
  "length (show_nat (unat (c :: u16))) \<le> 5" "length (show_nat (unat (n :: u64))) \<le> 20"
proof -
  have "unat c < 10 ^ 5" using unsigned_less [of c, where 'a = nat] by simp
  then show "length (show_nat (unat c)) \<le> 5" by (intro length_show_nat) simp_all
  have "unat n < 10 ^ 20" using unsigned_less [of n, where 'a = nat] by simp
  then show "length (show_nat (unat n)) \<le> 20" by (intro length_show_nat) simp_all
qed

lemma status_line_new_eq:
  assumes "length mid \<le> 250"
  shows "status_line_new code number mid =
    Some (show_nat (unat code) @ [SP] @ show_nat (unat number) @ [SP] @ mid @ CRLF)"
proof -
  have "unat (ucast code :: u64) = unat code"
    by (simp add: unsigned_ucast_eq) (simp add: nat_take_bit_eq take_bit_nat_eq_self unsigned_less
        order.strict_trans [OF unsigned_less])
  then show ?thesis
    using assms length_show_word(1) [of code] length_show_word(2) [of number]
    by (simp add: status_line_new_def push_u64_def push_slice_def u64_digits_eq)
qed

section \<open>Article numbers\<close>

lemma digits_value_append:
  "digits_value a (xs @ ys) = Option.bind (digits_value a xs) (\<lambda>b. digits_value b ys)"
  by (induction xs arbitrary: a) (simp_all add: Let_def)

lemma byte_val_digit: "d < 10 \<Longrightarrow> byte_val (char_of (48 + d)) = 48 + d"
  by (simp add: of_char_of)

lemma digits_value_show_nat: "n < 2 ^ 64 \<Longrightarrow> digits_value 0 (show_nat n) = Some n"
proof (induction n rule: show_nat.induct)
  case (1 n)
  show ?case
  proof (cases "n < 10")
    case True
    then show ?thesis by (simp add: show_nat.simps is_ascii_digit_def byte_val_digit)
  next
    case False
    have "10 * (n div 10) + n mod 10 = n" by simp
    with False 1 show ?thesis
      by (simp add: show_nat.simps [of n] digits_value_append is_ascii_digit_def byte_val_digit)
  qed
qed

lemma show_nat_digits: "c \<in> set (show_nat n) \<Longrightarrow> is_ascii_digit c"
proof (induction n rule: show_nat.induct)
  case (1 n)
  show ?case
  proof (cases "n < 10")
    case True
    with 1 show ?thesis by (simp add: show_nat.simps [of n] is_ascii_digit_def byte_val_digit)
  next
    case False
    with 1 show ?thesis by (auto simp: show_nat.simps [of n] is_ascii_digit_def byte_val_digit)
  qed
qed

lemma show_nat_not_Nil [simp]: "show_nat n \<noteq> []"
  by (simp add: show_nat.simps [of n])

lemma str_parse_u64_show_nat: "str_parse_u64 (show_nat (unat n)) = Some n"
proof -
  have "\<not> is_ascii_digit CHR ''+''" by (simp add: is_ascii_digit_def)
  then have "(case show_nat (unat n) of c # cs \<Rightarrow> if c = CHR ''+'' then cs else show_nat (unat n) | [] \<Rightarrow> [])
      = show_nat (unat n)"
    using show_nat_digits [of _ "unat n"] by (cases "show_nat (unat n)") auto
  then show ?thesis
    using digits_value_show_nat [of "unat n"] unsigned_less [of n, where 'a = nat]
    by (simp add: str_parse_u64_def)
qed

lemma from_utf8_show_nat: "from_utf8 (show_nat n) = Some (show_nat n)"
proof -
  have "utf8_valid (show_nat n)"
    using show_nat_digits [of _ n] by (intro utf8_valid_ascii) (fastforce simp: is_ascii_digit_def)
  then show ?thesis by (simp add: from_utf8_def)
qed

context memchr_lib
begin

lemma parse_article_number_line:
  assumes "length code = 3"
  shows "parse_article_number M (code @ [SP] @ show_nat (unat n) @ [SP] @ rest) = Some n"
proof -
  have "\<not> is_ascii_digit SP" by (simp add: is_ascii_digit_def)
  then have "c \<noteq> SP" if "c \<in> set (show_nat (unat n))" for c using that show_nat_digits by blast
  then have "position (\<lambda>c. c = SP) (show_nat (unat n) @ SP # rest) = Some (length (show_nat (unat n)))"
    by (intro position_append_hit) auto
  moreover have "drop 4 (code @ SP # show_nat (unat n) @ SP # rest) = show_nat (unat n) @ SP # rest"
    using assms by (simp add: numeral_eq_Suc)
  ultimately show ?thesis
    using assms by (simp add: parse_article_number_def from_utf8_show_nat str_parse_u64_show_nat)
qed

end

section \<open>Chunked captures\<close>

lemma copy_prefix_loop_eq: "copy_prefix_loop n chunks = take n (concat chunks)"
  by (induction chunks arbitrary: n) (auto simp: min_def)

lemma copy_prefix_into_eq: "copy_prefix_into chunks n = take n (concat chunks)"
  by (simp add: copy_prefix_into_def copy_prefix_loop_eq min_def)

lemma copy_payload_loop_eq:
  "a \<le> b \<Longrightarrow> copy_payload_loop a b s chunks = subrange (a - s) (b - s) (concat chunks)"
proof (induction chunks arbitrary: s)
  case (Cons c chunks)
  have IH: "copy_payload_loop a b (s + length c) chunks =
      subrange (a - (s + length c)) (b - (s + length c)) (concat chunks)"
    using Cons by simp
  show ?case
  proof (cases "b \<le> s + length c")
    case True
    then show ?thesis
      using Cons.prems by (auto simp: subrange_def Let_def min_def)
  next
    case False
    then show ?thesis
      using Cons.prems IH by (auto simp: subrange_def Let_def min_def diff_diff_left)
  qed
qed (simp add: subrange_def)

lemma copy_payload_bytes_eq: "copy_payload_bytes chunks a b = subrange a b (concat chunks)"
  by (simp add: copy_payload_bytes_def copy_payload_loop_eq) (simp add: subrange_def)

lemma payload_for_status_owned_eq:
  assumes "code \<in> {220, 221, 222}"
  shows "payload_for_status_owned M code n p = payload_for_status M code n p"
proof (cases "code = 220")
  case True
  show ?thesis
  proof (cases "captured_article_payload_sections M p")
    case (Some r)
    obtain a b c d where r: "r = ((a, b), (c, d))" by (metis prod.exhaust)
    have "a = 0" "b \<le> c" "d = length p"
      using Some r by (auto simp: captured_article_payload_sections_def split: if_splits)
    with Some r True show ?thesis
      by (simp add: payload_for_status_owned_def payload_for_status_def subrange_def min_def)
  qed (use True in \<open>simp add: payload_for_status_owned_def payload_for_status_def\<close>)
qed (use assms in \<open>auto simp: payload_for_status_owned_def payload_for_status_def\<close>)

section \<open>Replaying a captured response\<close>

definition has_blank_line :: "bytes \<Rightarrow> bool" where
  "has_blank_line p \<longleftrightarrow> prefix CRLF p \<or> find_sub (CRLF @ CRLF) p \<noteq> None"

text \<open>What the cache serves for a captured payload.\<close>

definition replayed_payload :: "u16 \<Rightarrow> bytes \<Rightarrow> bytes" where
  "replayed_payload code p =
     (if code = 220 \<and> \<not> has_blank_line p then (if p = [] then [] else CRLF @ p)
      else if code = 220 \<and> p = CRLF then [] else p)"

lemma wire_len_eq: "wire_len w = length (concat (cached_wire_slices w))"
  by (cases "cw_payload w") (simp_all add: wire_len_def wire_payload_len_def cached_wire_slices_def)

lemma cached_write_to_sent:
  assumes "writer_lib W" "cached_write_to W w s = (s', Inr ())"
  shows "sent W s' = sent W s @ concat (cached_wire_slices w)"
proof (cases "cw_payload w = WireNone")
  case True
  then show ?thesis
    using writer_lib.write_all_Ok [OF assms(1)] assms(2)
    by (simp add: cached_write_to_def cached_wire_slices_def)
next
  case False
  then have "write_all_vectored W s (cached_wire_slices w) = (s', Inr ())"
    using assms(2) by (cases "cw_payload w") (simp_all add: cached_write_to_def)
  from writer_lib.write_all_vectored_sent [OF assms(1) this] show ?thesis by auto
qed

lemma article_payload_replay:
  assumes "memchr_lib M"
  shows "\<exists>h b. payload_for_status M 220 n p = ArticlePayload n h b \<and>
     h @ article_separator h b @ b = replayed_payload 220 p"
proof (cases "captured_article_payload_sections M p")
  case None
  with article_sections_facts [OF assms, of p] have "\<not> has_blank_line p"
    by (simp add: has_blank_line_def)
  with None show ?thesis
    by (simp add: payload_for_status_def replayed_payload_def article_separator_def)
next
  case (Some r)
  obtain a b c d where r: "r = ((a, b), (c, d))" by (metis prod.exhaust)
  have p: "p = subrange a b p @ CRLF @ subrange c d p" and bl: "has_blank_line p"
    using article_sections_facts [OF assms, of p] Some r by (auto simp: has_blank_line_def)
  have "subrange a b p = [] \<and> subrange c d p = [] \<longleftrightarrow> p = CRLF"
    using p arg_cong [OF p, of length] by (cases "subrange a b p") auto
  then have "subrange a b p @ article_separator (subrange a b p) (subrange c d p) @ subrange c d p
      = replayed_payload 220 p"
    using p bl by (auto simp: article_separator_def replayed_payload_def)
  with Some r show ?thesis by (simp add: payload_for_status_def)
qed

context memchr_lib
begin

lemma framed_payload:
  assumes "concat (fc_chunks r) = line @ payload @ rest" "fc_status_line_end r = length line"
    and "fc_payload_end r = length line + length payload"
    and "fc_status r = StatusCode code" "code \<in> {220, 221, 222}"
    and "line = show_nat (unat code) @ [SP] @ show_nat (unat n) @ [SP] @ line_rest"
  shows "ca_payload (from_framed_chunked_with_tier M now r tier) = payload_for_status M code (Some n) payload"
proof -
  have l: "length (show_nat (unat code)) = 3" using assms(5) by (auto simp: show_nat_3)
  have "subrange (length line) (length line + length payload) (concat (fc_chunks r)) = payload"
    by (simp add: assms(1) subrange_def)
  moreover have "take (length line) (concat (fc_chunks r)) = line" by (simp add: assms(1))
  moreover have "parse_article_number M line = Some n"
    using parse_article_number_line [OF l] by (simp add: assms(6))
  moreover have "code \<noteq> 430" "code \<noteq> 223" using assms(5) by auto
  ultimately show ?thesis
    using assms(2-5)
    by (simp add: from_framed_chunked_with_tier_def parse_framed_chunked_payload_def new_entry_def
        copy_prefix_into_eq copy_payload_bytes_eq payload_for_status_owned_eq)
qed

end

text \<open>
  C11. The cache replays what it captured: for an ARTICLE, HEAD or BODY response captured from a backend
  in any chunks, with status line \<open>code n ...\<close>, the entry built from it answers the same command
  with the status line for the same number and the requested message ID, the captured payload and
  the dot line, byte for byte, and the recorded length is the number of bytes. The exceptions are
  exactly the ARTICLE payloads without a blank line, which are served with one in front, and the
  payload that is only a blank line, which is served empty.
\<close>

theorem cache_replay:
  assumes "memchr_lib M" "writer_lib W" "length mid \<le> 250"
    and "(code, kind) \<in> {(220, Article), (221, Head), (222, Body)}"
    and "concat (fc_chunks r) = line @ payload @ rest" "fc_status_line_end r = length line"
    and "fc_payload_end r = length line + length payload" "fc_status r = StatusCode code"
    and "line = show_nat (unat code) @ [SP] @ show_nat (unat (n :: u64)) @ [SP] @ line_rest"
  shows "\<exists>w. cached_response_for (from_framed_chunked_with_tier M now r tier) kind mid = Some w \<and>
     concat (cached_wire_slices w) =
       (show_nat (unat code) @ [SP] @ show_nat (unat n) @ [SP] @ mid @ CRLF)
       @ replayed_payload code payload @ DOT_TERMINATOR \<and>
     wire_len w = length (concat (cached_wire_slices w)) \<and>
     (cached_write_to W w s = (s', Inr ()) \<longrightarrow> sent W s' = sent W s @ concat (cached_wire_slices w))"
proof -
  have c: "code \<in> {220, 221, 222}" using assms(4) by auto
  have p: "ca_payload (from_framed_chunked_with_tier M now r tier) = payload_for_status M code (Some n) payload"
    by (rule memchr_lib.framed_payload [OF assms(1,5-8) c assms(9)])
  have "\<exists>w. cached_response_for_payload (payload_for_status M code (Some n) payload) kind mid = Some w \<and>
     concat (cached_wire_slices w) =
       (show_nat (unat code) @ [SP] @ show_nat (unat n) @ [SP] @ mid @ CRLF)
       @ replayed_payload code payload @ DOT_TERMINATOR"
  proof (cases "code = 220")
    case True
    obtain h b where hb: "payload_for_status M 220 (Some n) payload = ArticlePayload (Some n) h b"
      and e: "h @ article_separator h b @ b = replayed_payload 220 payload"
      using article_payload_replay [OF assms(1)] by blast
    have "kind = Article" using True assms(4) by auto
    then show ?thesis
      using True hb
      by (simp add: cached_response_for_payload_def status_line_new_eq assms(3) cached_wire_slices_def
          flip: e)
  next
    case False
    then show ?thesis
      using assms(3,4)
      by (auto simp: cached_response_for_payload_def status_line_new_eq cached_wire_slices_def
          payload_for_status_def replayed_payload_def)
  qed
  then show ?thesis
    using cached_write_to_sent [OF assms(2)] by (auto simp: cached_response_for_def p wire_len_eq)
qed

lemma show_nat_222_7: "show_nat 222 = ''222''" "show_nat 7 = ''7''"
  by code_simp+

theorem cache_replay_witness:
  "\<exists>w. cached_response_for (from_framed_chunked_with_tier memchr_ref 0
          \<lparr>fc_status = StatusCode 222, fc_status_line_end = 9,
           fc_chunks = [''222 7 x'' @ [CR], [LF] @ ''hello'' @ CRLF @ DOT_TERMINATOR],
           fc_payload_end = 16\<rparr> 0) Body ''<a@b>'' = Some w \<and>
     concat (cached_wire_slices w) = ''222 7 <a@b>'' @ CRLF @ ''hello'' @ CRLF @ DOT_TERMINATOR"
  using cache_replay [OF memchr_ref.memchr_lib_axioms open_conn.writer_lib_axioms,
      of "''<a@b>''" 222 Body
        "\<lparr>fc_status = StatusCode 222, fc_status_line_end = 9,
          fc_chunks = [''222 7 x'' @ [CR], [LF] @ ''hello'' @ CRLF @ DOT_TERMINATOR],
          fc_payload_end = 16\<rparr>"
        "''222 7 x'' @ CRLF" "''hello'' @ CRLF" DOT_TERMINATOR 7 "''x'' @ CRLF" 0 0]
  by (auto simp: show_nat_222_7 replayed_payload_def)

text \<open>
  C27. Chunked ingestion agrees with contiguous ingestion: for a response whose status line ends at its
  first CRLF and whose payload end is the one the framer established, parsing the chunks in place
  gives the same cache payload as flattening the response and parsing it, for every status.
\<close>

theorem chunked_parse_equiv:
  assumes "memchr_lib M" "find_sub CRLF (concat chunks) = Some i"
    and "into_inner status \<in> {220, 221, 222} \<Longrightarrow>
      complete_multiline_payload_body M t (drop (i + 2) (concat chunks)) = Some b \<and>
      payload_end = i + 2 + length b"
  shows "parse_framed_chunked_payload M status (i + 2) chunks payload_end =
         parse_payload M t status (concat chunks)"
proof -
  let ?c = "into_inner status"
  have b: "i + 2 \<le> length (concat chunks)" using find_sub_bound [OF assms(2)] by simp
  have f: "memmem_find M CRLF (concat chunks) = Some i"
    using memchr_lib.memmem_find_eq [OF assms(1)] assms(2) by simp
  show ?thesis
  proof (cases "?c \<in> {220, 221, 222}")
    case True
    then have body: "complete_multiline_payload_body M t (drop (i + 2) (concat chunks)) = Some b"
      "payload_end = i + 2 + length b" using assms(3) by auto
    have "drop (i + 2) (concat chunks) = b @ DOT_TERMINATOR"
      using memchr_lib.payload_body_iff [OF assms(1)] body(1) by blast
    then have "subrange (i + 2) payload_end (concat chunks) = b" by (simp add: subrange_def body(2))
    moreover have "status \<noteq> StatusCode 430" "?c \<noteq> 223" using True by auto
    ultimately show ?thesis
      using True b f body(1) payload_for_status_owned_eq [OF True]
      by (auto simp: Let_def parse_framed_chunked_payload_def parse_payload_def copy_prefix_into_eq
          copy_payload_bytes_eq captured_payload_body_for_status_def min_absorb2)
  next
    case False
    then show ?thesis
      using b f
      by (auto simp: Let_def parse_framed_chunked_payload_def parse_payload_def copy_prefix_into_eq
          captured_payload_body_for_status_def payload_for_status_def min_absorb2)
  qed
qed

theorem chunked_parse_equiv_witness:
  "parse_framed_chunked_payload memchr_ref (StatusCode 222) 7 [''222 x'', CRLF @ ''a'' @ CRLF, DOT_TERMINATOR] 10 =
   parse_payload memchr_ref Avx2 (StatusCode 222) (''222 x'' @ CRLF @ ''a'' @ CRLF @ DOT_TERMINATOR)"
proof -
  have "complete_multiline_payload_body memchr_ref Avx2 (''a'' @ CRLF @ DOT_TERMINATOR) = Some (''a'' @ CRLF)"
    using memchr_ref.payload_body_iff [of Avx2 "''a'' @ CRLF @ DOT_TERMINATOR" "''a'' @ CRLF"]
    by (simp add: first_term_end_def TERMINATOR_def DOT_TERMINATOR_def)
  then show ?thesis
    using chunked_parse_equiv [OF memchr_ref.memchr_lib_axioms, of
        "[''222 x'', CRLF @ ''a'' @ CRLF, DOT_TERMINATOR]" 5 "StatusCode 222" Avx2 "''a'' @ CRLF" 10]
    by simp
qed

end
