(* ===== verification/Cache.thy ===== *)
theory Cache
  imports Article "HOL-Library.AList"
begin

text \<open>
  The in-memory article cache (\<open>ArticleCache\<close> of \<open>src/src/cache/article.rs\<close>). The concurrent map
  underneath is the third-party crate \<open>moka\<close>, a parameter of the model: a record of its operations,
  with the laws of its documentation in the locale \<open>moka_lib\<close>. The cache may evict any entry at any
  operation, so the laws never promise that an entry stays. Operations on one key are atomic
  (\<open>and_upsert_with\<close>), so an execution is a sequence of operations. The key of an article is its
  message ID without the brackets.
\<close>

section \<open>The \<open>moka\<close> crate\<close>

record 'c moka_api =
  moka_get :: "'c \<Rightarrow> bytes \<Rightarrow> CachedArticle option"
  moka_upsert :: "'c \<Rightarrow> bytes \<Rightarrow> (CachedArticle option \<Rightarrow> CachedArticle) \<Rightarrow> 'c \<times> bool"
  moka_invalidate :: "'c \<Rightarrow> bytes \<Rightarrow> 'c"
  moka_run_pending_tasks :: "'c \<Rightarrow> 'c"

locale moka_lib =
  fixes K :: "'c moka_api"
  assumes upsert_same:
      "moka_get K (fst (moka_upsert K c k f)) k = Some e \<Longrightarrow> e = f None \<or> e = f (moka_get K c k)"
    and upsert_other:
      "j \<noteq> k \<Longrightarrow> moka_get K (fst (moka_upsert K c k f)) j = Some e \<Longrightarrow> moka_get K c j = Some e"
    and invalidate_same: "moka_get K (moka_invalidate K c k) k = None"
    and invalidate_other: "moka_get K (moka_invalidate K c k) j = Some e \<Longrightarrow> moka_get K c j = Some e"
    and pending_tasks: "moka_get K (moka_run_pending_tasks K c) j = Some e \<Longrightarrow> moka_get K c j = Some e"

section \<open>Merging into an entry\<close>

definition keep_same_completeness :: "nat \<Rightarrow> nat \<Rightarrow> CachedPayload \<Rightarrow> CachedPayload \<Rightarrow> bool" where
  "keep_same_completeness existing_len new_len existing new \<longleftrightarrow>
     new_len < existing_len \<or> (existing_len = new_len \<and> \<not> strictly_more_useful_than new existing)"

definition fresh_entry_for_mutation ::
    "u64 \<Rightarrow> u64 \<Rightarrow> CachedArticle option \<Rightarrow> CachedArticle option" where
  "fresh_entry_for_mutation now ttl maybe_entry =
     (case maybe_entry of
        None \<Rightarrow> None
      | Some e \<Rightarrow>
          (let entry = expire_stale_availability now ttl e
           in if entry_is_expired now ttl entry then None else Some entry))"

definition merge_ingest_entry ::
    "u64 \<Rightarrow> u64 \<Rightarrow> CachedArticle option \<Rightarrow> CachedArticle \<Rightarrow> AvailabilitySlot \<Rightarrow> CachedArticle" where
  "merge_ingest_entry now ttl maybe_entry template slot =
     (case fresh_entry_for_mutation now ttl maybe_entry of
        None \<Rightarrow> template
      | Some entry \<Rightarrow>
          if is_missing_slot (ca_missing entry) slot then entry
          else case merge_compatible_sections now entry template of
                 Some merged \<Rightarrow> merged
               | None \<Rightarrow>
                   (let should_replace =
                          (case (is_complete_article entry, is_complete_article template) of
                             (False, True) \<Rightarrow> True
                           | (True, False) \<Rightarrow> False
                           | _ \<Rightarrow> \<not> keep_same_completeness (payload_len (ca_payload entry))
                                     (payload_len (ca_payload template)) (ca_payload entry)
                                     (ca_payload template))
                    in if should_replace
                       then entry\<lparr>ca_status_code := ca_status_code template,
                                  ca_payload := ca_payload template,
                                  ca_tier := ca_tier template, ca_inserted_at := now\<rparr>
                       else entry))"

definition no_section :: "CachedPayload \<Rightarrow> bool" where
  "no_section p \<longleftrightarrow> p = MissingPayload \<or> p = AvailabilityOnly"

definition merge_backend_has_status_entry ::
    "u64 \<Rightarrow> u64 \<Rightarrow> CachedArticle option \<Rightarrow> CachedArticle \<Rightarrow> StatusCode \<Rightarrow> AvailabilitySlot \<Rightarrow> u8
       \<Rightarrow> CachedArticle" where
  "merge_backend_has_status_entry now ttl maybe_entry template status_code slot tier =
     (let entry = (case fresh_entry_for_mutation now ttl maybe_entry of
                     Some e \<Rightarrow> e | None \<Rightarrow> template)
      in if is_missing_slot (ca_missing entry) slot then entry
         else (if no_section (ca_payload entry)
               then entry\<lparr>ca_status_code := status_code, ca_tier := tier, ca_payload := AvailabilityOnly\<rparr>
               else entry)\<lparr>ca_inserted_at := now\<rparr>)"

definition merge_backend_stat_entry ::
    "u64 \<Rightarrow> u64 \<Rightarrow> CachedArticle option \<Rightarrow> CachedArticle \<Rightarrow> AvailabilitySlot \<Rightarrow> CachedArticle" where
  "merge_backend_stat_entry now ttl maybe_entry template slot =
     (let entry = (case fresh_entry_for_mutation now ttl maybe_entry of
                     Some e \<Rightarrow> e | None \<Rightarrow> template)
      in if is_missing_slot (ca_missing entry) slot then entry
         else (if no_section (ca_payload entry)
               then entry\<lparr>ca_status_code := ca_status_code template, ca_payload := ca_payload template,
                          ca_tier := ca_tier template\<rparr>
               else entry)\<lparr>ca_inserted_at := now\<rparr>)"

definition merge_availability_missing_entry ::
    "u64 \<Rightarrow> u64 \<Rightarrow> CachedArticle option \<Rightarrow> AvailabilitySlot \<Rightarrow> CachedArticle" where
  "merge_availability_missing_entry now ttl maybe_entry slot =
     (case fresh_entry_for_mutation now ttl maybe_entry of
        Some entry \<Rightarrow> record_availability_missing now slot entry
      | None \<Rightarrow> record_availability_missing now slot (entry_missing now 0))"

section \<open>The cache\<close>

record 'c ArticleCache =
  ac_cache :: 'c
  ac_hits :: u64
  ac_misses :: u64
  ac_ttl_millis :: u64
  ac_layout :: AvailabilityLayout

definition availability_slot :: "'c ArticleCache \<Rightarrow> BackendId \<Rightarrow> AvailabilitySlot option" where
  "availability_slot cache b = slot_for_backend (ac_layout cache) b"

definition get_by_cache_key ::
    "'c moka_api \<Rightarrow> u64 \<Rightarrow> bytes \<Rightarrow> 'c ArticleCache \<Rightarrow> 'c ArticleCache \<times> CachedArticle option" where
  "get_by_cache_key K now key cache =
     (case moka_get K (ac_cache cache) key of
        Some entry \<Rightarrow>
          if \<not> entry_is_expired now (ac_ttl_millis cache) entry
          then (cache\<lparr>ac_hits := ac_hits cache + 1\<rparr>,
                Some (expire_stale_availability now (ac_ttl_millis cache) entry))
          else (cache\<lparr>ac_cache := moka_invalidate K (ac_cache cache) key,
                      ac_misses := ac_misses cache + 1\<rparr>, None)
      | None \<Rightarrow> (cache\<lparr>ac_misses := ac_misses cache + 1\<rparr>, None))"

definition upsert_cached_entry_for_slot ::
    "'c moka_api \<Rightarrow> u64 \<Rightarrow> bytes \<Rightarrow> CachedArticle \<Rightarrow> AvailabilitySlot \<Rightarrow> 'c ArticleCache \<Rightarrow> 'c ArticleCache" where
  "upsert_cached_entry_for_slot K now key template slot cache =
     cache\<lparr>ac_cache := fst (moka_upsert K (ac_cache cache) key
        (\<lambda>maybe_entry. merge_ingest_entry now (ac_ttl_millis cache) maybe_entry template slot))\<rparr>"

definition upsert_framed_ingest_for_slot ::
    "'c moka_api \<Rightarrow> memchr_api \<Rightarrow> u64 \<Rightarrow> bytes \<Rightarrow> FramedChunkedResponse \<Rightarrow> AvailabilitySlot \<Rightarrow> u8
       \<Rightarrow> 'c ArticleCache \<Rightarrow> 'c ArticleCache" where
  "upsert_framed_ingest_for_slot K M now key resp slot tier cache =
     upsert_cached_entry_for_slot K now key (from_framed_chunked_with_tier M now resp tier) slot cache"

definition record_has_status_for_slot ::
    "'c moka_api \<Rightarrow> u64 \<Rightarrow> bytes \<Rightarrow> StatusCode \<Rightarrow> AvailabilitySlot \<Rightarrow> u8 \<Rightarrow> 'c ArticleCache \<Rightarrow> 'c ArticleCache" where
  "record_has_status_for_slot K now key status_code slot tier cache =
     cache\<lparr>ac_cache := fst (moka_upsert K (ac_cache cache) key
        (\<lambda>maybe_entry. merge_backend_has_status_entry now (ac_ttl_millis cache) maybe_entry
            (availability_only now status_code tier) status_code slot tier))\<rparr>"

definition record_stat_for_slot ::
    "'c moka_api \<Rightarrow> u64 \<Rightarrow> bytes \<Rightarrow> AvailabilitySlot \<Rightarrow> u8 \<Rightarrow> 'c ArticleCache \<Rightarrow> 'c ArticleCache" where
  "record_stat_for_slot K now key slot tier cache =
     cache\<lparr>ac_cache := fst (moka_upsert K (ac_cache cache) key
        (\<lambda>maybe_entry. merge_backend_stat_entry now (ac_ttl_millis cache) maybe_entry
            (entry_stat now tier) slot))\<rparr>"

definition cache_record_availability_missing ::
    "'c moka_api \<Rightarrow> u64 \<Rightarrow> bytes \<Rightarrow> AvailabilitySlot \<Rightarrow> 'c ArticleCache \<Rightarrow> 'c ArticleCache" where
  "cache_record_availability_missing K now key slot cache =
     (let (c, is_fresh) = moka_upsert K (ac_cache cache) key
            (\<lambda>maybe_entry. merge_availability_missing_entry now (ac_ttl_millis cache) maybe_entry slot)
      in cache\<lparr>ac_cache := c,
               ac_misses := (if is_fresh then ac_misses cache + 1 else ac_misses cache)\<rparr>)"

definition cache_sync :: "'c moka_api \<Rightarrow> 'c ArticleCache \<Rightarrow> 'c ArticleCache" where
  "cache_sync K cache = cache\<lparr>ac_cache := moka_run_pending_tasks K (ac_cache cache)\<rparr>"

text \<open>The operations by backend look up its provider slot; \<open>None\<close> is the panic of the index.\<close>

definition upsert_framed_ingest ::
    "'c moka_api \<Rightarrow> memchr_api \<Rightarrow> u64 \<Rightarrow> bytes \<Rightarrow> FramedChunkedResponse \<Rightarrow> BackendId \<Rightarrow> u8
       \<Rightarrow> 'c ArticleCache \<Rightarrow> 'c ArticleCache option" where
  "upsert_framed_ingest K M now key resp b tier cache =
     map_option (\<lambda>slot. upsert_framed_ingest_for_slot K M now key resp slot tier cache)
       (availability_slot cache b)"

definition record_backend_has_status ::
    "'c moka_api \<Rightarrow> u64 \<Rightarrow> bytes \<Rightarrow> StatusCode \<Rightarrow> BackendId \<Rightarrow> u8 \<Rightarrow> 'c ArticleCache \<Rightarrow> 'c ArticleCache option" where
  "record_backend_has_status K now key status_code b tier cache =
     map_option (\<lambda>slot. record_has_status_for_slot K now key status_code slot tier cache)
       (availability_slot cache b)"

section \<open>A bounded reference cache\<close>

text \<open>
  An instance of the interface that keeps the most recently updated \<open>n\<close> entries.
\<close>

definition bounded_api :: "nat \<Rightarrow> (bytes \<times> CachedArticle) list moka_api" where
  "bounded_api n =
     \<lparr>moka_get = map_of,
      moka_upsert = (\<lambda>c k f. (take n ((k, f (map_of c k)) # AList.delete k c), True)),
      moka_invalidate = (\<lambda>c k. AList.delete k c),
      moka_run_pending_tasks = (\<lambda>c. c)\<rparr>"

lemma bounded_api_simps [simp]:
  "moka_get (bounded_api n) = map_of"
  "moka_upsert (bounded_api n) c k f = (take n ((k, f (map_of c k)) # AList.delete k c), True)"
  "moka_invalidate (bounded_api n) c k = AList.delete k c"
  "moka_run_pending_tasks (bounded_api n) c = c"
  by (simp_all add: bounded_api_def)

lemma map_of_take: "map_of (take n xs) k = Some v \<Longrightarrow> map_of xs k = Some v"
  by (metis append_take_drop_id map_add_find_right map_of_append map_add_Some_iff)

interpretation bounded: moka_lib "bounded_api n" for n
proof (unfold_locales, goal_cases)
  case (1 c k f e)
  then show ?case by (cases n) auto
next
  case (2 j k c f e)
  then have "map_of (AList.delete k c) j = Some e"
    using map_of_take [of n "(k, f (map_of c k)) # AList.delete k c" j e] by simp
  with 2 show ?case by (simp add: delete_conv)
qed (auto simp: delete_conv split: if_splits)

section \<open>Entry invariant\<close>

definition negative_ok :: "usize \<Rightarrow> (AvailabilitySlot \<times> u64) list \<Rightarrow> bool" where
  "negative_ok bits negative \<longleftrightarrow>
     distinct (map fst negative) \<and> (\<forall>s \<in> fst ` set negative. slot_index s < 64) \<and>
     (\<forall>n. bit bits n \<longleftrightarrow> AvailabilitySlot n \<in> fst ` set negative)"

fun payload_status_ok :: "CachedPayload \<Rightarrow> StatusCode \<Rightarrow> bool" where
  "payload_status_ok (ArticlePayload _ _ _) s \<longleftrightarrow> s = StatusCode 220"
| "payload_status_ok (HeadPayload _ _) s \<longleftrightarrow> s = StatusCode 221"
| "payload_status_ok (BodyPayload _ _) s \<longleftrightarrow> s = StatusCode 222"
| "payload_status_ok (StatPayload _) s \<longleftrightarrow> s = StatusCode 223"
| "payload_status_ok _ s \<longleftrightarrow> True"

definition entry_wf :: "CachedArticle \<Rightarrow> bool" where
  "entry_wf e \<longleftrightarrow>
     negative_ok (ca_missing e) (ca_negative_timestamps e) \<and>
     payload_status_ok (ca_payload e) (ca_status_code e)"

named_theorems entry_wf_intro

lemma negative_ok_Nil [simp]: "negative_ok 0 []"
  by (simp add: negative_ok_def)

text \<open>Expiry keeps exactly the negative facts that are not expired.\<close>

lemma expire_negative_eq:
  "expire_negative now ttl bits negative =
     (foldl (\<lambda>b (s, ts). if is_expired now ts ttl 0 then b AND NOT (slot_bit s) else b) bits negative,
      filter (\<lambda>(s, ts). \<not> is_expired now ts ttl 0) negative)"
  by (induction now ttl bits negative rule: expire_negative.induct) (auto simp: Let_def)

lemma bit_foldl_expire:
  "bit (foldl (\<lambda>b (s, ts). if P ts then b AND NOT (slot_bit s) else b) bits negative) n \<longleftrightarrow>
     bit bits n \<and> \<not> (\<exists>ts. (AvailabilitySlot n, ts) \<in> set negative \<and> P ts)"
proof (induction negative arbitrary: bits)
  case (Cons x negative)
  obtain s ts where x: "x = (s, ts)" by fastforce
  have b: "bit (bits AND NOT (slot_bit s)) n \<longleftrightarrow> bit bits n \<and> AvailabilitySlot n \<noteq> s"
    using bit_imp_le_length [of bits n]
    by (cases s) (auto simp: bit_and_iff bit_not_iff bit_slot_bit)
  show ?case unfolding x by (cases "P ts") (auto simp: Cons.IH b)
qed simp

lemma negative_ok_filter:
  assumes "negative_ok bits negative"
  shows "negative_ok (foldl (\<lambda>b (s, ts). if P ts then b AND NOT (slot_bit s) else b) bits negative)
           (filter (\<lambda>(s, ts). \<not> P ts) negative)"
proof -
  have d: "distinct (map fst negative)" using assms by (simp add: negative_ok_def)
  then have u: "ts = ts'" if "(s, ts) \<in> set negative" "(s, ts') \<in> set negative" for s ts ts'
    using that by (metis eq_key_imp_eq_value)
  have "bit (foldl (\<lambda>b (s, ts). if P ts then b AND NOT (slot_bit s) else b) bits negative) n \<longleftrightarrow>
      AvailabilitySlot n \<in> fst ` set (filter (\<lambda>(s, ts). \<not> P ts) negative)" for n
  proof -
    have "bit bits n \<longleftrightarrow> (\<exists>ts. (AvailabilitySlot n, ts) \<in> set negative)"
      using assms by (force simp: negative_ok_def)
    moreover have "AvailabilitySlot n \<in> fst ` set (filter (\<lambda>(s, ts). \<not> P ts) negative) \<longleftrightarrow>
        (\<exists>ts. (AvailabilitySlot n, ts) \<in> set negative \<and> \<not> P ts)" by force
    ultimately show ?thesis using u unfolding bit_foldl_expire by blast
  qed
  moreover have "distinct (map fst (filter (\<lambda>(s, ts). \<not> P ts) negative))"
    using d by (rule distinct_map_filter)
  ultimately show ?thesis using assms by (auto simp: negative_ok_def)
qed

lemma entry_wf_expire [entry_wf_intro]: "entry_wf e \<Longrightarrow> entry_wf (expire_stale_availability now ttl e)"
  by (simp add: entry_wf_def expire_stale_availability_def expire_negative_eq negative_ok_filter)

lemma set_timestamp_fst:
  "fst ` set (set_timestamp s now negative) = insert s (fst ` set negative)"
  "distinct (map fst negative) \<Longrightarrow> distinct (map fst (set_timestamp s now negative))"
  by (induction s now negative rule: set_timestamp.induct) (auto simp: image_iff)

lemma entry_wf_record_missing [entry_wf_intro]:
  assumes "entry_wf e" "slot_index s < 64"
  shows "entry_wf (record_availability_missing now s e)"
proof -
  have "bit (record_missing_slot (ca_missing e) s) n \<longleftrightarrow>
      AvailabilitySlot n \<in> insert s (fst ` set (ca_negative_timestamps e))" for n
    using assms
    by (cases s) (auto simp: entry_wf_def negative_ok_def record_missing_slot_def bit_or_iff bit_slot_bit)
  with assms show ?thesis
    by (auto simp: entry_wf_def negative_ok_def record_availability_missing_def set_timestamp_fst)
qed

lemma entry_wf_new [entry_wf_intro]: "payload_status_ok p s \<Longrightarrow> entry_wf (new_entry s p tier now)"
  by (simp add: entry_wf_def new_entry_def)

lemma payload_status_parse:
  "payload_status_ok (payload_for_status M (into_inner s) n p) s"
  "payload_status_ok (payload_for_status_owned M (into_inner s) n p) s"
  by (cases s; auto simp: payload_for_status_def payload_for_status_owned_def Let_def split: option.splits)+

lemma entry_wf_framed [entry_wf_intro]: "entry_wf (from_framed_chunked_with_tier M now r tier)"
  unfolding from_framed_chunked_with_tier_def
  by (rule entry_wf_new)
    (cases "fc_status r"; auto simp: parse_framed_chunked_payload_def Let_def payload_status_parse(2)
      [of M "StatusCode _", simplified])

lemma entry_wf_contiguous [entry_wf_intro]: "entry_wf (from_contiguous_ingest_with_tier M t now r tier)"
proof -
  have "payload_status_ok (parse_payload M t s r) s" for s
    using payload_status_parse(1) [of M s]
    by (cases s) (auto simp: parse_payload_def Let_def split: option.splits)
  then show ?thesis by (auto simp: from_contiguous_ingest_with_tier_def Let_def intro: entry_wf_new)
qed

lemma entry_wf_basic [entry_wf_intro]:
  "entry_wf (availability_only now s tier)" "entry_wf (entry_stat now tier)" "entry_wf (entry_missing now tier)"
  by (simp_all add: availability_only_def entry_stat_def entry_missing_def entry_wf_new)

lemma entry_wf_fresh [entry_wf_intro]:
  "(\<And>e. maybe = Some e \<Longrightarrow> entry_wf e) \<Longrightarrow> fresh_entry_for_mutation now ttl maybe = Some e' \<Longrightarrow> entry_wf e'"
  by (auto simp: fresh_entry_for_mutation_def Let_def entry_wf_expire split: option.splits if_splits)

lemma entry_wf_merge_sections [entry_wf_intro]:
  "entry_wf e \<Longrightarrow> merge_compatible_sections now e other = Some e' \<Longrightarrow> entry_wf e'"
  by (auto simp: merge_compatible_sections_def entry_wf_def split: CachedPayload.splits)

definition replace_payload :: "u64 \<Rightarrow> CachedArticle \<Rightarrow> CachedArticle \<Rightarrow> CachedArticle" where
  "replace_payload now entry template =
     entry\<lparr>ca_status_code := ca_status_code template, ca_payload := ca_payload template,
           ca_tier := ca_tier template, ca_inserted_at := now\<rparr>"

lemma merge_ingest_cases:
  "(fresh_entry_for_mutation now ttl maybe = None \<and> merge_ingest_entry now ttl maybe template slot = template) \<or>
   (\<exists>e. fresh_entry_for_mutation now ttl maybe = Some e \<and>
        (merge_ingest_entry now ttl maybe template slot = e \<or>
         merge_compatible_sections now e template = Some (merge_ingest_entry now ttl maybe template slot) \<or>
         merge_ingest_entry now ttl maybe template slot = replace_payload now e template))"
  unfolding merge_ingest_entry_def replace_payload_def Let_def by (auto split: option.splits)

lemma entry_wf_replace: "entry_wf e \<Longrightarrow> entry_wf template \<Longrightarrow> entry_wf (replace_payload now e template)"
  by (simp add: entry_wf_def replace_payload_def)

lemma entry_wf_merges [entry_wf_intro]:
  assumes "\<And>e. maybe = Some e \<Longrightarrow> entry_wf e"
  shows "entry_wf template \<Longrightarrow> entry_wf (merge_ingest_entry now ttl maybe template slot)"
    and "entry_wf template \<Longrightarrow> entry_wf (merge_backend_has_status_entry now ttl maybe template s slot tier)"
    and "entry_wf template \<Longrightarrow> entry_wf (merge_backend_stat_entry now ttl maybe template slot)"
    and "slot_index slot < 64 \<Longrightarrow> entry_wf (merge_availability_missing_entry now ttl maybe slot)"
proof -
  have f: "entry_wf e" if "fresh_entry_for_mutation now ttl maybe = Some e" for e
    using entry_wf_fresh [OF assms that] .
  show "entry_wf (merge_ingest_entry now ttl maybe template slot)" if "entry_wf template"
    using that merge_ingest_cases [of now ttl maybe template slot] f entry_wf_merge_sections
    by (metis entry_wf_replace)
  show "entry_wf (merge_backend_has_status_entry now ttl maybe template s slot tier)" if "entry_wf template"
    using that f by (fastforce simp: merge_backend_has_status_entry_def Let_def entry_wf_def split: option.splits)
  show "entry_wf (merge_backend_stat_entry now ttl maybe template slot)" if "entry_wf template"
    using that f by (fastforce simp: merge_backend_stat_entry_def Let_def entry_wf_def split: option.splits)
  show "entry_wf (merge_availability_missing_entry now ttl maybe slot)" if "slot_index slot < 64"
    using that f by (auto simp: merge_availability_missing_entry_def intro: entry_wf_intro split: option.splits)
qed

section \<open>Executions of the cache\<close>

datatype cache_op =
    OpGet bytes
  | OpIngest bytes FramedChunkedResponse AvailabilitySlot u8
  | OpHas bytes StatusCode AvailabilitySlot u8
  | OpStat bytes AvailabilitySlot u8
  | OpMissing bytes AvailabilitySlot
  | OpSync

fun cache_step ::
    "'c moka_api \<Rightarrow> memchr_api \<Rightarrow> 'c ArticleCache \<Rightarrow> u64 \<times> cache_op \<Rightarrow> 'c ArticleCache" where
  "cache_step K M c (now, OpGet key) = fst (get_by_cache_key K now key c)"
| "cache_step K M c (now, OpIngest key r slot tier) = upsert_framed_ingest_for_slot K M now key r slot tier c"
| "cache_step K M c (now, OpHas key s slot tier) = record_has_status_for_slot K now key s slot tier c"
| "cache_step K M c (now, OpStat key slot tier) = record_stat_for_slot K now key slot tier c"
| "cache_step K M c (now, OpMissing key slot) = cache_record_availability_missing K now key slot c"
| "cache_step K M c (now, OpSync) = cache_sync K c"

definition cache_run ::
    "'c moka_api \<Rightarrow> memchr_api \<Rightarrow> 'c ArticleCache \<Rightarrow> (u64 \<times> cache_op) list \<Rightarrow> 'c ArticleCache" where
  "cache_run K M c ops = foldl (cache_step K M) c ops"

fun op_ok :: "u64 \<times> cache_op \<Rightarrow> bool" where
  "op_ok (_, OpMissing _ slot) \<longleftrightarrow> slot_index slot < 64"
| "op_ok _ \<longleftrightarrow> True"

text \<open>Where the contents of an entry come from.\<close>

fun payload_headers :: "CachedPayload \<Rightarrow> bytes set" where
  "payload_headers (ArticlePayload _ h _) = {h}"
| "payload_headers (HeadPayload _ h) = {h}"
| "payload_headers _ = {}"

fun payload_bodies :: "CachedPayload \<Rightarrow> bytes set" where
  "payload_bodies (ArticlePayload _ _ b) = {b}"
| "payload_bodies (BodyPayload _ b) = {b}"
| "payload_bodies _ = {}"

definition ingested :: "memchr_api \<Rightarrow> (u64 \<times> cache_op) list \<Rightarrow> bytes \<Rightarrow> CachedPayload set" where
  "ingested M ops key =
     {ca_payload (from_framed_chunked_with_tier M now r tier) | now r slot tier.
        (now, OpIngest key r slot tier) \<in> set ops}"

definition sections_from :: "CachedPayload set \<Rightarrow> CachedPayload \<Rightarrow> bool" where
  "sections_from P p \<longleftrightarrow>
     payload_headers p \<subseteq> \<Union> (payload_headers ` P) \<and> payload_bodies p \<subseteq> \<Union> (payload_bodies ` P)"

definition entry_from :: "memchr_api \<Rightarrow> (u64 \<times> cache_op) list \<Rightarrow> bytes \<Rightarrow> CachedArticle \<Rightarrow> bool" where
  "entry_from M ops key e \<longleftrightarrow>
     entry_wf e \<and> sections_from (ingested M ops key) (ca_payload e) \<and>
     (\<forall>(s, ts) \<in> set (ca_negative_timestamps e). (ts, OpMissing key s) \<in> set ops)"

lemma sections_from_mono: "P \<subseteq> Q \<Longrightarrow> sections_from P p \<Longrightarrow> sections_from Q p"
  unfolding sections_from_def by blast

lemma sections_from_simps [simp]:
  "sections_from P MissingPayload" "sections_from P AvailabilityOnly" "sections_from P (StatPayload n)"
  by (simp_all add: sections_from_def)

lemma sections_from_self: "p \<in> P \<Longrightarrow> sections_from P p"
  unfolding sections_from_def by blast

lemma entry_from_mono: "set ops \<subseteq> set ops' \<Longrightarrow> entry_from M ops key e \<Longrightarrow> entry_from M ops' key e"
  using sections_from_mono [of "ingested M ops key" "ingested M ops' key"]
  by (force simp: entry_from_def ingested_def)

lemma entry_from_fresh:
  "(\<And>e. maybe = Some e \<Longrightarrow> entry_from M ops key e) \<Longrightarrow>
     fresh_entry_for_mutation now ttl maybe = Some e' \<Longrightarrow> entry_from M ops key e'"
  by (auto simp: fresh_entry_for_mutation_def Let_def entry_from_def expire_stale_availability_def
      expire_negative_eq entry_wf_expire split: option.splits if_splits)
    (use entry_wf_expire in \<open>force simp: expire_stale_availability_def expire_negative_eq Let_def\<close>)

lemma entry_from_replace:
  "entry_from M ops key e \<Longrightarrow> entry_wf template \<Longrightarrow>
     sections_from (ingested M ops key) (ca_payload template) \<Longrightarrow>
     entry_from M ops key (replace_payload now e template)"
  by (simp add: entry_from_def entry_wf_replace) (simp add: replace_payload_def)

lemma sections_from_merge:
  "sections_from P (ca_payload e) \<Longrightarrow> sections_from P (ca_payload t) \<Longrightarrow>
     merge_compatible_sections now e t = Some e' \<Longrightarrow> sections_from P (ca_payload e')"
  by (auto simp: merge_compatible_sections_def sections_from_def split: CachedPayload.splits)

lemma merge_sections_negative:
  "merge_compatible_sections now e t = Some e' \<Longrightarrow> ca_negative_timestamps e' = ca_negative_timestamps e"
  by (auto simp: merge_compatible_sections_def)

lemma entry_from_ingest:
  assumes "\<And>e. maybe = Some e \<Longrightarrow> entry_from M ops key e"
    and "entry_wf template" "sections_from (ingested M ops key) (ca_payload template)"
    and "ca_negative_timestamps template = []"
  shows "entry_from M ops key (merge_ingest_entry now ttl maybe template slot)"
proof -
  let ?r = "merge_ingest_entry now ttl maybe template slot"
  consider "?r = template"
    | e where "fresh_entry_for_mutation now ttl maybe = Some e" "?r = e"
    | e where "fresh_entry_for_mutation now ttl maybe = Some e"
        "merge_compatible_sections now e template = Some ?r"
    | e where "fresh_entry_for_mutation now ttl maybe = Some e" "?r = replace_payload now e template"
    using merge_ingest_cases [of now ttl maybe template slot] by blast
  then show ?thesis
  proof cases
    case 1
    then show ?thesis using assms(2-4) by (simp add: entry_from_def)
  next
    case (2 e)
    then show ?thesis using entry_from_fresh [OF assms(1)] by simp
  next
    case (3 e)
    then have e: "entry_from M ops key e" using entry_from_fresh [OF assms(1)] by simp
    then show ?thesis
      using 3 assms(3) entry_wf_merge_sections [of e] sections_from_merge [of _ e template]
        merge_sections_negative [of now e template ?r]
      by (auto simp: entry_from_def)
  next
    case (4 e)
    then have "entry_from M ops key e" using entry_from_fresh [OF assms(1)] by simp
    then show ?thesis using 4 assms(2,3) by (simp add: entry_from_replace)
  qed
qed

lemma entry_from_has:
  assumes "\<And>e. maybe = Some e \<Longrightarrow> entry_from M ops key e"
  shows "entry_from M ops key
    (merge_backend_has_status_entry now ttl maybe (availability_only now s tier) s slot tier)"
proof (cases "fresh_entry_for_mutation now ttl maybe")
  case None
  then show ?thesis
    by (auto simp: merge_backend_has_status_entry_def entry_from_def entry_wf_def
        availability_only_def new_entry_def Let_def)
next
  case (Some e)
  then have "entry_from M ops key e" using entry_from_fresh [OF assms] by simp
  with Some show ?thesis
    by (auto simp: merge_backend_has_status_entry_def entry_from_def entry_wf_def Let_def)
qed

lemma entry_from_stat:
  assumes "\<And>e. maybe = Some e \<Longrightarrow> entry_from M ops key e"
  shows "entry_from M ops key (merge_backend_stat_entry now ttl maybe (entry_stat now tier) slot)"
proof (cases "fresh_entry_for_mutation now ttl maybe")
  case None
  then show ?thesis
    by (auto simp: merge_backend_stat_entry_def entry_from_def entry_wf_def entry_stat_def
        new_entry_def Let_def)
next
  case (Some e)
  then have "entry_from M ops key e" using entry_from_fresh [OF assms] by simp
  with Some show ?thesis
    by (auto simp: merge_backend_stat_entry_def entry_from_def entry_wf_def entry_stat_def
        new_entry_def Let_def)
qed

lemma set_timestamp_subset:
  "set (set_timestamp s now negative) \<subseteq> insert (s, now) (set negative)"
  by (induction s now negative rule: set_timestamp.induct) auto

lemma entry_from_missing:
  assumes "\<And>e. maybe = Some e \<Longrightarrow> entry_from M ops key e" "slot_index slot < 64"
    and "(now, OpMissing key slot) \<in> set ops"
  shows "entry_from M ops key (merge_availability_missing_entry now ttl maybe slot)"
proof -
  have "entry_from M ops key (record_availability_missing now slot e)" if "entry_from M ops key e" for e
  proof -
    have "entry_wf (record_availability_missing now slot e)"
      using that assms(2) by (auto simp: entry_from_def intro: entry_wf_intro)
    then show ?thesis
      using that assms(3) set_timestamp_subset [of slot now "ca_negative_timestamps e"]
      by (auto simp: entry_from_def record_availability_missing_def)
  qed
  moreover have "entry_from M ops key (entry_missing now 0)"
    by (simp add: entry_from_def entry_wf_basic) (simp add: entry_missing_def new_entry_def)
  ultimately show ?thesis
    using entry_from_fresh [OF assms(1)]
    by (auto simp: merge_availability_missing_entry_def split: option.splits)
qed

definition cache_inv :: "'c moka_api \<Rightarrow> memchr_api \<Rightarrow> (u64 \<times> cache_op) list \<Rightarrow> 'c ArticleCache \<Rightarrow> bool" where
  "cache_inv K M ops c \<longleftrightarrow>
     (\<forall>key e. moka_get K (ac_cache c) key = Some e \<longrightarrow> entry_from M ops key e)"

context moka_lib
begin

lemma cache_inv_upsert:
  assumes "\<And>key e. moka_get K c key = Some e \<Longrightarrow> entry_from M ops key e"
    and "\<And>maybe. (\<And>e. maybe = Some e \<Longrightarrow> entry_from M ops k e) \<Longrightarrow> entry_from M ops k (f maybe)"
    and "moka_get K (fst (moka_upsert K c k f)) key = Some e"
  shows "entry_from M ops key e"
proof (cases "key = k")
  case True
  then have "e = f None \<or> e = f (moka_get K c k)" using assms(3) upsert_same by blast
  then show ?thesis using True assms(1,2) by auto
next
  case False
  then show ?thesis using assms(1,3) upsert_other by blast
qed

lemma cache_inv_upsertI:
  assumes "\<And>key e. moka_get K (ac_cache c) key = Some e \<Longrightarrow> entry_from M ops key e"
    and "\<And>maybe. (\<And>e. maybe = Some e \<Longrightarrow> entry_from M ops k e) \<Longrightarrow> entry_from M ops k (f maybe)"
    and "ac_cache c' = fst (moka_upsert K (ac_cache c) k f)"
  shows "cache_inv K M ops c'"
  unfolding cache_inv_def assms(3)
proof (intro allI impI)
  fix key e assume "moka_get K (fst (moka_upsert K (ac_cache c) k f)) key = Some e"
  with assms(1,2) show "entry_from M ops key e" by (rule cache_inv_upsert)
qed

lemma cache_step_inv:
  assumes "cache_inv K M ops c" "op_ok op"
  shows "cache_inv K M (ops @ [op]) (cache_step K M c op)"
proof -
  have old: "entry_from M (ops @ [op]) key e" if "moka_get K (ac_cache c) key = Some e" for key e
  proof (rule entry_from_mono)
    show "set ops \<subseteq> set (ops @ [op])" by auto
    show "entry_from M ops key e" using that assms(1) by (simp add: cache_inv_def)
  qed
  obtain now o' where op: "op = (now, o')" by (cases op)
  show ?thesis
  proof (cases o')
    case (OpGet key)
    have "moka_get K (ac_cache c) k = Some e"
      if "moka_get K (ac_cache (cache_step K M c op)) k = Some e" for k e
      using that by (auto simp: op OpGet get_by_cache_key_def dest: invalidate_other
          split: option.splits if_splits)
    then show ?thesis using old unfolding cache_inv_def by blast
  next
    case (OpIngest key r slot tier)
    let ?t = "from_framed_chunked_with_tier M now r tier"
    have "sections_from (ingested M (ops @ [op]) key) (ca_payload ?t)"
      by (rule sections_from_self) (auto simp: ingested_def op OpIngest)
    then have m: "entry_from M (ops @ [op]) key (merge_ingest_entry now ttl maybe ?t slot)"
      if "\<And>e. maybe = Some e \<Longrightarrow> entry_from M (ops @ [op]) key e" for ttl maybe
      using that by (intro entry_from_ingest entry_wf_framed)
        (simp_all add: from_framed_chunked_with_tier_def new_entry_def)
    show ?thesis
    proof (rule cache_inv_upsertI)
      show "ac_cache (cache_step K M c op) = fst (moka_upsert K (ac_cache c) key
             (\<lambda>maybe. merge_ingest_entry now (ac_ttl_millis c) maybe ?t slot))"
        by (simp add: op OpIngest upsert_framed_ingest_for_slot_def upsert_cached_entry_for_slot_def)
    qed (rule old, assumption, rule m)
  next
    case (OpHas key s slot tier)
    show ?thesis
    proof (rule cache_inv_upsertI)
      show "ac_cache (cache_step K M c op) = fst (moka_upsert K (ac_cache c) key
             (\<lambda>maybe. merge_backend_has_status_entry now (ac_ttl_millis c) maybe
                (availability_only now s tier) s slot tier))"
        by (simp add: op OpHas record_has_status_for_slot_def)
    qed (rule old, assumption, rule entry_from_has)
  next
    case (OpStat key slot tier)
    show ?thesis
    proof (rule cache_inv_upsertI)
      show "ac_cache (cache_step K M c op) = fst (moka_upsert K (ac_cache c) key
             (\<lambda>maybe. merge_backend_stat_entry now (ac_ttl_millis c) maybe
                (entry_stat now tier) slot))"
        by (simp add: op OpStat record_stat_for_slot_def)
    qed (rule old, assumption, rule entry_from_stat)
  next
    case (OpMissing key slot)
    have m: "entry_from M (ops @ [op]) key (merge_availability_missing_entry now ttl maybe slot)"
      if "\<And>e. maybe = Some e \<Longrightarrow> entry_from M (ops @ [op]) key e" for ttl maybe
      using that assms(2) by (intro entry_from_missing) (simp_all add: op OpMissing)
    show ?thesis
    proof (rule cache_inv_upsertI)
      show "ac_cache (cache_step K M c op) = fst (moka_upsert K (ac_cache c) key
             (\<lambda>maybe. merge_availability_missing_entry now (ac_ttl_millis c) maybe slot))"
        by (simp add: op OpMissing cache_record_availability_missing_def Let_def case_prod_beta)
    qed (rule old, assumption, rule m)
  next
    case OpSync
    then have "ac_cache (cache_step K M c op) = moka_run_pending_tasks K (ac_cache c)"
      by (simp add: op cache_sync_def)
    then show ?thesis unfolding cache_inv_def using old pending_tasks by metis
  qed
qed

lemma cache_run_inv:
  assumes "\<forall>key. moka_get K (ac_cache c) key = None" "\<forall>op \<in> set ops. op_ok op"
  shows "cache_inv K M ops (cache_run K M c ops)"
  using assms(2)
proof (induction ops rule: rev_induct)
  case Nil
  then show ?case using assms(1) by (simp add: cache_inv_def cache_run_def)
next
  case (snoc op ops)
  then show ?case using cache_step_inv [of M ops "cache_run K M c ops" op] by (simp add: cache_run_def)
qed

end

lemma expire_stale_fields [simp]:
  "ca_payload (expire_stale_availability now ttl e) = ca_payload e"
  "ca_tier (expire_stale_availability now ttl e) = ca_tier e"
  "ca_inserted_at (expire_stale_availability now ttl e) = ca_inserted_at e"
  "ca_negative_timestamps (expire_stale_availability now ttl e) =
     filter (\<lambda>(s, ts). \<not> is_expired now ts ttl 0) (ca_negative_timestamps e)"
  by (simp_all add: expire_stale_availability_def expire_negative_eq)

text \<open>
  C6. Soundness of the article cache over every sequence of operations, whatever the cache evicts: an
  entry that a lookup returns is well formed and not expired; its header and body sections were
  captured, under the same key, from backend responses (never mixed between articles); and every
  provider slot it marks as missing answered 430 for this article within the base time to live.
\<close>

theorem cache_sound:
  assumes "moka_lib K" "\<forall>key. moka_get K (ac_cache c) key = None" "\<forall>op \<in> set ops. op_ok op"
    and "get_by_cache_key K now key (cache_run K M c ops) = (c', Some e)"
    and "ttl = ac_ttl_millis (cache_run K M c ops)"
  shows "entry_wf e \<and> \<not> entry_is_expired now ttl e \<and> sections_from (ingested M ops key) (ca_payload e) \<and>
     (\<forall>n. bit (ca_missing e) n \<longrightarrow>
        (\<exists>ts. (ts, OpMissing key (AvailabilitySlot n)) \<in> set ops \<and> \<not> is_expired now ts ttl 0))"
proof -
  obtain e0 where e0: "moka_get K (ac_cache (cache_run K M c ops)) key = Some e0"
    "\<not> entry_is_expired now ttl e0" "e = expire_stale_availability now ttl e0"
    using assms(4,5) by (auto simp: get_by_cache_key_def split: option.splits if_splits)
  have f: "entry_from M ops key e0"
    using moka_lib.cache_run_inv [OF assms(1-3), of M] e0(1) by (simp add: cache_inv_def)
  then have wf: "entry_wf e" using e0(3) by (auto simp: entry_from_def intro: entry_wf_intro)
  have "\<exists>ts. (ts, OpMissing key (AvailabilitySlot n)) \<in> set ops \<and> \<not> is_expired now ts ttl 0"
    if "bit (ca_missing e) n" for n
  proof -
    from that wf obtain ts where "(AvailabilitySlot n, ts) \<in> set (ca_negative_timestamps e)"
      by (force simp: entry_wf_def negative_ok_def)
    with f e0(3) show ?thesis by (auto simp: entry_from_def)
  qed
  with wf f e0 show ?thesis by (simp add: entry_from_def entry_is_expired_def)
qed

definition example_cache :: "(bytes \<times> CachedArticle) list ArticleCache" where
  "example_cache = \<lparr>ac_cache = [], ac_hits = 0, ac_misses = 0, ac_ttl_millis = 100,
     ac_layout = \<lparr>al_backend_slots = [], al_identities = [], al_mask = 0, al_epoch = Derived\<rparr>\<rparr>"

theorem cache_sound_witness:
  "\<exists>c' e. get_by_cache_key (bounded_api 4) 5 ''a@b''
      (cache_run (bounded_api 4) memchr_ref example_cache [(2, OpMissing ''a@b'' (AvailabilitySlot 3))])
      = (c', Some e) \<and> bit (ca_missing e) 3 \<and> entry_wf e \<and> \<not> entry_is_expired 5 100 e"
proof -
  let ?ops = "[(2, OpMissing ''a@b'' (AvailabilitySlot 3))] :: (u64 \<times> cache_op) list"
  let ?c = "cache_run (bounded_api 4) memchr_ref example_cache ?ops"
  have "\<exists>c' e. get_by_cache_key (bounded_api 4) 5 ''a@b'' ?c = (c', Some e) \<and> bit (ca_missing e) 3"
    by (simp add: cache_run_def cache_record_availability_missing_def example_cache_def
        get_by_cache_key_def merge_availability_missing_entry_def fresh_entry_for_mutation_def
        entry_missing_def new_entry_def record_availability_missing_def record_missing_slot_def
        entry_is_expired_def is_expired_iff expire_stale_availability_def slot_bit_def bit_simps)
  then obtain c' e where g: "get_by_cache_key (bounded_api 4) 5 ''a@b'' ?c = (c', Some e)" "bit (ca_missing e) 3"
    by blast
  have t: "100 = ac_ttl_millis ?c"
    by (simp add: cache_run_def cache_record_availability_missing_def example_cache_def)
  have p: "\<forall>key. moka_get (bounded_api 4) (ac_cache example_cache) key = None"
    by (simp add: example_cache_def)
  have q: "\<forall>op \<in> set ?ops. op_ok op" by simp
  show ?thesis using g cache_sound [OF bounded.moka_lib_axioms p q g(1) t] by blast
qed

section \<open>Merging never forgets an answer\<close>

fun empty_article :: "CachedPayload \<Rightarrow> bool" where
  "empty_article (ArticlePayload _ h b) \<longleftrightarrow> h = [] \<and> b = []"
| "empty_article _ \<longleftrightarrow> False"

lemma is_complete_article_iff:
  "entry_wf e \<Longrightarrow> \<not> empty_article (ca_payload e) \<Longrightarrow>
     is_complete_article e \<longleftrightarrow> (\<exists>n h b. ca_payload e = ArticlePayload n h b)"
  by (cases "ca_payload e") (auto simp: entry_wf_def is_complete_article_def)

definition can_answer :: "CachedPayload \<Rightarrow> RequestKind \<Rightarrow> bool" where
  "can_answer p kind \<longleftrightarrow>
     (case kind of
        Article \<Rightarrow> answer_bits p AND 1 \<noteq> 0 | Head \<Rightarrow> answer_bits p AND 2 \<noteq> 0
      | Body \<Rightarrow> answer_bits p AND 4 \<noteq> 0 | Stat \<Rightarrow> answer_bits p AND 8 \<noteq> 0 | _ \<Rightarrow> False)"

lemma cached_response_iff:
  assumes "length mid \<le> 250"
  shows "cached_response_for_payload p kind mid \<noteq> None \<longleftrightarrow> can_answer p kind"
  using assms
  by (cases kind; cases p)
    (simp_all add: cached_response_for_payload_def can_answer_def status_line_new_eq)

lemma merge_sections_missing:
  "merge_compatible_sections now e t = Some e' \<Longrightarrow> ca_missing e' = ca_missing e"
  by (auto simp: merge_compatible_sections_def)

lemma merge_answers:
  assumes "entry_wf e" "entry_wf t" "\<not> empty_article (ca_payload e)" "\<not> empty_article (ca_payload t)"
    and "fresh_entry_for_mutation now ttl maybe = Some e" "\<not> is_missing_slot (ca_missing e) slot"
    and "can_answer (ca_payload e) kind \<or> can_answer (ca_payload t) kind"
  shows "can_answer (ca_payload (merge_ingest_entry now ttl maybe t slot)) kind"
proof -
  let ?r = "merge_ingest_entry now ttl maybe t slot"
  have "(answer_bits (ca_payload e) OR answer_bits (ca_payload t)) AND answer_bits (ca_payload ?r) =
      answer_bits (ca_payload e) OR answer_bits (ca_payload t)"
    using assms(5,6) is_complete_article_iff [OF assms(1,3)] is_complete_article_iff [OF assms(2,4)]
    by (cases "ca_payload e"; cases "ca_payload t")
      (simp_all add: merge_ingest_entry_def merge_compatible_sections_def keep_same_completeness_def
        strictly_more_useful_than_def)
  then have "bit (answer_bits (ca_payload e)) n \<or> bit (answer_bits (ca_payload t)) n \<Longrightarrow>
      bit (answer_bits (ca_payload ?r)) n" for n
    by (metis bit_and_iff bit_or_iff)
  moreover have "w AND 1 \<noteq> 0 \<longleftrightarrow> bit w 0" "w AND 2 \<noteq> 0 \<longleftrightarrow> bit w 1" "w AND 4 \<noteq> 0 \<longleftrightarrow> bit w 2"
    "w AND 8 \<noteq> 0 \<longleftrightarrow> bit w 3" for w :: u8
    by (simp_all add: and_exp_eq_0_iff_not_bit [of w 0, simplified] and_exp_eq_0_iff_not_bit [of w 1, simplified]
        and_exp_eq_0_iff_not_bit [of w 2, simplified] and_exp_eq_0_iff_not_bit [of w 3, simplified])
  ultimately show ?thesis
    using assms(7) by (cases kind) (auto simp: can_answer_def)
qed



end
