(* ===== verification/Exchange.thy ===== *)
theory Exchange
  imports Forward Router Cache Command
begin

text \<open>
  One exchange with a backend and its consequences in the session: \<open>BackendResponseExchange\<close> of
  \<open>src/src/session/multiline_framing.rs\<close>, \<open>execute_request_exchange\<close> of
  \<open>src/src/session/backend.rs\<close>, the cache policy of \<open>src/src/session/routing/cache_policy.rs\<close>, the
  cache updates of \<open>src/src/session/handlers/cache_operations.rs\<close> and the writing of a response in
  \<open>src/src/session/handlers/command_execution.rs\<close>. Background tasks are recorded in a log of effects,
  in the order in which they are spawned. Metrics and log lines are left out.
\<close>

section \<open>What surrounds a session\<close>

text \<open>
  Connection pools, sockets and the other sessions are a parameter: \<open>wd_checkout\<close> is a checkout from
  the pool of a backend, \<open>wd_alive\<close> the probe of a socket, \<open>wd_status\<close> the counts of a pool,
  \<open>wd_permit\<close> whether a permit of the cache update queue is free, \<open>wd_others\<close> what other sessions do to
  the router while this one selects a backend, \<open>wd_order\<close> the order in which concurrent probes end, and
  \<open>wd_send\<close> the write half of a backend connection.
\<close>

record ('e, 'b) world =
  wd_checkout :: "BackendId \<Rightarrow> 'e \<Rightarrow> 'e \<times> (unit + ConnectionStream \<times> 'b)"
  wd_alive :: "ConnectionStream \<Rightarrow> 'b \<Rightarrow> 'e \<Rightarrow> 'e \<times> bool"
  wd_status :: "BackendId \<Rightarrow> 'e \<Rightarrow> PoolStatus"
  wd_permit :: "'e \<Rightarrow> 'e \<times> bool"
  wd_others :: "'e \<Rightarrow> 'e \<times> (BackendSelector \<Rightarrow> BackendSelector) list"
  wd_order :: "'e \<Rightarrow> 'e \<times> nat list"
  wd_send :: "'b writer_api"

datatype UnifiedCacheKind = AvailabilityKind | MemoryKind | HybridKind

datatype CachePayloadPolicy = AvailabilityOnly | StoreBodies

definition stores_payloads :: "CachePayloadPolicy \<Rightarrow> bool" where
  "stores_payloads p \<longleftrightarrow> p = StoreBodies"

definition payload_policy :: "UnifiedCacheKind \<Rightarrow> CachePayloadPolicy" where
  "payload_policy kind =
     (case kind of AvailabilityKind \<Rightarrow> AvailabilityOnly | MemoryKind \<Rightarrow> StoreBodies | HybridKind \<Rightarrow> StoreBodies)"

definition stores_payload_responses :: "UnifiedCacheKind \<Rightarrow> bool" where
  "stores_payload_responses kind = stores_payloads (payload_policy kind)"

definition records_backend_has_status :: "UnifiedCacheKind \<Rightarrow> bool" where
  "records_backend_has_status kind \<longleftrightarrow> kind \<noteq> AvailabilityKind"

text \<open>The settings of a session: its buffers, its cache, and which providers allow STAT probes.\<close>

record session_env =
  se_transfer :: transfer_env
  se_cache :: UnifiedCacheKind
  se_stat_missing :: "BackendId \<Rightarrow> bool"

abbreviation se_exchange :: "session_env \<Rightarrow> BackendId \<Rightarrow> transfer_env" where
  "se_exchange S i \<equiv> (se_transfer S)\<lparr>te_backend_id := i\<rparr>"

abbreviation se_memchr :: "session_env \<Rightarrow> memchr_api" where
  "se_memchr S \<equiv> te_memchr (se_transfer S)"

datatype CacheTask =
    UpsertFramed MessageId FramedChunkedResponse BackendId u8
  | RecordHasStatus MessageId StatusCode BackendId u8
  | RecordStat MessageId BackendId u8
  | RecordMissing MessageId AvailabilitySlot

text \<open>
  The effects of a session outside its client connection. \<open>Answered i request D\<close> says that the request
  was sent to backend \<open>i\<close> and that its answer starts the unread input \<open>D\<close> of the connection.
\<close>

datatype Effect =
    ConnectionFate BackendId GuardFate
  | SalvageStarted BackendId ConnectionStream
  | Answered BackendId RequestContext bytes
  | MissingRecorded BackendId AvailabilitySlot
  | CacheUpdate CacheTask
  | PrefetchSpawned "BackendId list"

record 'b BackendConn =
  bk_guard :: ConnectionGuard
  bk_writer :: 'b

text \<open>
  The state of a session while it serves a request: \<open>RequestExecutionIo\<close> and \<open>ArticleAttemptState\<close> with
  the router and what surrounds the session.
\<close>

record ('e, 'b, 'w) session_state =
  ss_env :: 'e
  ss_writer :: 'w
  ss_router :: BackendSelector
  ss_availability :: usize
  ss_unavailable :: usize
  ss_lease :: "(BackendId \<times> 'b BackendConn) option"
  ss_client_to_backend :: nat
  ss_backend_to_client :: nat
  ss_log :: "Effect list"

definition emit :: "Effect \<Rightarrow> ('e, 'b, 'w) session_state \<Rightarrow> ('e, 'b, 'w) session_state" where
  "emit x st = st\<lparr>ss_log := ss_log st @ [x]\<rparr>"

definition dropped :: "BackendId \<Rightarrow> 'b BackendConn \<Rightarrow> ('e, 'b, 'w) session_state \<Rightarrow> ('e, 'b, 'w) session_state" where
  "dropped i k st = emit (ConnectionFate i (guard_drop (bk_guard k))) st"

section \<open>The exchange\<close>

record 'b BackendResponseExchange =
  ex_conn :: "'b BackendConn"
  ex_response :: "ClassifiedResponse option"
  ex_backend_id :: BackendId

datatype ExchangeError =
    CheckoutFailed
  | SendFailed IoError
  | ReadFailed ReadUnboundError
  | ObserveFailed ResponseTransferError

definition exchange_read ::
    "transfer_env \<Rightarrow> 'b BackendConn \<Rightarrow> RequestContext \<Rightarrow> PooledBuffer \<Rightarrow> BackendId
       \<Rightarrow> ExchangeError + 'b BackendResponseExchange" where
  "exchange_read E k request buffer i =
     (let g = stream_mut (bk_guard k) in
      case read_unbound (te_memchr E) request (cg_conn g) buffer of
        (c, Inl e) \<Rightarrow> Err (ReadFailed e)
      | (c, Inr resp) \<Rightarrow>
          Ok \<lparr>ex_conn = k\<lparr>bk_guard := g\<lparr>cg_conn := c\<rparr>\<rparr>, ex_response = Some resp, ex_backend_id = i\<rparr>)"

definition execute_request_exchange ::
    "transfer_env \<Rightarrow> 'b writer_api \<Rightarrow> 'b BackendConn \<Rightarrow> RequestContext \<Rightarrow> BackendId
       \<Rightarrow> ExchangeError + 'b BackendResponseExchange" where
  "execute_request_exchange E B k request i =
     (let g = stream_mut (bk_guard k) in
      case send_to B request (bk_writer k) of
        (b, Inl e) \<Rightarrow> Err (SendFailed e)
      | (b, Inr _) \<Rightarrow>
          (case read_from stream_poll_read (pool_acquire E) (cg_conn g) of
             (buffer, c, Inl e) \<Rightarrow> Err (ReadFailed (UnboundIo e))
           | (buffer, c, Inr n) \<Rightarrow>
               if n = 0 then Err (ReadFailed ClosedUnexpectedly)
               else exchange_read E \<lparr>bk_guard = g\<lparr>cg_conn := c\<rparr>, bk_writer = b\<rparr> request buffer i))"

definition exchange_status_code :: "'b BackendResponseExchange \<Rightarrow> StatusCode option" where
  "exchange_status_code ex = Option.bind (ex_response ex) classified_status_code"

text \<open>\<open>receiving\<close> takes the response out of the exchange; \<open>None\<close> is the error of a second call.\<close>

definition exchange_receiving ::
    "'b BackendResponseExchange \<Rightarrow> ('b BackendResponseExchange \<times> ClassifiedResponse) option" where
  "exchange_receiving ex = map_option (Pair (ex\<lparr>ex_response := None\<rparr>)) (ex_response ex)"

text \<open>\<open>into_connection\<close>; \<open>None\<close> is the failed assertion.\<close>

definition into_connection :: "'b BackendConn \<Rightarrow> 'b BackendConn option" where
  "into_connection k = (if response_is_complete (bk_guard k) then Some k else None)"

definition observe_and_reuse ::
    "transfer_env \<Rightarrow> 'b BackendResponseExchange \<Rightarrow> ResponseTransferError + 'b BackendConn" where
  "observe_and_reuse E ex =
     (case exchange_receiving ex of
        None \<Rightarrow> Err (TransferIo Panicked)
      | Some (ex', resp) \<Rightarrow>
          (case receiving_observe E (bk_guard (ex_conn ex')) resp of
             (g, Inl e) \<Rightarrow> Err e
           | (g, Inr _) \<Rightarrow>
               (case into_connection ((ex_conn ex')\<lparr>bk_guard := g\<rparr>) of
                  None \<Rightarrow> Err (TransferIo Panicked)
                | Some k \<Rightarrow> Ok k)))"

section \<open>Cache policy\<close>

datatype CacheAction = CaptureArticle | TrackAvailability | TrackStat | NoCacheAction

definition should_capture_article_response :: "RequestContext \<Rightarrow> StatusCode \<Rightarrow> CachePayloadPolicy \<Rightarrow> bool" where
  "should_capture_article_response request response_code policy \<longleftrightarrow>
     stores_payloads policy \<and> has_response_body request response_code \<and> into_inner response_code \<in> {220, 222}"

definition should_track_availability :: "StatusCode \<Rightarrow> bool" where
  "should_track_availability response_code \<longleftrightarrow> 220 \<le> into_inner response_code \<and> into_inner response_code \<le> 223"

definition determine_cache_action_for_request ::
    "RequestContext option \<Rightarrow> StatusCode \<Rightarrow> CachePayloadPolicy \<Rightarrow> CacheAction" where
  "determine_cache_action_for_request article_req response_code policy =
     (case article_req of
        None \<Rightarrow> NoCacheAction
      | Some req \<Rightarrow>
          (let has_body = has_response_body req response_code in
           if should_capture_article_response req response_code policy then CaptureArticle
           else if has_body \<and> should_track_availability response_code then TrackAvailability
           else if into_inner response_code = 223 then TrackStat
           else NoCacheAction))"

definition can_discard_response_after_write :: "RequestContext \<Rightarrow> CacheAction \<Rightarrow> bool" where
  "can_discard_response_after_write request action \<longleftrightarrow>
     rc_kind request \<in> {Article, Body, Head} \<and> action \<in> {TrackAvailability, NoCacheAction}"

datatype ResponseRetention = DiscardAfterWrite | RetainAfterWrite

definition retention_for_request :: "RequestContext \<Rightarrow> CacheAction \<Rightarrow> ResponseRetention" where
  "retention_for_request request action =
     (if can_discard_response_after_write request action then DiscardAfterWrite else RetainAfterWrite)"

section \<open>Cache updates\<close>

definition tier_for_backend :: "BackendSelector \<Rightarrow> BackendId \<Rightarrow> u8" where
  "tier_for_backend sel i = (case get_tier sel i of Some t \<Rightarrow> t | None \<Rightarrow> 0)"

definition spawn_cache_task ::
    "('e, 'b) world \<Rightarrow> CacheTask \<Rightarrow> ('e, 'b, 'w) session_state \<Rightarrow> ('e, 'b, 'w) session_state" where
  "spawn_cache_task P task st =
     (case wd_permit P (ss_env st) of
        (e, permit) \<Rightarrow>
          if permit then emit (CacheUpdate task) (st\<lparr>ss_env := e\<rparr>) else st\<lparr>ss_env := e\<rparr>)"

definition spawn_cache_upsert_framed ::
    "session_env \<Rightarrow> ('e, 'b) world \<Rightarrow> MessageId \<Rightarrow> FramedChunkedResponse \<Rightarrow> BackendId \<Rightarrow> u8
       \<Rightarrow> ('e, 'b, 'w) session_state \<Rightarrow> ('e, 'b, 'w) session_state" where
  "spawn_cache_upsert_framed S P msg_id buffer i tier st =
     (if \<not> stores_payload_responses (se_cache S) then st
      else spawn_cache_task P (UpsertFramed msg_id buffer i tier) st)"

definition spawn_cache_upsert_availability ::
    "session_env \<Rightarrow> ('e, 'b) world \<Rightarrow> MessageId \<Rightarrow> StatusCode \<Rightarrow> BackendId \<Rightarrow> u8
       \<Rightarrow> ('e, 'b, 'w) session_state \<Rightarrow> ('e, 'b, 'w) session_state" where
  "spawn_cache_upsert_availability S P msg_id status i tier st =
     (if \<not> records_backend_has_status (se_cache S) then st
      else spawn_cache_task P (RecordHasStatus msg_id status i tier) st)"

definition spawn_cache_record_stat ::
    "session_env \<Rightarrow> ('e, 'b) world \<Rightarrow> MessageId \<Rightarrow> BackendId \<Rightarrow> u8
       \<Rightarrow> ('e, 'b, 'w) session_state \<Rightarrow> ('e, 'b, 'w) session_state" where
  "spawn_cache_record_stat S P msg_id i tier st =
     (if \<not> stores_payload_responses (se_cache S) then st
      else spawn_cache_task P (RecordStat msg_id i tier) st)"

definition into_cache_ingest :: "CapturedChunkedResponse \<Rightarrow> FramedChunkedResponse" where
  "into_cache_ingest c =
     \<lparr>fc_status = cc_status c, fc_status_line_end = cc_status_line_end c,
      fc_chunks = iter_chunks (cc_bytes c), fc_payload_end = cc_content_end c\<rparr>"

definition maybe_cache_upsert_framed ::
    "session_env \<Rightarrow> ('e, 'b) world \<Rightarrow> MessageId option \<Rightarrow> FramedChunkedResponse \<Rightarrow> BackendId
       \<Rightarrow> ('e, 'b, 'w) session_state \<Rightarrow> ('e, 'b, 'w) session_state" where
  "maybe_cache_upsert_framed S P msg_id data i st =
     (case msg_id of
        None \<Rightarrow> st
      | Some m \<Rightarrow> spawn_cache_upsert_framed S P m data i (tier_for_backend (ss_router st) i) st)"

definition lookup_message_id :: "RequestContext \<Rightarrow> MessageId option" where
  "lookup_message_id request = Option.bind (article_lookup_request request) article_lookup_message_id"

definition apply_cache_action ::
    "session_env \<Rightarrow> ('e, 'b) world \<Rightarrow> CacheAction \<Rightarrow> RequestContext \<Rightarrow> StatusCode \<Rightarrow> BackendId
       \<Rightarrow> CapturedChunkedResponse option \<Rightarrow> ('e, 'b, 'w) session_state \<Rightarrow> ('e, 'b, 'w) session_state" where
  "apply_cache_action S P action request status i captured st =
     (let msg_id = lookup_message_id request;
          known = cache_records_backend_has_article i request;
          availability = (\<lambda>m. spawn_cache_upsert_availability S P m status i (tier_for_backend (ss_router st) i) st)
      in case action of
           CaptureArticle \<Rightarrow>
             (case captured of
                Some resp \<Rightarrow> maybe_cache_upsert_framed S P msg_id (into_cache_ingest resp) i st
              | None \<Rightarrow> (case msg_id of Some m \<Rightarrow> if known then st else availability m | None \<Rightarrow> st))
         | TrackAvailability \<Rightarrow> (case msg_id of Some m \<Rightarrow> if known then st else availability m | None \<Rightarrow> st)
         | TrackStat \<Rightarrow>
             if stores_payload_responses (se_cache S) then
               (case msg_id of
                  Some m \<Rightarrow> spawn_cache_record_stat S P m i (tier_for_backend (ss_router st) i) st
                | None \<Rightarrow> st)
             else (case msg_id of Some m \<Rightarrow> if known then st else availability m | None \<Rightarrow> st)
         | NoCacheAction \<Rightarrow> st)"

section \<open>Writing a response\<close>

definition write_response_to_client ::
    "session_env \<Rightarrow> ('e, 'b) world \<Rightarrow> 'w writer_api \<Rightarrow> BackendId \<Rightarrow> RequestContext \<Rightarrow> ConnectionGuard
       \<Rightarrow> ClassifiedResponse \<Rightarrow> ('e, 'b, 'w) session_state
       \<Rightarrow> ('e, 'b, 'w) session_state \<times> ConnectionGuard \<times> (ResponseTransferError + StatusCode \<times> nat)" where
  "write_response_to_client S P W i request g resp st =
     (case classified_status_code resp of
        None \<Rightarrow> (st, g, Err (TransferIo InvalidBackendResponse))
      | Some status \<Rightarrow>
          (let action = determine_cache_action_for_request (article_lookup_request request) status
                          (payload_policy (se_cache S));
               tracked = (action = TrackAvailability);
               st = (if tracked then apply_cache_action S P action request status i None st else st)
           in case (case retention_for_request request action of
                      DiscardAfterWrite \<Rightarrow>
                        (case receiving_write (se_exchange S i) W (ss_writer st) g resp of
                           (w, g', r) \<Rightarrow> (w, g', map_sum id (\<lambda>n. (n, None)) r))
                    | RetainAfterWrite \<Rightarrow>
                        receiving_capture_and_write (se_exchange S i) W (ss_writer st) chunked_default g resp) of
                (w, g', Inl e) \<Rightarrow> (st\<lparr>ss_writer := w\<rparr>, g', Err e)
              | (w, g', Inr (n, captured)) \<Rightarrow>
                  (let st = st\<lparr>ss_writer := w\<rparr>
                   in (if tracked then st else apply_cache_action S P action request status i captured st,
                       g', Ok (status, n)))))"

text \<open>The connection is consumed: \<open>handle_response_transfer_error\<close> and \<open>release_or_reuse_connection\<close>.\<close>

definition handle_response_transfer_error ::
    "ConnectionGuard \<Rightarrow> BackendId \<Rightarrow> ResponseTransferError \<Rightarrow> ('e, 'b, 'w) session_state
       \<Rightarrow> ('e, 'b, 'w) session_state \<times> SessionError" where
  "handle_response_transfer_error g i error st =
     (let reuse = connection_reuse_after_response g;
          fate = (case error_pool_fate error reuse of
                    BackendFailed \<Rightarrow> fail_backend g
                  | BackendDirty \<Rightarrow> fail_client g
                  | BackendHealthy \<Rightarrow>
                      (case mark_response_complete g of
                         None \<Rightarrow> guard_drop g
                       | Some g' \<Rightarrow> complete_success g'))
      in (emit (ConnectionFate i fate) st, session_from_transfer error))"

definition release_or_reuse_connection ::
    "'b BackendConn \<Rightarrow> BackendId \<Rightarrow> ('e, 'b, 'w) session_state \<Rightarrow> ('e, 'b, 'w) session_state" where
  "release_or_reuse_connection k i st =
     (let g = bk_guard k in
      case reuse_pool_fate (connection_reuse_after_response g) of
        BackendDirty \<Rightarrow> emit (ConnectionFate i (fail_client g)) st
      | BackendHealthy \<Rightarrow>
          if ss_lease st = None then st\<lparr>ss_lease := Some (i, k)\<rparr>
          else emit (ConnectionFate i (complete_success g)) st
      | BackendFailed \<Rightarrow> emit (ConnectionFate i (fail_backend g)) st)"

definition write_successful_backend_response ::
    "session_env \<Rightarrow> ('e, 'b) world \<Rightarrow> 'w writer_api \<Rightarrow> 'b BackendResponseExchange \<Rightarrow> RequestContext
       \<Rightarrow> ('e, 'b, 'w) session_state
       \<Rightarrow> ('e, 'b, 'w) session_state \<times> (SessionError + RequestResponseMetadata)" where
  "write_successful_backend_response S P W ex request st =
     (let i = ex_backend_id ex in
      case exchange_receiving ex of
        None \<Rightarrow> (dropped i (ex_conn ex) st, Err (SessionBackend CauseOther))
      | Some (ex', resp) \<Rightarrow>
          (case write_response_to_client S P W i request (bk_guard (ex_conn ex')) resp st of
             (st, g, Inl e) \<Rightarrow>
               (case handle_response_transfer_error g i e st of (st, error) \<Rightarrow> (st, Err error))
           | (st, g, Inr (status, bytes_written)) \<Rightarrow>
               (let k = (ex_conn ex')\<lparr>bk_guard := g\<rparr> in
                case flush W (ss_writer st) of
                  (w, flushed) \<Rightarrow>
                    (let st = st\<lparr>ss_writer := w\<rparr> in
                     case into_connection k of
                       None \<Rightarrow> (dropped i k st, Err (SessionBackend (CauseTransfer (TransferIo Panicked))))
                     | Some k \<Rightarrow>
                         (case flushed of
                            Inl e \<Rightarrow>
                              (case handle_response_transfer_error (bk_guard k) i (from_client_write e) st of
                                 (st, error) \<Rightarrow> (st, Err error))
                          | Inr _ \<Rightarrow>
                              (release_or_reuse_connection k i st,
                               Ok \<lparr>rm_status = status, rm_wire_len = bytes_written\<rparr>))))))"

section \<open>Clean connections\<close>

text \<open>
  A connection goes back to its pool, or is kept for the next command, only when its response has been
  read to the end and no byte is queued.
\<close>

definition conn_clean :: "'b BackendConn \<Rightarrow> bool" where
  "conn_clean k \<longleftrightarrow> response_is_complete (bk_guard k) \<and> stream_wf (cg_conn (bk_guard k)) \<and>
     pending_input (cg_conn (bk_guard k)) = []"

definition effect_clean :: "Effect \<Rightarrow> bool" where
  "effect_clean x \<longleftrightarrow>
     (case x of ConnectionFate i (ReturnedToPool c) \<Rightarrow> stream_wf c \<and> pending_input c = [] | _ \<Rightarrow> True)"

definition session_clean :: "('e, 'b, 'w) session_state \<Rightarrow> bool" where
  "session_clean st \<longleftrightarrow> list_all effect_clean (ss_log st) \<and> (\<forall>i k. ss_lease st = Some (i, k) \<longrightarrow> conn_clean k)"

lemma effect_clean_simps [simp]:
  "effect_clean (ConnectionFate i (fail_backend g))" "effect_clean (ConnectionFate i (fail_client g))"
  "effect_clean (ConnectionFate i (guard_drop g))" "effect_clean (SalvageStarted i c)" "effect_clean (Answered i r D)"
  "effect_clean (MissingRecorded i s)" "effect_clean (CacheUpdate t)" "effect_clean (PrefetchSpawned cs)"
  by (simp_all add: effect_clean_def fail_backend_def fail_client_def guard_drop_def)

lemma effect_clean_complete [simp]:
  assumes "stream_wf (cg_conn g)"
  shows "effect_clean (ConnectionFate i (complete_success g))"
  using assms by (simp add: effect_clean_def complete_success_def guard_drop_def pending_len_eq)

lemma emit_simps [simp]:
  "ss_env (emit x st) = ss_env st" "ss_writer (emit x st) = ss_writer st" "ss_router (emit x st) = ss_router st"
  "ss_availability (emit x st) = ss_availability st" "ss_unavailable (emit x st) = ss_unavailable st"
  "ss_lease (emit x st) = ss_lease st" "ss_log (emit x st) = ss_log st @ [x]"
  "ss_client_to_backend (emit x st) = ss_client_to_backend st"
  "ss_backend_to_client (emit x st) = ss_backend_to_client st"
  by (simp_all add: emit_def)

lemma session_clean_emit [simp]: "session_clean (emit x st) \<longleftrightarrow> session_clean st \<and> effect_clean x"
  by (auto simp: session_clean_def)

section \<open>What an operation leaves alone\<close>

text \<open>
  \<open>kept_routing st st'\<close>: the router, the article state and the counters are unchanged and the log has
  grown. Operations that write to the client or spawn cache tasks keep the routing.
\<close>

definition kept_routing :: "('e, 'b, 'w) session_state \<Rightarrow> ('e, 'b, 'w) session_state \<Rightarrow> bool" where
  "kept_routing st st' \<longleftrightarrow>
     ss_router st' = ss_router st \<and> ss_availability st' = ss_availability st \<and> ss_unavailable st' = ss_unavailable st \<and>
     ss_client_to_backend st' = ss_client_to_backend st \<and> ss_backend_to_client st' = ss_backend_to_client st \<and>
     prefix (ss_log st) (ss_log st')"

lemma kept_routing_refl [simp]: "kept_routing st st"
  by (simp add: kept_routing_def)

lemma kept_routing_trans: "kept_routing a b \<Longrightarrow> kept_routing b c \<Longrightarrow> kept_routing a c"
  by (auto simp: kept_routing_def intro: prefix_order.trans)

lemma kept_routing_emit [simp]: "kept_routing st (emit x st)"
  by (simp add: kept_routing_def)

lemma kept_routing_writer [simp]:
  "kept_routing st (st'\<lparr>ss_writer := w\<rparr>) = kept_routing st st'" "kept_routing (st\<lparr>ss_writer := w\<rparr>) st' = kept_routing st st'"
  "kept_routing st (st'\<lparr>ss_lease := l\<rparr>) = kept_routing st st'" "kept_routing st (st'\<lparr>ss_env := e\<rparr>) = kept_routing st st'"
  by (simp_all add: kept_routing_def)

text \<open>Cache updates only spawn tasks.\<close>

definition cache_only :: "('e, 'b, 'w) session_state \<Rightarrow> ('e, 'b, 'w) session_state \<Rightarrow> bool" where
  "cache_only st st' \<longleftrightarrow> (\<exists>e ts. st' = st\<lparr>ss_env := e, ss_log := ss_log st @ map CacheUpdate ts\<rparr>)"

lemma cache_only_refl [simp]: "cache_only st st"
  unfolding cache_only_def by (rule exI [of _ "ss_env st"], rule exI [of _ "[]"]) simp

lemma cache_only_task [simp]: "cache_only st (spawn_cache_task P task st)"
proof -
  obtain e permit where p: "wd_permit P (ss_env st) = (e, permit)" by fastforce
  show ?thesis unfolding cache_only_def
    by (rule exI [of _ e], rule exI [of _ "if permit then [task] else []"]) (simp add: spawn_cache_task_def p emit_def)
qed

lemma cache_only_spawn [simp]:
  "cache_only st (spawn_cache_upsert_framed S P m d i t st)" "cache_only st (spawn_cache_upsert_availability S P m c i t st)"
  "cache_only st (spawn_cache_record_stat S P m i t st)" "cache_only st (maybe_cache_upsert_framed S P mo d i st)"
  by (simp_all add: spawn_cache_upsert_framed_def spawn_cache_upsert_availability_def spawn_cache_record_stat_def
      maybe_cache_upsert_framed_def split: option.split)

lemma cache_only_apply [simp]: "cache_only st (apply_cache_action S P action request status i captured st)"
  by (simp add: apply_cache_action_def Let_def split: CacheAction.split option.split)

lemma cache_onlyD:
  assumes "cache_only st st'"
  shows "kept_routing st st'" "ss_lease st' = ss_lease st" "ss_writer st' = ss_writer st"
    "session_clean st' \<longleftrightarrow> session_clean st"
  using assms by (auto simp: cache_only_def kept_routing_def session_clean_def list_all_iff)

section \<open>Writing a response\<close>

text \<open>
  What one attempt to write a response promises: an error that lets the session go on has written
  nothing, and if the backend's input starts with a response \<open>R\<close> to the request then a prefix of \<open>R\<close>
  was written, and all of it on success.
\<close>

definition wrote_response ::
    "memchr_api \<Rightarrow> 'w writer_api \<Rightarrow> RequestContext \<Rightarrow> bytes \<Rightarrow> 'w \<Rightarrow> 'w \<Rightarrow> bool \<Rightarrow> bool \<Rightarrow> bool" where
  "wrote_response M W request D w w' ok over \<longleftrightarrow>
     (\<not> ok \<and> \<not> over \<longrightarrow> sent W w' = sent W w) \<and>
     (\<forall>R N. frames_as M request D R N \<longrightarrow>
        (\<exists>p. prefix p R \<and> sent W w' = sent W w @ p \<and> (ok \<longrightarrow> p = R)))"

lemma wrote_responseI:
  assumes "\<forall>e. r = Inl e \<longrightarrow> stops e \<or> w' = w"
    and "\<And>R N. frames_as M request D R N \<Longrightarrow> \<exists>p. prefix p R \<and> sent W w' = sent W w @ p \<and> (\<not> isl r \<longrightarrow> p = R)"
  shows "wrote_response M W request D w w' (\<not> isl r) (\<forall>e. r = Inl e \<longrightarrow> stops e)"
  using assms by (cases r) (auto simp: wrote_response_def)

lemma transfer_spec:
  assumes "(case retention of
        DiscardAfterWrite \<Rightarrow> (case receiving_write E W w g resp of (w, g', r) \<Rightarrow> (w, g', map_sum id (\<lambda>n. (n, None)) r))
      | RetainAfterWrite \<Rightarrow> receiving_capture_and_write E W w chunked_default g resp) = (w', g', r)"
    and M: "memchr_lib (te_memchr E)" and W: "writer_lib W"
    and cl: "classified_wf (te_memchr E) request resp" and wf: "stream_wf (cg_conn g)"
  shows "stream_wf (cg_conn g') \<and> (\<forall>x. r = Inr x \<longrightarrow> response_is_complete g') \<and>
    wrote_response (te_memchr E) W request (visible (cl_buffer resp) @ stream_input (cg_conn g)) w w' (\<not> isl r)
      (\<forall>e. r = Inl e \<longrightarrow> stops e)"
proof (cases retention)
  case DiscardAfterWrite
  then obtain q where q: "receiving_write E W w g resp = (w', g', q)" "r = map_sum id (\<lambda>n. (n, None)) q"
    using assms(1) by (auto split: prod.splits)
  note st = memchr_lib.receiving_write_stops [OF M q(1) cl wf refl]
  have "\<exists>p. prefix p R \<and> sent W w' = sent W w @ p \<and> (\<not> isl r \<longrightarrow> p = R)"
    if "frames_as (te_memchr E) request (visible (cl_buffer resp) @ stream_input (cg_conn g)) R N" for R N
    using receiving_write_exact [OF M W cl wf that q(1)] q(2) by (cases q) auto
  moreover have "\<forall>e. r = Inl e \<longrightarrow> stops e \<or> w' = w" "\<forall>x. r = Inr x \<longrightarrow> response_is_complete g'"
    using st q(2) by (cases q; simp)+
  ultimately show ?thesis using st by (intro conjI wrote_responseI) simp_all
next
  case RetainAfterWrite
  then have q: "receiving_capture_and_write E W w chunked_default g resp = (w', g', r)" using assms(1) by simp
  note st = memchr_lib.receiving_capture_stops [OF M q cl wf refl]
  have "\<exists>p. prefix p R \<and> sent W w' = sent W w @ p \<and> (\<not> isl r \<longrightarrow> p = R)"
    if "frames_as (te_memchr E) request (visible (cl_buffer resp) @ stream_input (cg_conn g)) R N" for R N
    using receiving_capture_exact [OF M W cl wf that q] by (cases r) auto
  then show ?thesis using st by (intro conjI wrote_responseI) simp_all
qed

lemma write_response_to_client_spec:
  assumes "write_response_to_client S P W i request g resp st = (st', g', res)"
    and M: "memchr_lib (se_memchr S)" and W: "writer_lib W"
    and cl: "classified_wf (se_memchr S) request resp" and wf: "stream_wf (cg_conn g)"
  shows "stream_wf (cg_conn g') \<and> (\<forall>x. res = Inr x \<longrightarrow> response_is_complete g') \<and> kept_routing st st' \<and>
    ss_lease st' = ss_lease st \<and> session_clean st' = session_clean st \<and>
    wrote_response (se_memchr S) W request (visible (cl_buffer resp) @ stream_input (cg_conn g))
      (ss_writer st) (ss_writer st') (\<not> isl res) (\<forall>e. res = Inl e \<longrightarrow> stops e)"
proof (cases "classified_status_code resp")
  case None
  then show ?thesis using assms(1) wf by (auto simp: write_response_to_client_def wrote_response_def)
next
  case (Some status)
  define action where "action = determine_cache_action_for_request (article_lookup_request request) status
    (payload_policy (se_cache S))"
  define st1 where "st1 = (if action = TrackAvailability then apply_cache_action S P action request status i None st else st)"
  have c1: "cache_only st st1" by (simp add: st1_def)
  obtain w g1 r where t: "(case retention_for_request request action of
        DiscardAfterWrite \<Rightarrow> (case receiving_write (se_exchange S i) W (ss_writer st1) g resp of
           (w, g', r) \<Rightarrow> (w, g', map_sum id (\<lambda>n. (n, None)) r))
      | RetainAfterWrite \<Rightarrow> receiving_capture_and_write (se_exchange S i) W (ss_writer st1) chunked_default g resp) = (w, g1, r)"
    by (metis prod_cases3)
  have wr: "write_response_to_client S P W i request g resp st =
      (case r of
         Inl e \<Rightarrow> (st1\<lparr>ss_writer := w\<rparr>, g1, Inl e)
       | Inr (n, captured) \<Rightarrow>
           (if action = TrackAvailability then st1\<lparr>ss_writer := w\<rparr>
            else apply_cache_action S P action request status i captured (st1\<lparr>ss_writer := w\<rparr>), g1, Inr (status, n)))"
    unfolding write_response_to_client_def Some option.case Let_def
    by (fold action_def, fold st1_def) (simp add: t split: sum.split)
  have g1: "g1 = g'" and r: "case r of Inl e \<Rightarrow> st' = st1\<lparr>ss_writer := w\<rparr> \<and> res = Inl e
      | Inr (n, captured) \<Rightarrow> cache_only (st1\<lparr>ss_writer := w\<rparr>) st' \<and> res = Inr (status, n)"
    using assms(1) unfolding wr by (auto split: sum.splits)
  note tr = transfer_spec [OF t [unfolded g1] _ W _ wf, of request]
  have st': "ss_writer st' = w" "kept_routing st st'" "ss_lease st' = ss_lease st" "session_clean st' = session_clean st"
    using r cache_onlyD [OF c1] cache_onlyD [of "st1\<lparr>ss_writer := w\<rparr>" st'] kept_routing_trans [of st st1 st']
    by (cases r; auto simp: session_clean_def)+
  show ?thesis using tr M cl r st' cache_onlyD(3) [OF c1] by (cases r) auto
qed

section \<open>Consuming the connection\<close>

lemma release_or_reuse_clean:
  assumes "session_clean st" "stream_wf (cg_conn (bk_guard k))"
  shows "session_clean (release_or_reuse_connection k i st)"
  using assms has_pending_iff [OF assms(2)]
  by (auto simp: release_or_reuse_connection_def Let_def session_clean_def conn_clean_def reuse_pool_fate_def
      connection_reuse_after_response_def split: BackendConnectionOutcome.splits if_splits)

lemma release_or_reuse_kept:
  "kept_routing st (release_or_reuse_connection k i st)" "ss_writer (release_or_reuse_connection k i st) = ss_writer st"
  by (simp_all add: release_or_reuse_connection_def Let_def split: BackendConnectionOutcome.split)

lemma handle_transfer_error:
  assumes "handle_response_transfer_error g i e st = (st', error)" "stream_wf (cg_conn g)"
  shows "error = session_from_transfer e" "kept_routing st st'" "ss_writer st' = ss_writer st" "ss_lease st' = ss_lease st"
    "session_clean st' \<longleftrightarrow> session_clean st"
proof -
  have "effect_clean (ConnectionFate i (case error_pool_fate e (connection_reuse_after_response g) of
      BackendFailed \<Rightarrow> fail_backend g | BackendDirty \<Rightarrow> fail_client g
    | BackendHealthy \<Rightarrow> (case mark_response_complete g of None \<Rightarrow> guard_drop g | Some g' \<Rightarrow> complete_success g')))"
    using assms(2) by (cases "cg_phase g") (simp_all add: mark_response_complete_def split: BackendConnectionOutcome.split)
  then show "error = session_from_transfer e" "kept_routing st st'" "ss_writer st' = ss_writer st" "ss_lease st' = ss_lease st"
    "session_clean st' \<longleftrightarrow> session_clean st"
    using assms(1) by (auto simp: handle_response_transfer_error_def Let_def)
qed

text \<open>An exchange whose response was read from its own connection.\<close>

definition exchange_wf :: "memchr_api \<Rightarrow> RequestContext \<Rightarrow> 'b BackendResponseExchange \<Rightarrow> bool" where
  "exchange_wf M request ex \<longleftrightarrow>
     stream_wf (cg_conn (bk_guard (ex_conn ex))) \<and>
     (case ex_response ex of None \<Rightarrow> False | Some resp \<Rightarrow> classified_wf M request resp)"

definition exchange_input :: "'b BackendResponseExchange \<Rightarrow> bytes" where
  "exchange_input ex =
     (case ex_response ex of None \<Rightarrow> [] | Some resp \<Rightarrow> visible (cl_buffer resp)) @
     stream_input (cg_conn (bk_guard (ex_conn ex)))"

lemma write_successful_backend_response_spec:
  assumes "write_successful_backend_response S P W ex request st = (st', res)"
    and M: "memchr_lib (se_memchr S)" and W: "writer_lib W" and ex: "exchange_wf (se_memchr S) request ex"
    and clean: "session_clean st"
  shows "kept_routing st st' \<and> session_clean st' \<and>
    wrote_response (se_memchr S) W request (exchange_input ex) (ss_writer st) (ss_writer st') (\<not> isl res)
      (\<forall>e. res = Inl e \<longrightarrow> session_over e)"
proof -
  obtain resp where resp: "ex_response ex = Some resp" "classified_wf (se_memchr S) request resp"
    "stream_wf (cg_conn (bk_guard (ex_conn ex)))" using ex by (auto simp: exchange_wf_def split: option.splits)
  obtain s1 g r where w: "write_response_to_client S P W (ex_backend_id ex) request (bk_guard (ex_conn ex)) resp st = (s1, g, r)"
    by (metis prod_cases3)
  note wr = write_response_to_client_spec [OF w M W resp(2,3)]
  let ?i = "ex_backend_id ex" and ?k = "(ex_conn ex)\<lparr>bk_guard := g\<rparr>"
  obtain w1 fl where fl: "flush W (ss_writer s1) = (w1, fl)" by fastforce
  have sent: "sent W w1 = sent W (ss_writer s1)" using writer_lib.flush_sent [OF W, of "ss_writer s1"] fl by simp
  have D: "exchange_input ex = visible (cl_buffer resp) @ stream_input (cg_conn (bk_guard (ex_conn ex)))"
    by (simp add: exchange_input_def resp(1))
  show ?thesis
  proof (cases r)
    case (Inl e)
    then obtain error where h: "handle_response_transfer_error g ?i e s1 = (st', error)" "res = Inl error"
      using assms(1) resp(1) w
      by (auto simp: write_successful_backend_response_def exchange_receiving_def Let_def split: prod.splits)
    note he = handle_transfer_error [OF h(1)]
    show ?thesis using he wr Inl h(2) clean kept_routing_trans [of st s1 st'] unfolding D
      by (auto simp: session_over_iff)
  next
    case (Inr x)
    have k: "into_connection ?k = Some ?k" using wr Inr by (simp add: into_connection_def)
    let ?s = "s1\<lparr>ss_writer := w1\<rparr>"
    have res: "write_successful_backend_response S P W ex request st = (case fl of
         Inl e \<Rightarrow> (case handle_response_transfer_error g ?i (from_client_write e) ?s of (st, error) \<Rightarrow> (st, Inl error))
       | Inr u \<Rightarrow> (release_or_reuse_connection ?k ?i ?s, Inr \<lparr>rm_status = fst x, rm_wire_len = snd x\<rparr>))"
      using resp(1) w Inr fl k
      by (cases x) (simp add: write_successful_backend_response_def exchange_receiving_def Let_def split: sum.split)
    have s: "session_clean ?s" "kept_routing st ?s" using wr clean by (auto simp: session_clean_def)
    show ?thesis
    proof (cases fl)
      case (Inl e)
      obtain error where h: "handle_response_transfer_error g ?i (from_client_write e) ?s = (st', error)" "res = Inl error"
        using assms(1) unfolding res Inl by (auto split: prod.splits)
      have g: "stream_wf (cg_conn g)" using wr by simp
      note he = handle_transfer_error [OF h(1) g]
      have "session_over error" unfolding he(1) session_over_iff by simp
      then show ?thesis using he h(2) s kept_routing_trans [OF s(2)] wr Inr sent unfolding D
        by (auto simp: wrote_response_def)
    next
      case (Inr u)
      then have st': "st' = release_or_reuse_connection ?k ?i ?s" "\<not> isl res" using assms(1) unfolding res by auto
      have "session_clean st'" unfolding st' by (rule release_or_reuse_clean [OF s(1)]) (use wr in simp)
      then show ?thesis
        using st' s kept_routing_trans [OF s(2)] release_or_reuse_kept [where st = ?s and k = ?k and i = ?i] wr \<open>r = Inr x\<close> sent unfolding D
        by (auto simp: wrote_response_def)
    qed
  qed
qed

lemma exchange_read_spec:
  assumes "exchange_read E k request b i = Inr ex" "memchr_lib (te_memchr E)" "stream_wf (cg_conn (bk_guard k))" "buffer_wf b"
  shows "exchange_wf (te_memchr E) request ex \<and> exchange_input ex = visible b @ stream_input (cg_conn (bk_guard k)) \<and>
    ex_backend_id ex = i \<and> cg_phase (bk_guard (ex_conn ex)) = InFlight"
proof -
  obtain c q where q: "read_unbound (te_memchr E) request (cg_conn (stream_mut (bk_guard k))) b = (c, q)" by fastforce
  then obtain cl where "q = Inr cl" using assms(1) by (cases q) (auto simp: exchange_read_def Let_def)
  then show ?thesis
    using assms(1,3) q memchr_lib.read_unbound_classified_wf [OF assms(2) _ _ assms(4), of request "cg_conn (bk_guard k)" c cl]
    by (auto simp: exchange_read_def Let_def exchange_wf_def exchange_input_def stream_mut_def)
qed

lemma execute_request_exchange_spec:
  assumes "execute_request_exchange E B k request i = Inr ex" "memchr_lib (te_memchr E)" "stream_wf (cg_conn (bk_guard k))"
  shows "exchange_wf (te_memchr E) request ex \<and> exchange_input ex = stream_input (cg_conn (bk_guard k)) \<and>
    ex_backend_id ex = i"
proof -
  obtain b r where s: "send_to B request (bk_writer k) = (b, r)" by fastforce
  obtain buf c q where q: "read_from stream_poll_read (pool_acquire E) (cg_conn (bk_guard k)) = (buf, c, q)" by (metis prod_cases3)
  note rd = conn.read_from_spec [OF q assms(3)]
  obtain n where n: "q = Inr n" "n \<noteq> 0"
    "exchange_read E \<lparr>bk_guard = (stream_mut (bk_guard k))\<lparr>cg_conn := c\<rparr>, bk_writer = b\<rparr> request buf i = Inr ex"
    using assms(1) s q
    by (cases r; cases q) (auto simp: execute_request_exchange_def Let_def stream_mut_def split: if_splits)
  have "stream_wf c" "buffer_wf buf" "stream_input (cg_conn (bk_guard k)) = visible buf @ stream_input c" using rd n by auto
  then show ?thesis using exchange_read_spec [OF n(3) assms(2)] by simp
qed

lemma observe_and_reuse_spec:
  assumes "observe_and_reuse E ex = Inr k" "memchr_lib (te_memchr E)" "exchange_wf (te_memchr E) request ex"
  shows "stream_wf (cg_conn (bk_guard k))" "response_is_complete (bk_guard k)"
proof -
  obtain resp where resp: "ex_response ex = Some resp" "classified_wf (te_memchr E) request resp"
    "stream_wf (cg_conn (bk_guard (ex_conn ex)))" using assms(3) by (auto simp: exchange_wf_def split: option.splits)
  obtain g q where q: "receiving_observe E (bk_guard (ex_conn ex)) resp = (g, q)" by fastforce
  have "stream_wf (cg_conn g) \<and> (\<forall>x. q = Inr x \<longrightarrow> response_is_complete g)"
    by (rule memchr_lib.receiving_observe_wf [OF assms(2) q resp(2,3) refl])
  then show "stream_wf (cg_conn (bk_guard k))" "response_is_complete (bk_guard k)"
    using assms(1) resp(1) q
    by (cases q; auto simp: observe_and_reuse_def exchange_receiving_def into_connection_def split: if_splits)+
qed

end
