(* ===== verification/Retry.thy ===== *)
theory Retry
  imports Exchange
begin

text \<open>
  Serving an article request: \<open>execute_article_retry_loop\<close> of
  \<open>src/src/session/handlers/article_retry.rs\<close> with the attempt of
  \<open>src/src/session/handlers/command_execution.rs\<close> and the retry of \<open>src/src/session/retry.rs\<close>. The loop
  asks one backend after the other until one of them answers, all are known to miss the article, or none
  may be asked any more. Sleeps, metrics and logging are left out.
\<close>

section \<open>Checking out a connection\<close>

definition checkout_connection ::
    "('e, 'b) world \<Rightarrow> BackendId \<Rightarrow> ('e, 'b, 'w) session_state
       \<Rightarrow> ('e, 'b, 'w) session_state \<times> (ExchangeError + 'b BackendConn)" where
  "checkout_connection P i st =
     (case wd_checkout P i (ss_env st) of
        (e, Inl _) \<Rightarrow> (st\<lparr>ss_env := e\<rparr>, Err CheckoutFailed)
      | (e, Inr (c, b)) \<Rightarrow> (st\<lparr>ss_env := e\<rparr>, Ok \<lparr>bk_guard = idle_new c, bk_writer = b\<rparr>))"

definition checkout_direct_backend_connection ::
    "('e, 'b) world \<Rightarrow> BackendId \<Rightarrow> ('e, 'b, 'w) session_state
       \<Rightarrow> ('e, 'b, 'w) session_state \<times> (ExchangeError + 'b BackendConn)" where
  "checkout_direct_backend_connection P i st =
     (let status = wd_status P i (ss_env st);
          can_expand_or_use_idle = (ps_available status > 0 \<or> ps_size status < ps_max_size status)
      in case ss_lease st of
           None \<Rightarrow> checkout_connection P i st
         | Some (cached_id, k) \<Rightarrow>
             (let st = st\<lparr>ss_lease := None\<rparr> in
              if cached_id = i then
                (case wd_alive P (cg_conn (bk_guard k)) (bk_writer k) (ss_env st) of
                   (e, healthy) \<Rightarrow>
                     (let st = st\<lparr>ss_env := e\<rparr> in
                      if \<not> healthy then
                        checkout_connection P i (emit (ConnectionFate i (fail_backend (bk_guard k))) st)
                      else if can_expand_or_use_idle then
                        (case checkout_connection P i (st\<lparr>ss_lease := Some (cached_id, k)\<rparr>) of
                           (st, Inr fresh) \<Rightarrow> (st, Ok fresh)
                         | (st, Inl _) \<Rightarrow> (st\<lparr>ss_lease := None\<rparr>, Ok k))
                      else (st, Ok k)))
              else checkout_connection P i
                     (emit (ConnectionFate cached_id (complete_success (bk_guard k))) st)))"

section \<open>One attempt on a backend\<close>

definition should_use_stat_missing_probe :: "session_env \<Rightarrow> BackendId \<Rightarrow> RequestContext \<Rightarrow> bool \<Rightarrow> bool" where
  "should_use_stat_missing_probe S i request stat_probe_retry_only \<longleftrightarrow>
     se_stat_missing S i \<and> stat_probe_retry_only \<and> has_message_id request \<and> rc_kind request \<noteq> Stat \<and>
     rc_kind request \<in> {Article, Body, Head}"

definition stat_probe_request :: "RequestContext \<Rightarrow> RequestContext option" where
  "stat_probe_request request =
     (if has_message_id request then Some (from_verb_args ''STAT'' (rc_args request)) else None)"

definition execute_and_read_response ::
    "session_env \<Rightarrow> ('e, 'b) world \<Rightarrow> 'b BackendConn \<Rightarrow> BackendId \<Rightarrow> RequestContext \<Rightarrow> ('e, 'b, 'w) session_state
       \<Rightarrow> ('e, 'b, 'w) session_state \<times> (ExchangeError + 'b BackendResponseExchange)" where
  "execute_and_read_response S P k i request st =
     (case execute_request_exchange (se_exchange S i) (wd_send P) k request i of
        Inl e \<Rightarrow> (dropped i k st, Err e)
      | Inr ex \<Rightarrow> (emit (Answered i request (stream_input (cg_conn (bk_guard k)))) st, Ok ex))"

definition execute_backend_attempt ::
    "session_env \<Rightarrow> ('e, 'b) world \<Rightarrow> BackendId \<Rightarrow> RequestContext \<Rightarrow> bool \<Rightarrow> ('e, 'b, 'w) session_state
       \<Rightarrow> ('e, 'b, 'w) session_state \<times> (ExchangeError + 'b BackendResponseExchange)" where
  "execute_backend_attempt S P i request stat_probe_retry_only st =
     (case checkout_direct_backend_connection P i st of
        (st, Inl e) \<Rightarrow> (st, Err e)
      | (st, Inr k) \<Rightarrow>
          (case (if should_use_stat_missing_probe S i request stat_probe_retry_only
                 then stat_probe_request request else None) of
             None \<Rightarrow> execute_and_read_response S P k i request st
           | Some stat_req \<Rightarrow>
               (case execute_and_read_response S P k i stat_req st of
                  (st, Inl e) \<Rightarrow> (st, Err e)
                | (st, Inr probe) \<Rightarrow>
                    if exchange_status_code probe = Some (StatusCode 430) then (st, Ok probe)
                    else (case observe_and_reuse (se_exchange S i) probe of
                            Inl e \<Rightarrow> (dropped i (ex_conn probe) st, Err (ObserveFailed e))
                          | Inr k \<Rightarrow> execute_and_read_response S P k i request st))))"

text \<open>The macro \<open>retry_once!\<close>: the operation runs again after an error, whose value is kept.\<close>

definition retry_once :: "('s \<Rightarrow> 's \<times> ('x + 'y)) \<Rightarrow> 's \<Rightarrow> 's \<times> ('x + 'y)" where
  "retry_once f s =
     (case f s of
        (s, Inr y) \<Rightarrow> (s, Inr y)
      | (s, Inl first_error) \<Rightarrow>
          (case f s of
             (s, Inr y) \<Rightarrow> (s, Inr y)
           | (s, Inl _) \<Rightarrow> (s, Inl first_error)))"

definition suppress_backend :: "BackendId \<Rightarrow> ('e, 'b, 'w) session_state \<Rightarrow> ('e, 'b, 'w) session_state" where
  "suppress_backend i st = st\<lparr>ss_unavailable := suppress (ss_unavailable st) i\<rparr>"

text \<open>An unparsable answer hands its connection to the task that tries to salvage it.\<close>

definition prepare_backend_attempt ::
    "session_env \<Rightarrow> ('e, 'b) world \<Rightarrow> BackendId \<Rightarrow> RequestContext \<Rightarrow> bool \<Rightarrow> ('e, 'b, 'w) session_state
       \<Rightarrow> ('e, 'b, 'w) session_state \<times> 'b BackendResponseExchange option" where
  "prepare_backend_attempt S P i request is_retry_attempt st =
     (case retry_once (execute_backend_attempt S P i request is_retry_attempt) st of
        (st, Inl _) \<Rightarrow> (suppress_backend i st, None)
      | (st, Inr ex) \<Rightarrow>
          (let st = st\<lparr>ss_client_to_backend := ss_client_to_backend st + request_wire_len request\<rparr> in
           case exchange_status_code ex of
             Some _ \<Rightarrow> (st, Some ex)
           | None \<Rightarrow>
               (suppress_backend i (emit (SalvageStarted i (cg_conn (bk_guard (ex_conn ex)))) st), None)))"

datatype BackendAttemptResult =
    AttemptSuccess
  | ArticleNotFound BackendId
  | BackendUnavailable
  | NoRetryableBackend

definition missing_from_status_code ::
    "BackendId \<times> AvailabilitySlot \<Rightarrow> StatusCode \<Rightarrow> (BackendId \<times> AvailabilitySlot) option" where
  "missing_from_status_code backend status = (if into_inner status = 430 then Some backend else None)"

text \<open>
  \<open>record_authoritative_article_missing\<close> and the update of the cache that follows it in every caller.
\<close>

definition record_article_missing ::
    "RequestContext \<Rightarrow> BackendId \<times> AvailabilitySlot \<Rightarrow> ('e, 'b, 'w) session_state \<Rightarrow> ('e, 'b, 'w) session_state" where
  "record_article_missing request missing st =
     (let st = emit (MissingRecorded (fst missing) (snd missing))
                 (st\<lparr>ss_availability := record_missing_slot (ss_availability st) (snd missing)\<rparr>)
      in case lookup_message_id request of
           None \<Rightarrow> st
         | Some m \<Rightarrow> emit (CacheUpdate (RecordMissing m (snd missing))) st)"

definition attempt_on_backend ::
    "session_env \<Rightarrow> ('e, 'b) world \<Rightarrow> 'w writer_api \<Rightarrow> BackendInfo \<Rightarrow> RequestContext \<Rightarrow> bool
       \<Rightarrow> ('e, 'b, 'w) session_state
       \<Rightarrow> ('e, 'b, 'w) session_state \<times> RequestContext \<times> (SessionError + BackendAttemptResult)" where
  "attempt_on_backend S P W b request is_retry_attempt st =
     (let i = bi_id b in
      case prepare_backend_attempt S P i request is_retry_attempt st of
        (st, None) \<Rightarrow> (st, request, Ok BackendUnavailable)
      | (st, Some ex) \<Rightarrow>
          (case exchange_status_code ex of
             None \<Rightarrow> (dropped i (ex_conn ex) st, request, Err (SessionBackend CauseOther))
           | Some status \<Rightarrow>
               (case missing_from_status_code (i, bi_availability_slot b) status of
                  Some missing \<Rightarrow>
                    (let st = record_article_missing request missing st in
                     case observe_and_reuse (se_exchange S i) ex of
                       Inl e \<Rightarrow> (dropped i (ex_conn ex) st, request, Err (SessionBackend (CauseTransfer e)))
                     | Inr k \<Rightarrow> (release_or_reuse_connection k i st, request, Ok (ArticleNotFound (fst missing))))
                | None \<Rightarrow>
                    (case write_successful_backend_response S P W ex request st of
                       (st, Inr resp) \<Rightarrow> (st, record_backend_response i resp request, Ok AttemptSuccess)
                     | (st, Inl (SessionDisconnect e)) \<Rightarrow> (st, request, Err (SessionDisconnect e))
                     | (st, Inl (SessionBackend c)) \<Rightarrow> (suppress_backend i st, request, Err (SessionBackend c))))))"

text \<open>
  The command guard completes the command on the router when the attempt ends, on every path. A routed
  backend always has a provider, which is the registered backend itself.
\<close>

definition try_backend_for_article ::
    "session_env \<Rightarrow> ('e, 'b) world \<Rightarrow> 'w writer_api \<Rightarrow> RequestContext \<Rightarrow> bool \<Rightarrow> ('e, 'b, 'w) session_state
       \<Rightarrow> ('e, 'b, 'w) session_state \<times> RequestContext \<times> (SessionError + BackendAttemptResult)" where
  "try_backend_for_article S P W request is_retry_attempt st =
     (case wd_others P (ss_env st) of
        (e, others) \<Rightarrow>
          (case route_selected_backend others (Some (ss_availability st)) (ss_unavailable st) (ss_router st) of
             (Inl _, sel) \<Rightarrow> (st\<lparr>ss_env := e, ss_router := sel\<rparr>, request, Ok NoRetryableBackend)
           | (Inr i, sel) \<Rightarrow>
               (let st = st\<lparr>ss_env := e, ss_router := sel\<rparr> in
                case (case find_backend sel i of
                        None \<Rightarrow> (st, request, Ok BackendUnavailable)
                      | Some b \<Rightarrow> attempt_on_backend S P W b request is_retry_attempt st) of
                  (st, request, r) \<Rightarrow> (st\<lparr>ss_router := complete_command i (ss_router st)\<rparr>, request, r))))"

section \<open>Probing the remaining backends\<close>

definition stat_candidates ::
    "session_env \<Rightarrow> BackendSelector \<Rightarrow> usize \<Rightarrow> usize \<Rightarrow> u8 list \<Rightarrow> BackendId list" where
  "stat_candidates S sel availability unavailable tiers =
     concat (map (\<lambda>tier. filter (\<lambda>i.
         \<not> is_suppressed unavailable i \<and>
         (case find_backend sel i of
            None \<Rightarrow> False
          | Some b \<Rightarrow> should_try_slot availability (bi_availability_slot b) \<and> se_stat_missing S i))
       (backend_ids_in_tier sel tier)) tiers)"

datatype RetryStatProbeOutcome = ProbeMissing BackendId | ProbePresent | ProbeUnavailable BackendId

text \<open>
  A probe holds a pending count of its backend while it runs. The connection that \<open>observe_and_reuse\<close>
  returns is dropped.
\<close>

definition retry_stat_probe ::
    "session_env \<Rightarrow> ('e, 'b) world \<Rightarrow> RequestContext \<Rightarrow> BackendId \<Rightarrow> ('e, 'b, 'w) session_state
       \<Rightarrow> ('e, 'b, 'w) session_state \<times> RetryStatProbeOutcome" where
  "retry_stat_probe S P stat_req i st =
     (let st = st\<lparr>ss_router := mark_backend_pending i (ss_router st)\<rparr>;
          (st, outcome) =
            (case checkout_connection P i st of
               (st, Inl _) \<Rightarrow> (st, ProbeUnavailable i)
             | (st, Inr k) \<Rightarrow>
                 (case execute_and_read_response S P k i stat_req st of
                    (st, Inl _) \<Rightarrow> (st, ProbeUnavailable i)
                  | (st, Inr ex) \<Rightarrow>
                      (case observe_and_reuse (se_exchange S i) ex of
                         Inl _ \<Rightarrow> (dropped i (ex_conn ex) st, ProbeUnavailable i)
                       | Inr k \<Rightarrow>
                           (dropped i k st,
                            if exchange_status_code ex = Some (StatusCode 430) then ProbeMissing i
                            else ProbePresent))))
      in (st\<lparr>ss_router := complete_command i (ss_router st)\<rparr>, outcome))"

text \<open>The probes end in any order: \<open>order\<close> lists positions, and what it leaves out follows.\<close>

definition reorder :: "nat list \<Rightarrow> 'x list \<Rightarrow> 'x list" where
  "reorder order xs =
     (let first = remdups (filter (\<lambda>k. k < length xs) order)
      in map ((!) xs) (first @ filter (\<lambda>k. k \<notin> set first) [0..<length xs]))"

definition apply_probe_outcome ::
    "RequestContext \<Rightarrow> RetryStatProbeOutcome \<Rightarrow> ('e, 'b, 'w) session_state \<Rightarrow> ('e, 'b, 'w) session_state" where
  "apply_probe_outcome request outcome st =
     (case outcome of
        ProbeMissing i \<Rightarrow>
          (case find_backend (ss_router st) i of
             None \<Rightarrow> st
           | Some b \<Rightarrow> record_article_missing request (i, bi_availability_slot b) st)
      | ProbePresent \<Rightarrow> st
      | ProbeUnavailable i \<Rightarrow> suppress_backend i st)"

fun run_probes ::
    "session_env \<Rightarrow> ('e, 'b) world \<Rightarrow> RequestContext \<Rightarrow> RequestContext \<Rightarrow> BackendId list
       \<Rightarrow> ('e, 'b, 'w) session_state \<Rightarrow> ('e, 'b, 'w) session_state" where
  "run_probes S P request stat_req [] st = st"
| "run_probes S P request stat_req (i # is) st =
     (case retry_stat_probe S P stat_req i st of
        (st, outcome) \<Rightarrow> run_probes S P request stat_req is (apply_probe_outcome request outcome st))"

definition parallel_retry_stat_sweep ::
    "session_env \<Rightarrow> ('e, 'b) world \<Rightarrow> RequestContext \<Rightarrow> ('e, 'b, 'w) session_state \<Rightarrow> ('e, 'b, 'w) session_state" where
  "parallel_retry_stat_sweep S P request st =
     (if \<not> has_message_id request \<or> rc_kind request = Stat \<or> rc_kind request \<notin> {Article, Body, Head} then st
      else case stat_probe_request request of
             None \<Rightarrow> st
           | Some stat_req \<Rightarrow>
               (let sel = ss_router st;
                    candidates = stat_candidates S sel (ss_availability st) (ss_unavailable st) (bs_sorted_tiers sel)
                in if length candidates < 2 then st
                   else case wd_order P (ss_env st) of
                          (e, order) \<Rightarrow>
                            run_probes S P request (clone_for_background_probe stat_req) (reorder order candidates)
                              (st\<lparr>ss_env := e\<rparr>)))"

text \<open>The background probes of the lower tiers; the candidates are what the spawned task gets.\<close>

definition spawn_non_primary_tier_stat_prefetch ::
    "session_env \<Rightarrow> RequestContext \<Rightarrow> ('e, 'b, 'w) session_state \<Rightarrow> ('e, 'b, 'w) session_state" where
  "spawn_non_primary_tier_stat_prefetch S request st =
     (if rc_kind request \<notin> {Article, Body} \<or> rc_kind request = Stat \<or> \<not> has_message_id request then st
      else let sel = ss_router st;
               candidates = stat_candidates S sel (ss_availability st) (ss_unavailable st)
                              (filter (\<lambda>tier. tier > 0) (bs_sorted_tiers sel))
           in if candidates = [] then st else emit (PrefetchSpawned candidates) st)"

section \<open>The loop\<close>

definition write_backend_error_response ::
    "'w writer_api \<Rightarrow> 'w \<Rightarrow> 'w \<times> (SessionError + nat)" where
  "write_backend_error_response W w =
     (case write_all W w BACKEND_ERROR of
        (w, Inl e) \<Rightarrow> (w, Err (session_from_io e))
      | (w, Inr _) \<Rightarrow>
          (case flush W w of
             (w, Inl e) \<Rightarrow> (w, Err (session_from_io e))
           | (w, Inr _) \<Rightarrow> (w, Ok (length BACKEND_ERROR))))"

definition send_430_to_client ::
    "'w writer_api \<Rightarrow> ('e, 'b, 'w) session_state \<Rightarrow> ('e, 'b, 'w) session_state \<times> (IoError + unit)" where
  "send_430_to_client W st =
     (case write_all W (ss_writer st) NO_SUCH_ARTICLE of
        (w, Inl e) \<Rightarrow> (st\<lparr>ss_writer := w\<rparr>, Err e)
      | (w, Inr _) \<Rightarrow>
          (st\<lparr>ss_writer := w, ss_backend_to_client := ss_backend_to_client st + length NO_SUCH_ARTICLE\<rparr>, Ok ()))"

text \<open>\<open>None\<close> is a loop that never ends or the panic on a missing response metadatum.\<close>

partial_function (option) execute_article_retry_loop ::
    "session_env \<Rightarrow> ('e, 'b) world \<Rightarrow> 'w writer_api \<Rightarrow> RequestContext \<Rightarrow> bool \<Rightarrow> bool \<Rightarrow> bool
       \<Rightarrow> ('e, 'b, 'w) session_state
       \<Rightarrow> (('e, 'b, 'w) session_state \<times> RequestContext \<times> (SessionError + unit)) option" where
  "execute_article_retry_loop S P W request is_retry_attempt prefetched swept st =
     (if all_exhausted (ss_availability st) (bs_availability_mask (ss_router st)) then
        (case send_430_to_client W st of
           (st, Inl e) \<Rightarrow> Some (st, request, Err (session_from_io e))
         | (st, Inr _) \<Rightarrow> Some (st, request, Ok ()))
      else
        (let prefetch = (\<not> is_retry_attempt \<and> \<not> prefetched);
             st = (if prefetch then spawn_non_primary_tier_stat_prefetch S request st else st);
             sweep = (is_retry_attempt \<and> \<not> swept);
             st = (if sweep then parallel_retry_stat_sweep S P request st else st)
         in case try_backend_for_article S P W request is_retry_attempt st of
              (st, request, Inr AttemptSuccess) \<Rightarrow>
                map_option (\<lambda>resp. (st\<lparr>ss_backend_to_client := ss_backend_to_client st + rm_wire_len resp\<rparr>, request, Ok ()))
                  (response_metadata request)
            | (st, request, Inr (ArticleNotFound _)) \<Rightarrow>
                execute_article_retry_loop S P W request True (prefetch \<or> prefetched) (sweep \<or> swept) st
            | (st, request, Inr BackendUnavailable) \<Rightarrow>
                execute_article_retry_loop S P W request True (prefetch \<or> prefetched) (sweep \<or> swept) st
            | (st, request, Inr NoRetryableBackend) \<Rightarrow>
                (case write_backend_error_response W (ss_writer st) of
                   (w, Inl e) \<Rightarrow> Some (st\<lparr>ss_writer := w\<rparr>, request, Err e)
                 | (w, Inr n) \<Rightarrow>
                     Some (st\<lparr>ss_writer := w, ss_backend_to_client := ss_backend_to_client st + n\<rparr>, request, Ok ()))
            | (st, request, Inl error) \<Rightarrow>
                if session_over error then Some (st, request, Err error)
                else execute_article_retry_loop S P W request is_retry_attempt (prefetch \<or> prefetched)
                       (sweep \<or> swept) st))"

section \<open>What the session relies on\<close>

text \<open>
  A checkout gives a connection without queued bytes: pooled connections are released only then. What
  other sessions do to the router keeps its invariant and the identity of the backends: they route and
  complete commands, and no backend is added after start-up.
\<close>

definition identities :: "BackendSelector \<Rightarrow> (BackendId \<times> AvailabilitySlot \<times> u8) list" where
  "identities sel = map (\<lambda>b. (bi_id b, bi_availability_slot b, bi_tier b)) (bs_backends sel)"

locale world_lib =
  fixes P :: "('e, 'b) world"
  assumes checkout_idle: "wd_checkout P i e = (e', Inr (c, b)) \<Longrightarrow> cs_pending c = []"
    and others_keep: "wd_others P e = (e', others) \<Longrightarrow> f \<in> set others \<Longrightarrow> selector_wf sel \<Longrightarrow>
      selector_wf (f sel) \<and> identities (f sel) = identities sel"

text \<open>An operation is quiet when the client and the routing see nothing of it.\<close>

definition quiet :: "('e, 'b, 'w) session_state \<Rightarrow> ('e, 'b, 'w) session_state \<Rightarrow> bool" where
  "quiet st st' \<longleftrightarrow> kept_routing st st' \<and> ss_writer st' = ss_writer st \<and> (session_clean st \<longrightarrow> session_clean st')"

lemma quiet_refl [simp]: "quiet st st"
  by (simp add: quiet_def)

lemma quiet_trans: "quiet a b \<Longrightarrow> quiet b c \<Longrightarrow> quiet a c"
  by (auto simp: quiet_def intro: kept_routing_trans)

lemma quiet_emit [simp]: "effect_clean x \<Longrightarrow> quiet st (emit x st)"
  by (simp add: quiet_def)

lemma quiet_dropped [simp]: "quiet st (dropped i k st)"
  by (simp add: dropped_def)

lemma quiet_env [simp]: "quiet st (st\<lparr>ss_env := e\<rparr>)"
  by (simp add: quiet_def session_clean_def)

lemma quiet_lease: "(\<And>i k. l = Some (i, k) \<Longrightarrow> conn_clean k) \<Longrightarrow> quiet st (st\<lparr>ss_lease := l\<rparr>)"
  by (simp add: quiet_def session_clean_def)

lemma quiet_log: "quiet st st' \<Longrightarrow> \<exists>xs. ss_log st' = ss_log st @ xs"
  by (auto simp: quiet_def kept_routing_def prefix_def)

context world_lib
begin

lemma checkout_connection_spec:
  assumes "checkout_connection P i st = (st', r)"
  shows "quiet st st' \<and> ss_lease st' = ss_lease st \<and> (\<forall>k. r = Inr k \<longrightarrow> stream_wf (cg_conn (bk_guard k)))"
proof -
  obtain e q where q: "wd_checkout P i (ss_env st) = (e, q)" by fastforce
  show ?thesis
  proof (cases q)
    case (Inl u)
    then show ?thesis using assms q by (auto simp: checkout_connection_def)
  next
    case (Inr x)
    then obtain c b where x: "q = Inr (c, b)" by (cases x) auto
    then have "cs_pending c = []" using checkout_idle q by blast
    then show ?thesis using assms q x by (auto simp: checkout_connection_def idle_new_def stream_wf_def)
  qed
qed

lemma checkout_direct_spec:
  assumes "checkout_direct_backend_connection P i st = (st', r)" "session_clean st"
  shows "quiet st st' \<and> (\<forall>k. r = Inr k \<longrightarrow> stream_wf (cg_conn (bk_guard k)))"
proof (cases "ss_lease st")
  case None
  then show ?thesis using assms(1) checkout_connection_spec
    by (auto simp: checkout_direct_backend_connection_def Let_def)
next
  case (Some l)
  obtain j k where l: "ss_lease st = Some (j, k)" using Some by (cases l) auto
  have k: "conn_clean k" "stream_wf (cg_conn (bk_guard k))" using assms(2) l by (auto simp: session_clean_def conn_clean_def)
  let ?s0 = "st\<lparr>ss_lease := None\<rparr>"
  have q0: "quiet st ?s0" by (rule quiet_lease) simp
  obtain e alive where a: "wd_alive P (cg_conn (bk_guard k)) (bk_writer k) (ss_env ?s0) = (e, alive)" by fastforce
  let ?s1 = "?s0\<lparr>ss_env := e\<rparr>"
  have q1: "quiet st ?s1" using quiet_trans [OF q0 quiet_env] .
  let ?s2 = "?s1\<lparr>ss_lease := Some (j, k)\<rparr>"
  have q2: "quiet st ?s2" by (rule quiet_trans [OF q1 quiet_lease]) (use k in simp)
  obtain s3 r3 where r3: "checkout_connection P i ?s2 = (s3, r3)" by fastforce
  note c3 = checkout_connection_spec [OF r3]
  have q3: "quiet st s3" using quiet_trans [OF q2] c3 by blast
  have q4: "quiet st (s3\<lparr>ss_lease := None\<rparr>)" by (rule quiet_trans [OF q3 quiet_lease]) simp
  define can where "can = (ps_available (wd_status P i (ss_env st)) > 0 \<or>
    ps_size (wd_status P i (ss_env st)) < ps_max_size (wd_status P i (ss_env st)))"
  have eq: "checkout_direct_backend_connection P i st =
      (if j = i then
         if \<not> alive then checkout_connection P i (emit (ConnectionFate i (fail_backend (bk_guard k))) ?s1)
         else if can then (case (s3, r3) of (s, Inr f) \<Rightarrow> (s, Inr f) | (s, Inl u) \<Rightarrow> (s\<lparr>ss_lease := None\<rparr>, Inr k))
         else (?s1, Inr k)
       else checkout_connection P i (emit (ConnectionFate j (complete_success (bk_guard k))) ?s0))"
    unfolding checkout_direct_backend_connection_def Let_def l option.case prod.case a r3 can_def by (rule refl)
  consider (other) "checkout_connection P i (emit (ConnectionFate j (complete_success (bk_guard k))) ?s0) = (st', r)"
    | (dead) "checkout_connection P i (emit (ConnectionFate i (fail_backend (bk_guard k))) ?s1) = (st', r)"
    | (fresh) "st' = s3" "r = r3" | (fallback) "st' = s3\<lparr>ss_lease := None\<rparr>" "r = Inr k"
    | (reuse) "st' = ?s1" "r = Inr k"
  proof (cases "j = i")
    case False
    then show ?thesis using assms(1) other unfolding eq by simp
  next
    case True
    then show ?thesis using assms(1) dead fresh fallback reuse unfolding eq
      by (cases alive; cases can; cases r3) (simp_all only: if_True if_False simp_thms prod.case sum.case prod.inject)
  qed
  then show ?thesis
  proof cases
    case other
    have "quiet st (emit (ConnectionFate j (complete_success (bk_guard k))) ?s0)"
      by (rule quiet_trans [OF q0 quiet_emit]) (simp add: k(2))
    then show ?thesis using checkout_connection_spec [OF other] quiet_trans by blast
  next
    case dead
    have "quiet st (emit (ConnectionFate i (fail_backend (bk_guard k))) ?s1)" by (rule quiet_trans [OF q1 quiet_emit]) simp
    then show ?thesis using checkout_connection_spec [OF dead] quiet_trans by blast
  next
    case fresh
    then show ?thesis using q3 c3 by simp
  next
    case fallback
    then show ?thesis using q4 k(2) by simp
  next
    case reuse
    then show ?thesis using q1 k(2) by simp
  qed
qed

end

section \<open>Attempts\<close>

text \<open>
  What an attempt that succeeds brings: an exchange with the backend for the request itself or for the
  STAT probe of its message-ID, and the entry of the log for it.
\<close>

definition attempt_ok ::
    "memchr_api \<Rightarrow> BackendId \<Rightarrow> RequestContext \<Rightarrow> Effect list \<Rightarrow> Effect list \<Rightarrow> 'b BackendResponseExchange \<Rightarrow> bool" where
  "attempt_ok M i request old new ex \<longleftrightarrow>
     ex_backend_id ex = i \<and>
     (\<exists>rq xs. exchange_wf M rq ex \<and> new = old @ xs \<and> Answered i rq (exchange_input ex) \<in> set xs \<and>
        rc_args rq = rc_args request \<and>
        (rq = request \<or> exchange_status_code ex = Some (StatusCode 430)))"

lemma attempt_ok_append: "attempt_ok M i request (old @ xs) new ex \<Longrightarrow> attempt_ok M i request old new ex"
  by (fastforce simp: attempt_ok_def)

lemma attempt_ok_quiet: "quiet st st1 \<Longrightarrow> attempt_ok M i request (ss_log st1) new ex \<Longrightarrow> attempt_ok M i request (ss_log st) new ex"
  using quiet_log [of st st1] attempt_ok_append by metis

lemma execute_and_read_response_spec:
  assumes "execute_and_read_response S P k i request st = (st', r)" "memchr_lib (se_memchr S)"
    "stream_wf (cg_conn (bk_guard k))"
  shows "quiet st st' \<and> ss_lease st' = ss_lease st \<and>
    (\<forall>ex. r = Inr ex \<longrightarrow> exchange_wf (se_memchr S) request ex \<and> ex_backend_id ex = i \<and>
       ss_log st' = ss_log st @ [Answered i request (exchange_input ex)])"
proof -
  obtain q where q: "execute_request_exchange (se_exchange S i) (wd_send P) k request i = q" by simp
  show ?thesis
  proof (cases q)
    case (Inl e)
    then show ?thesis using assms(1) q by (auto simp: execute_and_read_response_def dropped_def)
  next
    case (Inr ex)
    then show ?thesis
      using assms(1) q execute_request_exchange_spec [of "se_exchange S i" "wd_send P" k request i ex] assms(2,3)
      by (auto simp: execute_and_read_response_def)
  qed
qed

context world_lib
begin

lemma execute_backend_attempt_spec:
  assumes "execute_backend_attempt S P i request retry st = (st', r)" "memchr_lib (se_memchr S)" "session_clean st"
  shows "quiet st st' \<and> (\<forall>ex. r = Inr ex \<longrightarrow> attempt_ok (se_memchr S) i request (ss_log st) (ss_log st') ex)"
proof -
  obtain s1 c where c: "checkout_direct_backend_connection P i st = (s1, c)" by fastforce
  note co = checkout_direct_spec [OF c assms(3)]
  define probe where "probe = (if should_use_stat_missing_probe S i request retry then stat_probe_request request else None)"
  note unfold = execute_backend_attempt_def [of S P i request retry st, folded probe_def]
  have direct: "?thesis" if "quiet st s" "stream_wf (cg_conn (bk_guard k))"
      "execute_and_read_response S P k i request s = (st', r)" for s k
  proof -
    note rd = execute_and_read_response_spec [OF that(3) assms(2) that(2)]
    then have "attempt_ok (se_memchr S) i request (ss_log s) (ss_log st') ex" if "r = Inr ex" for ex
      using that by (auto simp: attempt_ok_def)
    then show ?thesis using rd quiet_trans [OF that(1)] attempt_ok_quiet [OF that(1)] by blast
  qed
  show ?thesis
  proof (cases c)
    case (Inl e)
    then show ?thesis using assms(1) c co by (auto simp: unfold)
  next
    case (Inr k)
    then have k: "stream_wf (cg_conn (bk_guard k))" "quiet st s1" using co by auto
    show ?thesis
    proof (cases probe)
      case None
      then have "execute_and_read_response S P k i request s1 = (st', r)" using assms(1) c Inr by (simp add: unfold)
      then show ?thesis using direct k by blast
    next
      case (Some stat)
      have args: "rc_args stat = rc_args request" using Some
        by (auto simp: probe_def stat_probe_request_def from_verb_args_def from_parts_def split: if_splits)
      obtain s2 p where p: "execute_and_read_response S P k i stat s1 = (s2, p)" by fastforce
      note rd = execute_and_read_response_spec [OF p assms(2) k(1)]
      have q2: "quiet st s2" using quiet_trans [OF k(2)] rd by blast
      show ?thesis
      proof (cases p)
        case (Inl e)
        then show ?thesis using assms(1) c Inr Some p q2 by (auto simp: unfold)
      next
        case ex: (Inr ex)
        obtain o' where o': "observe_and_reuse (se_exchange S i) ex = o'" by simp
        have eq: "execute_backend_attempt S P i request retry st =
            (if exchange_status_code ex = Some (StatusCode 430) then (s2, Inr ex)
             else (case o' of
                     Inl e \<Rightarrow> (dropped i (ex_conn ex) s2, Inl (ObserveFailed e))
                   | Inr k \<Rightarrow> execute_and_read_response S P k i request s2))"
          unfolding unfold c Inr prod.case sum.case Some option.case p ex o' by (rule refl)
        consider (missing) "exchange_status_code ex = Some (StatusCode 430)" "st' = s2" "r = Inr ex"
          | (failed) e where "st' = dropped i (ex_conn ex) s2" "r = Inl e"
          | (present) k' where "o' = Inr k'" "execute_and_read_response S P k' i request s2 = (st', r)"
        proof (cases "exchange_status_code ex = Some (StatusCode 430)")
          case True
          then show ?thesis using assms(1) unfolding eq if_P [OF True] by (intro missing) simp_all
        next
          case False
          then show ?thesis using assms(1) failed present unfolding eq if_not_P [OF False]
            by (cases o') (simp_all only: sum.case prod.inject, blast+)
        qed
        then show ?thesis
        proof cases
          case missing
          then have "attempt_ok (se_memchr S) i request (ss_log s1) (ss_log st') ex"
            using rd ex args by (auto simp: attempt_ok_def)
          then show ?thesis using q2 missing attempt_ok_quiet [OF k(2)] by auto
        next
          case failed
          then show ?thesis using quiet_trans [OF q2 quiet_dropped] by simp
        next
          case present
          have "stream_wf (cg_conn (bk_guard k'))"
            using observe_and_reuse_spec(1) [of "se_exchange S i" ex k' stat] o' present(1) rd ex assms(2) by auto
          then show ?thesis using direct q2 present(2) by blast
        qed
      qed
    qed
  qed
qed

end

section \<open>Routing under interference\<close>

lemma identities_update:
  "(\<And>b. bi_id (f b) = bi_id b \<and> bi_availability_slot (f b) = bi_availability_slot b \<and> bi_tier (f b) = bi_tier b) \<Longrightarrow>
     identities (update_backend i f sel) = identities sel"
  by (simp add: identities_def update_backend_def)

lemma identities_counters [simp]:
  "identities (update_backend i pending_increment sel) = identities sel"
  "identities (complete_command i sel) = identities sel" "identities (mark_backend_pending i sel) = identities sel"
  by (simp_all add: complete_command_def mark_backend_pending_def identities_update pending_increment_def pending_decrement_def)

lemma identities_same_routes: "same_routes sel sel' \<Longrightarrow> identities sel' = identities sel"
  by (simp add: same_routes_def identities_def)

lemma selector_wf_counters [simp]:
  "selector_wf sel \<Longrightarrow> selector_wf (update_backend i pending_increment sel)"
  "selector_wf sel \<Longrightarrow> selector_wf (complete_command i sel)" "selector_wf sel \<Longrightarrow> selector_wf (mark_backend_pending i sel)"
  by (simp_all add: complete_command_def mark_backend_pending_def router_inv)

lemma find_backend_of:
  assumes "selector_wf sel" "b \<in> set (bs_backends sel)"
  shows "find_backend sel (bi_id b) = Some b"
proof (cases "find_backend sel (bi_id b)")
  case None
  then show ?thesis using assms(2) by (auto simp: find_backend_def find_None_iff)
next
  case (Some c)
  then show ?thesis using find_backend_nth [OF assms(1) Some] backends_by_id [OF assms(1) _ assms(2)] by auto
qed

text \<open>A backend is found under the same identity after the counters have changed.\<close>

lemma find_backend_identities:
  assumes "selector_wf sel" "selector_wf sel'" "identities sel' = identities sel" "find_backend sel i = Some b"
  obtains b' where "find_backend sel' i = Some b'" "bi_id b' = i" "bi_availability_slot b' = bi_availability_slot b"
proof -
  have b: "b \<in> set (bs_backends sel)" "bi_id b = i" using find_backend_nth [OF assms(1,4)] by auto
  then have "(i, bi_availability_slot b, bi_tier b) \<in> set (identities sel')"
    unfolding assms(3) by (auto simp: identities_def)
  then obtain b' where b': "b' \<in> set (bs_backends sel')" "bi_id b' = i" "bi_availability_slot b' = bi_availability_slot b"
    by (auto simp: identities_def)
  show ?thesis using that [OF _ b'(2,3)] find_backend_of [OF assms(2) b'(1)] b'(2) by simp
qed

lemma is_available_cong:
  "bi_id b' = bi_id b \<Longrightarrow> bi_availability_slot b' = bi_availability_slot b \<Longrightarrow> is_available av su b' = is_available av su b"
  by (simp add: is_available_def slot_allowed_def split: option.split)

definition unroutable :: "BackendSelector \<Rightarrow> usize option \<Rightarrow> usize \<Rightarrow> bool" where
  "unroutable sel av su \<longleftrightarrow> selection_ok sel av su (set (bs_sorted_tiers sel)) None"

definition interference_ok :: "(BackendSelector \<Rightarrow> BackendSelector) list \<Rightarrow> bool" where
  "interference_ok others \<longleftrightarrow>
     (\<forall>f \<in> set others. \<forall>sel. selector_wf sel \<longrightarrow> selector_wf (f sel) \<and> identities (f sel) = identities sel)"

definition routed ::
    "BackendSelector \<Rightarrow> usize option \<Rightarrow> usize \<Rightarrow> RouteError + BackendId \<Rightarrow> BackendSelector \<Rightarrow> bool" where
  "routed sel av su r sel' \<longleftrightarrow>
     selector_wf sel' \<and> identities sel' = identities sel \<and>
     (case r of
        Inl _ \<Rightarrow> unroutable sel' av su
      | Inr i \<Rightarrow> (\<exists>b. find_backend sel' i = Some b \<and> bi_id b = i \<and> is_available av su b))"

lemma routed_Inr:
  assumes "selector_wf sel1" "identities sel1 = identities sel" "b \<in> set (bs_backends sel1)" "is_available av su b"
    and "selector_wf sel'" "identities sel' = identities sel1"
  shows "routed sel av su (Inr (bi_id b)) sel'"
proof -
  obtain b' where b': "find_backend sel' (bi_id b) = Some b'" "bi_id b' = bi_id b"
      "bi_availability_slot b' = bi_availability_slot b"
    by (rule find_backend_identities [OF assms(1,5,6) find_backend_of [OF assms(1,3)]])
  have "is_available av su b'" using is_available_cong [OF b'(2,3)] assms(4) by simp
  then show ?thesis using b'(1,2) assms(2,5,6) by (simp add: routed_def)
qed

lemma routed_Inl:
  assumes "selector_wf sel" "select_backend sel av su = (None, sel')"
  shows "routed sel av su (Inl e) sel'"
proof -
  have s: "selection_ok sel av su (set (bs_sorted_tiers sel)) None" "same_routes sel sel'"
    using select_backend_ok [OF assms] by auto
  then have "bs_sorted_tiers sel' = bs_sorted_tiers sel" by (simp add: same_routes_def)
  then show ?thesis using s assms(1) same_routes_selection_ok [OF s(2)]
    by (simp add: routed_def unroutable_def selector_wf_same_routes identities_same_routes)
qed

lemma select_backend_Some:
  assumes "selector_wf sel" "select_backend sel av su = (Some (b, snap), sel')"
  shows "selector_wf sel'" "identities sel' = identities sel" "b \<in> set (bs_backends sel')" "is_available av su b"
    "slot_allowed av b"
proof -
  have s: "selection_ok sel av su (set (bs_sorted_tiers sel)) (Some (b, snap))" "same_routes sel sel'"
    using select_backend_ok [OF assms] by auto
  show "selector_wf sel'" "identities sel' = identities sel"
    using s(2) assms(1) by (simp_all add: selector_wf_same_routes identities_same_routes)
  have "selected_ok sel (tier_filter sel av su (bi_tier b)) (Some (b, snap))" using s(1) by (simp add: selection_ok_def)
  then show "b \<in> set (bs_backends sel')" "is_available av su b" "slot_allowed av b"
    using s(2) by (auto simp: selected_ok_def tier_filter_def same_routes_def is_available_def split: if_splits)
qed

lemma try_increment_update:
  assumes "selector_wf sel" "find_backend sel i = Some b" "try_increment_from n b = Some b''"
  shows "update_backend i (\<lambda>_. b'') sel = update_backend i pending_increment sel"
proof -
  have b: "b \<in> set (bs_backends sel)" "bi_id b = i" using find_backend_nth [OF assms(1,2)] by auto
  have eq: "x = b" if "x \<in> set (bs_backends sel)" "bi_id x = i" for x
    using backends_by_id [OF assms(1) that(1) b(1)] that(2) b(2) by simp
  have "b'' = pending_increment b" using assms(3) by (auto simp: try_increment_from_def pending_increment_def split: if_splits)
  then have "map (\<lambda>x. if bi_id x = i then b'' else x) (bs_backends sel) =
      map (\<lambda>x. if bi_id x = i then pending_increment x else x) (bs_backends sel)"
    by (intro map_cong refl if_cong) (drule (1) eq, simp)
  then show ?thesis by (simp add: update_backend_def)
qed

lemma route_selected_backend_routed:
  assumes "route_selected_backend others av su sel = (r, sel')" "selector_wf sel" "interference_ok others"
  shows "routed sel av su r sel'"
  using assms
proof (induction others arbitrary: sel)
  case Nil
  obtain s sel1 where s: "select_backend sel av su = (s, sel1)" by fastforce
  show ?case
  proof (cases s)
    case None
    then show ?thesis using Nil s routed_Inl by (auto simp: None)
  next
    case (Some x)
    obtain b snap where x: "s = Some (b, snap)" using Some by (cases x) auto
    note b = select_backend_Some [OF Nil.prems(2) s [unfolded x]]
    have "r = Inr (bi_id b)" "sel' = update_backend (bi_id b) pending_increment sel1" using Nil s x b(5) by auto
    then show ?thesis using routed_Inr [OF b(1,2,3,4)] b(1) by simp
  qed
next
  case (Cons f others)
  obtain s sel1 where s: "select_backend sel av su = (s, sel1)" by fastforce
  show ?case
  proof (cases s)
    case None
    then show ?thesis using Cons s routed_Inl by (auto simp: None)
  next
    case (Some x)
    obtain b snap where x: "s = Some (b, snap)" using Some by (cases x) auto
    note b = select_backend_Some [OF Cons.prems(2) s [unfolded x]]
    let ?sel = "f sel1"
    have f: "selector_wf ?sel" "identities ?sel = identities sel1" using Cons.prems(3) b(1) by (auto simp: interference_ok_def)
    have inc: "routed sel av su (Inr (bi_id b)) (update_backend (bi_id b) pending_increment ?sel)"
      by (rule routed_Inr [OF b(1,2,3,4)]) (simp_all add: f)
    have again: "routed sel av su r sel'" if "route_selected_backend others av su ?sel = (r, sel')"
    proof -
      have "interference_ok others" using Cons.prems(3) by (simp add: interference_ok_def)
      then have "routed ?sel av su r sel'" by (rule Cons.IH [OF that f(1)])
      then show ?thesis using f b(2) by (simp add: routed_def)
    qed
    show ?thesis
    proof (cases snap)
      case None
      then show ?thesis using Cons.prems(1) s x b(5) inc by auto
    next
      case snap: (Some n)
      show ?thesis
      proof (cases "find_backend ?sel (bi_id b)")
        case None
        then show ?thesis using Cons.prems(1) s x b(5) snap again by simp
      next
        case (Some b')
        then show ?thesis using Cons.prems(1) s x b(5) snap again inc try_increment_update [OF f(1) Some]
          by (cases "try_increment_from n b'") auto
      qed
    qed
  qed
qed

section \<open>Progress of the article state\<close>

text \<open>
  A missing mark is justified by the log when a backend of the slot answered 430 to the request, or to
  the STAT probe with the same arguments.
\<close>

definition justified :: "RequestContext \<Rightarrow> BackendSelector \<Rightarrow> Effect list \<Rightarrow> nat \<Rightarrow> bool" where
  "justified request sel xs n \<longleftrightarrow>
     (\<exists>i slot tier rq D. Answered i rq D \<in> set xs \<and> (i, slot, tier) \<in> set (identities sel) \<and> slot_index slot = n \<and>
        rc_args rq = rc_args request \<and> status_parse D = Some (StatusCode 430))"

text \<open>\<open>moved\<close>: marks and suppressions are only added, every new mark is justified, and the invariants hold.\<close>

definition moved :: "RequestContext \<Rightarrow> ('e, 'b, 'w) session_state \<Rightarrow> ('e, 'b, 'w) session_state \<Rightarrow> bool" where
  "moved request st st' \<longleftrightarrow>
     selector_wf (ss_router st') \<and> session_clean st' \<and> identities (ss_router st') = identities (ss_router st) \<and>
     (\<forall>n. bit (ss_unavailable st) n \<longrightarrow> bit (ss_unavailable st') n) \<and>
     (\<forall>n. bit (ss_availability st) n \<longrightarrow> bit (ss_availability st') n) \<and>
     (\<exists>xs. ss_log st' = ss_log st @ xs \<and>
        (\<forall>n. bit (ss_availability st') n \<longrightarrow> bit (ss_availability st) n \<or> justified request (ss_router st) xs n))"

definition retry_inv :: "('e, 'b, 'w) session_state \<Rightarrow> bool" where
  "retry_inv st \<longleftrightarrow> selector_wf (ss_router st) \<and> session_clean st"

lemma moved_inv: "moved request st st' \<Longrightarrow> retry_inv st'"
  by (simp add: moved_def retry_inv_def)

lemma justified_mono: "justified request sel xs n \<Longrightarrow> set xs \<subseteq> set ys \<Longrightarrow> identities sel' = identities sel \<Longrightarrow> justified request sel' ys n"
  unfolding justified_def by (metis subsetD)

lemma moved_trans:
  assumes "moved request a b" "moved request b c"
  shows "moved request a c"
proof -
  obtain xs where xs: "ss_log b = ss_log a @ xs"
    "\<forall>n. bit (ss_availability b) n \<longrightarrow> bit (ss_availability a) n \<or> justified request (ss_router a) xs n"
    using assms(1) by (auto simp: moved_def)
  obtain ys where ys: "ss_log c = ss_log b @ ys"
    "\<forall>n. bit (ss_availability c) n \<longrightarrow> bit (ss_availability b) n \<or> justified request (ss_router b) ys n"
    using assms(2) by (auto simp: moved_def)
  have id: "identities (ss_router a) = identities (ss_router b)" using assms(1) by (simp add: moved_def)
  have "bit (ss_availability a) n \<or> justified request (ss_router a) (xs @ ys) n" if "bit (ss_availability c) n" for n
    using ys(2) xs(2) that justified_mono [of request "ss_router b" ys n "xs @ ys", OF _ _ id]
      justified_mono [of request "ss_router a" xs n "xs @ ys", OF _ _ refl] by auto
  then show ?thesis using assms xs(1) ys(1) unfolding moved_def by auto
qed

lemma moved_refl: "retry_inv st \<Longrightarrow> moved request st st"
  by (simp add: moved_def retry_inv_def)

lemma quiet_moved:
  assumes "quiet st st'" "retry_inv st"
  shows "moved request st st'"
  using assms by (auto simp: quiet_def kept_routing_def moved_def retry_inv_def prefix_def)

lemma kept_moved:
  assumes "kept_routing st st'" "session_clean st'" "retry_inv st"
  shows "moved request st st'"
  using assms by (auto simp: kept_routing_def moved_def retry_inv_def prefix_def)

lemma moved_fields:
  "moved request st (st'\<lparr>ss_writer := w\<rparr>) = moved request st st'" "moved request st (st'\<lparr>ss_env := e\<rparr>) = moved request st st'"
  "moved request st (st'\<lparr>ss_client_to_backend := n\<rparr>) = moved request st st'"
  "moved request st (st'\<lparr>ss_backend_to_client := n\<rparr>) = moved request st st'"
  by (simp_all add: moved_def session_clean_def)

lemma bit_suppress: "bit (suppress su i) n \<longleftrightarrow> bit su n \<or> n = as_index i \<and> n < 64"
  by (auto simp: suppress_def bit_or_iff bit_availability_bit)

lemma bit_record_missing: "bit (record_missing_slot m s) n \<longleftrightarrow> bit m n \<or> n = slot_index s \<and> n < 64"
  by (auto simp: record_missing_slot_def slot_bit_def bit_simps)

lemma moved_suppress: "moved request st st' \<Longrightarrow> moved request st (suppress_backend i st')"
  by (auto simp: moved_def suppress_backend_def session_clean_def bit_suppress)

lemma bit_suppress_backend:
  "bit (ss_unavailable (suppress_backend i st)) n \<longleftrightarrow> bit (ss_unavailable st) n \<or> n = as_index i \<and> n < 64"
  by (simp add: suppress_backend_def bit_suppress)

lemma suppress_simps [simp]:
  "ss_writer (suppress_backend i st) = ss_writer st" "ss_log (suppress_backend i st) = ss_log st"
  "ss_router (suppress_backend i st) = ss_router st" "ss_availability (suppress_backend i st) = ss_availability st"
  "session_clean (suppress_backend i st) = session_clean st"
  by (simp_all add: suppress_backend_def session_clean_def)

lemma record_article_missing_simps [simp]:
  "ss_writer (record_article_missing request m st) = ss_writer st" "ss_router (record_article_missing request m st) = ss_router st"
  "ss_unavailable (record_article_missing request m st) = ss_unavailable st"
  "ss_availability (record_article_missing request m st) = record_missing_slot (ss_availability st) (snd m)"
  "session_clean (record_article_missing request m st) = session_clean st"
  by (simp_all add: record_article_missing_def Let_def session_clean_def split: option.split)

lemma record_article_missing_log: "\<exists>xs. ss_log (record_article_missing request m st) = ss_log st @ xs"
  by (simp add: record_article_missing_def Let_def split: option.split)

lemma moved_missing:
  assumes "moved request st st'" "(i, s, t) \<in> set (identities (ss_router st))" "ss_log st' = ss_log st @ ys"
    "Answered i rq D \<in> set ys" "rc_args rq = rc_args request" "status_parse D = Some (StatusCode 430)"
  shows "moved request st (record_article_missing request (i, s) st')"
proof -
  obtain xs where xs: "ss_log (record_article_missing request (i, s) st') = ss_log st @ (ys @ xs)"
    using record_article_missing_log [of request "(i, s)" st'] assms(3) by auto
  have "justified request (ss_router st) (ys @ xs) (slot_index s)" unfolding justified_def
    using assms(2,4,5,6) by (intro exI [of _ i] exI [of _ s] exI [of _ t] exI [of _ rq] exI [of _ D]) simp
  moreover have "bit (ss_availability st) n \<or> justified request (ss_router st) (ys @ xs) n" if "bit (ss_availability st') n" for n
    using assms(1,3) that justified_mono [of request "ss_router st" ys n "ys @ xs", OF _ _ refl] by (auto simp: moved_def)
  ultimately show ?thesis using assms(1) xs by (auto simp: moved_def bit_record_missing)
qed

section \<open>One attempt\<close>

lemma exchange_status_input:
  assumes "exchange_wf M rq ex" "exchange_status_code ex = Some s"
  shows "status_parse (exchange_input ex) = Some s"
proof -
  obtain resp where resp: "ex_response ex = Some resp" "cl_frame resp = parse_bytes M rq (visible (cl_buffer resp))"
    using assms(1) by (auto simp: exchange_wf_def classified_wf_def split: option.splits)
  have "status_parse (visible (cl_buffer resp)) = Some s"
    using assms(2) resp
    by (auto simp: exchange_status_code_def classified_status_code_def parse_bytes_def parse_response_status_def Let_def
        split: sum.splits ResponseFrame.splits option.splits if_splits)
  then show ?thesis by (simp add: exchange_input_def resp(1) status_parse_append)
qed

lemma retry_once_cases:
  assumes "retry_once f s = (s', r)"
  obtains (first) y where "f s = (s', Inr y)" "r = Inr y"
  | (second) s1 e r2 where "f s = (s1, Inl e)" "f s1 = (s', r2)" "r = (case r2 of Inl _ \<Rightarrow> Inl e | Inr y \<Rightarrow> Inr y)"
proof -
  obtain s1 r1 where 1: "f s = (s1, r1)" by fastforce
  obtain s2 r2 where 2: "f s1 = (s2, r2)" by fastforce
  show ?thesis
  proof (cases r1)
    case (Inl e)
    have "retry_once f s = (s2, case r2 of Inl _ \<Rightarrow> Inl e | Inr y \<Rightarrow> Inr y)"
      unfolding retry_once_def 1 Inl prod.case sum.case 2 by (cases r2) simp_all
    then have r: "s2 = s'" "r = (case r2 of Inl _ \<Rightarrow> Inl e | Inr y \<Rightarrow> Inr y)" using assms by simp_all
    show ?thesis by (rule second [OF 1 [unfolded Inl] 2 [unfolded r(1)] r(2)])
  next
    case (Inr y)
    have "retry_once f s = (s1, Inr y)" unfolding retry_once_def 1 Inr prod.case sum.case ..
    then have r: "s1 = s'" "r = Inr y" using assms by simp_all
    show ?thesis by (rule first [OF 1 [unfolded Inr r(1)] r(2)])
  qed
qed

context world_lib
begin

lemma prepare_backend_attempt_spec:
  assumes "prepare_backend_attempt S P i request retry st = (st', r)" "memchr_lib (se_memchr S)" "retry_inv st"
  shows "moved request st st' \<and> ss_writer st' = ss_writer st \<and>
    (case r of
       None \<Rightarrow> as_index i < 64 \<longrightarrow> bit (ss_unavailable st') (as_index i)
     | Some ex \<Rightarrow> attempt_ok (se_memchr S) i request (ss_log st) (ss_log st') ex \<and> exchange_status_code ex \<noteq> None)"
proof -
  have clean: "session_clean st" using assms(3) by (simp add: retry_inv_def)
  obtain s1 q where q: "retry_once (execute_backend_attempt S P i request retry) st = (s1, q)" by fastforce
  have 1: "quiet st s1 \<and> (\<forall>ex. q = Inr ex \<longrightarrow> attempt_ok (se_memchr S) i request (ss_log st) (ss_log s1) ex)"
  proof (cases rule: retry_once_cases [OF q])
    case (1 y)
    then show ?thesis using execute_backend_attempt_spec [OF 1(1) assms(2) clean] by auto
  next
    case (2 s e r2)
    have a: "quiet st s" using execute_backend_attempt_spec [OF 2(1) assms(2) clean] by blast
    then have "session_clean s" using clean by (simp add: quiet_def)
    from execute_backend_attempt_spec [OF 2(2) assms(2) this] show ?thesis
      using quiet_trans [OF a] attempt_ok_quiet [OF a] 2(3) by (cases r2) auto
  qed
  then have m: "moved request st s1" "ss_writer s1 = ss_writer st" using quiet_moved assms(3) by (auto simp: quiet_def)
  show ?thesis
  proof (cases q)
    case (Inl e)
    then have "st' = suppress_backend i s1" "r = None" using assms(1) q by (auto simp: prepare_backend_attempt_def)
    then show ?thesis using m by (simp add: moved_suppress bit_suppress_backend)
  next
    case (Inr ex)
    let ?s = "s1\<lparr>ss_client_to_backend := ss_client_to_backend s1 + request_wire_len request\<rparr>"
    have s: "moved request st ?s" "ss_writer ?s = ss_writer st" using m by (simp_all add: moved_fields)
    show ?thesis
    proof (cases "exchange_status_code ex")
      case None
      let ?x = "SalvageStarted i (cg_conn (bk_guard (ex_conn ex)))"
      have "st' = suppress_backend i (emit ?x ?s)" "r = None"
        using assms(1) q Inr None by (auto simp: prepare_backend_attempt_def Let_def)
      moreover have "moved request st (emit ?x ?s)"
        by (rule moved_trans [OF s(1) quiet_moved]) (simp_all add: moved_inv [OF s(1)])
      ultimately show ?thesis using m by (simp add: moved_suppress bit_suppress_backend)
    next
      case (Some status)
      then have "st' = ?s" "r = Some ex" using assms(1) q Inr by (auto simp: prepare_backend_attempt_def Let_def)
      then show ?thesis using s 1 Inr Some by simp
    qed
  qed
qed

end

text \<open>
  What an attempt leaves behind: a success has delivered the answer of a backend to the request; an
  outcome that lets the loop go on has written nothing and has taken the backend out of the running.
\<close>

definition gone :: "('e, 'b, 'w) session_state \<Rightarrow> BackendInfo \<Rightarrow> bool" where
  "gone st b \<longleftrightarrow> \<not> is_available (Some (ss_availability st)) (ss_unavailable st) b"

definition silent :: "'w writer_api \<Rightarrow> ('e, 'b, 'w) session_state \<Rightarrow> ('e, 'b, 'w) session_state \<Rightarrow> bool" where
  "silent W st st' \<longleftrightarrow> sent W (ss_writer st') = sent W (ss_writer st)"

definition delivered ::
    "memchr_api \<Rightarrow> 'w writer_api \<Rightarrow> RequestContext \<Rightarrow> ('e, 'b, 'w) session_state \<Rightarrow> ('e, 'b, 'w) session_state \<Rightarrow> bool \<Rightarrow> bool" where
  "delivered M W request st st' ok \<longleftrightarrow>
     (\<exists>i D xs. ss_log st' = ss_log st @ xs \<and> Answered i request D \<in> set xs \<and>
        (\<forall>R N. frames_as M request D R N \<longrightarrow>
           (\<exists>p. prefix p R \<and> sent W (ss_writer st') = sent W (ss_writer st) @ p \<and> (ok \<longrightarrow> p = R))))"

definition goes_on :: "SessionError + BackendAttemptResult \<Rightarrow> bool" where
  "goes_on r \<longleftrightarrow>
     (case r of Inl e \<Rightarrow> \<not> session_over e | Inr (ArticleNotFound _) \<Rightarrow> True | Inr BackendUnavailable \<Rightarrow> True | _ \<Rightarrow> False)"

definition attempt_outcome ::
    "memchr_api \<Rightarrow> 'w writer_api \<Rightarrow> RequestContext \<Rightarrow> ('e, 'b, 'w) session_state \<Rightarrow> BackendInfo
       \<Rightarrow> ('e, 'b, 'w) session_state \<times> RequestContext \<times> (SessionError + BackendAttemptResult) \<Rightarrow> bool" where
  "attempt_outcome M W request st b out \<longleftrightarrow>
     (case out of (st', request', r) \<Rightarrow>
        moved request st st' \<and>
        (if goes_on r then request' = request \<and> silent W st st' \<and> gone st' b
         else (case r of
                 Inl _ \<Rightarrow> request' = request \<and> (silent W st st' \<or> delivered M W request st st' False)
               | Inr AttemptSuccess \<Rightarrow> response_metadata request' \<noteq> None \<and> delivered M W request st st' True
               | _ \<Rightarrow> False)))"

lemma goneI_suppressed: "bit (ss_unavailable st) (as_index (bi_id b)) \<Longrightarrow> gone st b"
  by (simp add: gone_def is_available_eligible eligible_def)

lemma goneI_missing: "bit (ss_availability st) (slot_index (bi_availability_slot b)) \<Longrightarrow> gone st b"
  by (simp add: gone_def is_available_eligible eligible_def)

lemma gone_moved: "gone st b \<Longrightarrow> moved request st st' \<Longrightarrow> gone st' b"
  by (auto simp: gone_def is_available_eligible eligible_def moved_def)

definition backend_small :: "BackendInfo \<Rightarrow> bool" where
  "backend_small b \<longleftrightarrow> as_index (bi_id b) < 64 \<and> slot_index (bi_availability_slot b) < 64"

lemma quiet_release: "stream_wf (cg_conn (bk_guard k)) \<Longrightarrow> quiet st (release_or_reuse_connection k i st)"
  by (simp add: quiet_def release_or_reuse_clean release_or_reuse_kept)

context world_lib
begin

lemma missing_outcome:
  assumes "moved request st s1" "attempt_ok (se_memchr S) (bi_id b) request (ss_log st) (ss_log s1) ex"
    "exchange_status_code ex = Some (StatusCode 430)" "memchr_lib (se_memchr S)" "ss_writer s1 = ss_writer st"
    "b \<in> set (bs_backends (ss_router st))" "backend_small b"
    and out: "out = (let st = record_article_missing request (bi_id b, bi_availability_slot b) s1 in
        case observe_and_reuse (se_exchange S (bi_id b)) ex of
          Inl e \<Rightarrow> (dropped (bi_id b) (ex_conn ex) st, request, Inl (SessionBackend (CauseTransfer e)))
        | Inr k \<Rightarrow> (release_or_reuse_connection k (bi_id b) st, request, Inr (ArticleNotFound (bi_id b))))"
  shows "attempt_outcome (se_memchr S) W request st b out"
proof -
  let ?i = "bi_id b" and ?s = "record_article_missing request (bi_id b, bi_availability_slot b) s1"
  obtain rq xs where rq: "exchange_wf (se_memchr S) rq ex" "ss_log s1 = ss_log st @ xs"
    "Answered ?i rq (exchange_input ex) \<in> set xs" "rc_args rq = rc_args request"
    using assms(2) by (auto simp: attempt_ok_def)
  have "(?i, bi_availability_slot b, bi_tier b) \<in> set (identities (ss_router st))" using assms(6) by (auto simp: identities_def)
  from moved_missing [OF assms(1) this rq(2,3,4) exchange_status_input [OF rq(1) assms(3)]]
  have m: "moved request st ?s" .
  have g: "gone ?s b" using assms(7) by (intro goneI_missing) (simp add: bit_record_missing backend_small_def)
  have w: "silent W st s'" if "quiet ?s s'" for s' using that assms(5) by (simp add: silent_def quiet_def)
  have step: "moved request st s'" "gone s' b" if "quiet ?s s'" for s'
    using moved_trans [OF m] gone_moved [OF g] quiet_moved [OF that moved_inv [OF m]] by blast+
  show ?thesis
  proof (cases "observe_and_reuse (se_exchange S ?i) ex")
    case (Inl e)
    let ?d = "dropped ?i (ex_conn ex) ?s"
    have q: "quiet ?s ?d" by simp
    show ?thesis
    proof (cases "session_over (SessionBackend (CauseTransfer e))")
      case True
      then show ?thesis using out Inl step [OF q] w [OF q] by (simp add: attempt_outcome_def goes_on_def)
    next
      case False
      then show ?thesis using out Inl step [OF q] w [OF q] by (simp add: attempt_outcome_def goes_on_def)
    qed
  next
    case (Inr k)
    let ?r = "release_or_reuse_connection k ?i ?s"
    have "stream_wf (cg_conn (bk_guard k))"
      using observe_and_reuse_spec(1) [of "se_exchange S ?i" ex k rq] Inr assms(4) rq(1) by simp
    then have q: "quiet ?s ?r" by (rule quiet_release)
    show ?thesis using out Inr step [OF q] w [OF q] by (simp add: attempt_outcome_def goes_on_def)
  qed
qed

lemma attempt_on_backend_spec:
  assumes "memchr_lib (se_memchr S)" "writer_lib W" "retry_inv st" "b \<in> set (bs_backends (ss_router st))" "backend_small b"
  shows "attempt_outcome (se_memchr S) W request st b (attempt_on_backend S P W b request retry st)"
proof -
  let ?i = "bi_id b"
  obtain s1 q where q: "prepare_backend_attempt S P ?i request retry st = (s1, q)" by fastforce
  note pr = prepare_backend_attempt_spec [OF q assms(1,3)]
  show ?thesis
  proof (cases q)
    case None
    have "gone s1 b" using pr None assms(5) by (intro goneI_suppressed) (simp add: backend_small_def)
    then show ?thesis using pr q None by (simp add: attempt_on_backend_def attempt_outcome_def goes_on_def silent_def)
  next
    case (Some ex)
    then obtain status where status: "exchange_status_code ex = Some status" using pr by auto
    have ok: "attempt_ok (se_memchr S) ?i request (ss_log st) (ss_log s1) ex" using pr Some by simp
    show ?thesis
    proof (cases "into_inner status = 430")
      case True
      then have st: "exchange_status_code ex = Some (StatusCode 430)" using status by (cases status) simp
      show ?thesis
        by (rule missing_outcome [OF _ ok st assms(1) _ assms(4,5)])
           (use pr q Some status True in \<open>simp_all add: attempt_on_backend_def missing_from_status_code_def Let_def cong: sum.case_cong\<close>)
    next
      case False
      then have "exchange_status_code ex \<noteq> Some (StatusCode 430)" using status by (cases status) auto
      then obtain xs where ex: "exchange_wf (se_memchr S) request ex" "ss_log s1 = ss_log st @ xs"
        "Answered ?i request (exchange_input ex) \<in> set xs" using ok by (auto simp: attempt_ok_def)
      have m: "moved request st s1" "ss_writer s1 = ss_writer st" using pr by simp_all
      obtain s2 r where r: "write_successful_backend_response S P W ex request s1 = (s2, r)" by fastforce
      have "session_clean s1" using m(1) by (simp add: moved_def)
      note wr = write_successful_backend_response_spec [OF r assms(1,2) ex(1) this]
      have m2: "moved request st s2" using moved_trans [OF m(1) kept_moved] wr moved_inv [OF m(1)] by blast
      obtain ys where "ss_log s2 = ss_log s1 @ ys" using wr by (auto simp: kept_routing_def prefix_def)
      then have log: "ss_log s2 = ss_log st @ (xs @ ys)" "Answered ?i request (exchange_input ex) \<in> set (xs @ ys)"
        using ex by simp_all
      have d: "delivered (se_memchr S) W request st s' (\<not> isl r)" if "ss_log s' = ss_log s2" "ss_writer s' = ss_writer s2" for s'
        unfolding delivered_def using log that wr m(2)
        by (intro exI [of _ ?i] exI [of _ "exchange_input ex"] exI [of _ "xs @ ys"]) (auto simp: wrote_response_def)
      have si: "silent W st s2" if "r = Inl e" "\<not> session_over e" for e
        using wr that m(2) by (simp add: silent_def wrote_response_def)
      note unfold = attempt_on_backend_def Let_def q Some status missing_from_status_code_def False r
      consider (ok) x where "r = Inr x" | (disconnect) e where "r = Inl (SessionDisconnect e)"
        | (backend) c where "r = Inl (SessionBackend c)" by (cases r) (use SessionError.exhaust in blast)+
      then show ?thesis
      proof cases
        case ok
        then have "delivered (se_memchr S) W request st s2 True" using d by simp
        then show ?thesis using ok m2
          by (simp add: unfold attempt_outcome_def goes_on_def record_backend_response_def response_metadata_def)
      next
        case disconnect
        then have "delivered (se_memchr S) W request st s2 False" using d by simp
        then show ?thesis using disconnect m2 by (simp add: unfold attempt_outcome_def goes_on_def session_over_def)
      next
        case backend
        let ?s = "suppress_backend ?i s2"
        have g: "gone ?s b" "moved request st ?s" using assms(5) m2
          by (auto intro!: goneI_suppressed moved_suppress simp: bit_suppress_backend backend_small_def)
        have "delivered (se_memchr S) W request st ?s False" using d [of ?s] backend by simp
        then show ?thesis using backend g si
          by (auto simp: unfold attempt_outcome_def goes_on_def silent_def)
      qed
    qed
  qed
qed

end

section \<open>Fewer backends with every attempt\<close>

definition is_open :: "('e, 'b, 'w) session_state \<Rightarrow> BackendId \<times> AvailabilitySlot \<times> u8 \<Rightarrow> bool" where
  "is_open st x \<longleftrightarrow>
     \<not> bit (ss_unavailable st) (as_index (fst x)) \<and> \<not> bit (ss_availability st) (slot_index (fst (snd x)))"

text \<open>The number of backends that the request may still be sent to.\<close>

definition open_count :: "('e, 'b, 'w) session_state \<Rightarrow> nat" where
  "open_count st = length (filter (is_open st) (identities (ss_router st)))"

definition router_small :: "BackendSelector \<Rightarrow> bool" where
  "router_small sel \<longleftrightarrow> (\<forall>b \<in> set (bs_backends sel). backend_small b)"

lemma gone_iff: "gone st b \<longleftrightarrow> \<not> is_open st (bi_id b, bi_availability_slot b, t)"
  by (simp add: gone_def is_available_eligible eligible_def is_open_def)

lemma router_small_identities: "router_small sel \<Longrightarrow> identities sel' = identities sel \<Longrightarrow> router_small sel'"
proof -
  have *: "router_small s \<longleftrightarrow> (\<forall>x \<in> set (identities s). as_index (fst x) < 64 \<and> slot_index (fst (snd x)) < 64)" for s
    by (simp add: router_small_def backend_small_def identities_def)
  show "router_small sel \<Longrightarrow> identities sel' = identities sel \<Longrightarrow> router_small sel'" by (simp add: *)
qed

lemma moved_open: "moved request st st' \<Longrightarrow> is_open st' x \<Longrightarrow> is_open st x"
  by (auto simp: moved_def is_open_def)

lemma moved_open_count: "moved request st st' \<Longrightarrow> open_count st' \<le> open_count st"
proof -
  assume m: "moved request st st'"
  have "length (filter (is_open st') xs) \<le> length (filter (is_open st) xs)" for xs
    using moved_open [OF m] by (induction xs) (auto intro: le_SucI)
  then show "open_count st' \<le> open_count st" using m by (simp add: open_count_def moved_def)
qed

lemma open_count_less:
  assumes "moved request st st'" "x \<in> set (identities (ss_router st))" "is_open st x" "\<not> is_open st' x"
  shows "open_count st' < open_count st"
proof -
  obtain as bs where xs: "identities (ss_router st) = as @ x # bs" using assms(2) by (auto dest: split_list)
  have le: "length (filter (is_open st') ys) \<le> length (filter (is_open st) ys)" for ys
    using moved_open [OF assms(1)] by (induction ys) (auto intro: le_SucI)
  have "identities (ss_router st') = as @ x # bs" using assms(1) xs by (simp add: moved_def)
  then show ?thesis using le [of as] le [of bs] assms(3,4) by (simp add: open_count_def xs)
qed

lemma moved_router:
  assumes "retry_inv st" "selector_wf sel" "identities sel = identities (ss_router st)"
  shows "moved request st (st\<lparr>ss_env := e, ss_router := sel\<rparr>)"
  using assms by (auto simp: moved_def retry_inv_def session_clean_def)

lemma moved_complete:
  assumes "moved request st st'"
  shows "moved request st (st'\<lparr>ss_router := complete_command i (ss_router st')\<rparr>)"
  using assms by (auto simp: moved_def session_clean_def)

text \<open>The outcome of one round of the loop.\<close>

definition round_outcome ::
    "memchr_api \<Rightarrow> 'w writer_api \<Rightarrow> RequestContext \<Rightarrow> ('e, 'b, 'w) session_state
       \<Rightarrow> ('e, 'b, 'w) session_state \<times> RequestContext \<times> (SessionError + BackendAttemptResult) \<Rightarrow> bool" where
  "round_outcome M W request st out \<longleftrightarrow>
     (case out of (st', request', r) \<Rightarrow>
        moved request st st' \<and>
        (if goes_on r then request' = request \<and> silent W st st' \<and> open_count st' < open_count st
         else (case r of
                 Inl _ \<Rightarrow> request' = request \<and> (silent W st st' \<or> delivered M W request st st' False)
               | Inr AttemptSuccess \<Rightarrow> response_metadata request' \<noteq> None \<and> delivered M W request st st' True
               | Inr NoRetryableBackend \<Rightarrow> request' = request \<and> silent W st st' \<and>
                   unroutable (ss_router st') (Some (ss_availability st')) (ss_unavailable st')
               | _ \<Rightarrow> False)))"

lemma delivered_from:
  assumes "delivered M W request st1 st2 ok" "ss_log st1 = ss_log st" "ss_writer st1 = ss_writer st"
    "ss_log st' = ss_log st2" "ss_writer st' = ss_writer st2"
  shows "delivered M W request st st' ok"
  using assms(1) unfolding delivered_def assms(2-5) .

context world_lib
begin

lemma try_backend_for_article_spec:
  assumes "memchr_lib (se_memchr S)" "writer_lib W" "retry_inv st" "router_small (ss_router st)"
  shows "round_outcome (se_memchr S) W request st (try_backend_for_article S P W request retry st)"
proof -
  obtain e others where o: "wd_others P (ss_env st) = (e, others)" by fastforce
  have i: "interference_ok others" using others_keep [OF o] by (auto simp: interference_ok_def)
  let ?av = "Some (ss_availability st)" and ?su = "ss_unavailable st"
  obtain r sel where r: "route_selected_backend others ?av ?su (ss_router st) = (r, sel)" by fastforce
  have rt: "routed (ss_router st) ?av ?su r sel"
    by (rule route_selected_backend_routed [OF r _ i]) (use assms(3) in \<open>simp add: retry_inv_def\<close>)
  let ?s1 = "st\<lparr>ss_env := e, ss_router := sel\<rparr>"
  have m1: "moved request st ?s1" using rt assms(3) by (intro moved_router) (simp_all add: routed_def)
  show ?thesis
  proof (cases r)
    case (Inl x)
    then show ?thesis using rt m1
      by (simp add: try_backend_for_article_def o r round_outcome_def goes_on_def silent_def routed_def)
  next
    case (Inr j)
    obtain b where b: "find_backend sel j = Some b" "bi_id b = j" "is_available ?av ?su b"
      using rt Inr by (auto simp: routed_def)
    have bs: "b \<in> set (bs_backends sel)" using find_backend_nth [OF _ b(1)] rt by (auto simp: routed_def)
    have "router_small sel" using router_small_identities [OF assms(4)] rt by (simp add: routed_def)
    then have small: "backend_small b" using bs by (simp add: router_small_def)
    obtain s2 rq q where q: "attempt_on_backend S P W b request retry ?s1 = (s2, rq, q)" by (metis prod_cases3)
    have "b \<in> set (bs_backends (ss_router ?s1))" using bs by simp
    from attempt_on_backend_spec [OF assms(1,2) moved_inv [OF m1] this small, of request retry]
    have out: "attempt_outcome (se_memchr S) W request ?s1 b (s2, rq, q)" unfolding q .
    let ?s3 = "s2\<lparr>ss_router := complete_command j (ss_router s2)\<rparr>"
    have eq: "try_backend_for_article S P W request retry st = (?s3, rq, q)"
      unfolding try_backend_for_article_def o r Inr prod.case sum.case Let_def b(1) option.case q by (rule refl)
    have m2: "moved request st s2" using moved_trans [OF m1] out by (simp add: attempt_outcome_def)
    have m3: "moved request st ?s3" by (rule moved_complete [OF m2])
    have sil: "silent W st ?s3" if "silent W ?s1 s2" using that by (simp add: silent_def)
    have del: "delivered (se_memchr S) W request st ?s3 ok" if "delivered (se_memchr S) W request ?s1 s2 ok" for ok
      by (rule delivered_from [OF that]) simp_all
    have fewer: "open_count ?s3 < open_count st" if "gone s2 b"
    proof (rule open_count_less [OF m3])
      let ?x = "(bi_id b, bi_availability_slot b, bi_tier b)"
      have "?x \<in> set (identities sel)" using bs by (auto simp: identities_def)
      then show "?x \<in> set (identities (ss_router st))" using rt by (simp add: routed_def)
      show "is_open st ?x" using b(3) by (simp add: is_open_def is_available_eligible eligible_def)
      show "\<not> is_open ?s3 ?x" using that unfolding gone_iff [where t = "bi_tier b"] by (simp add: is_open_def)
    qed
    show ?thesis unfolding eq using out m3 sil del fewer
      by (cases q) (auto simp: attempt_outcome_def round_outcome_def split: if_splits BackendAttemptResult.splits)
  qed
qed

end

section \<open>Probes\<close>

text \<open>What a probe adds to the log: the answer on which it reports, and the removal of its connection.\<close>

definition removal :: "Effect \<Rightarrow> bool" where
  "removal x \<longleftrightarrow>
     (case x of Answered i r D \<Rightarrow> True | ConnectionFate i fate \<Rightarrow> fate = RemovedWithCooldown | _ \<Rightarrow> False)"

definition probed ::
    "RequestContext \<Rightarrow> BackendId \<Rightarrow> ('e, 'b, 'w) session_state \<Rightarrow> ('e, 'b, 'w) session_state \<Rightarrow> RetryStatProbeOutcome \<Rightarrow> bool" where
  "probed stat_req i st st' outcome \<longleftrightarrow>
     quiet st st' \<and>
     (\<exists>xs. ss_log st' = ss_log st @ xs \<and> list_all removal xs \<and>
        (case outcome of
           ProbeMissing j \<Rightarrow> j = i \<and> (\<exists>D. Answered i stat_req D \<in> set xs \<and> status_parse D = Some (StatusCode 430))
         | ProbePresent \<Rightarrow> True
         | ProbeUnavailable j \<Rightarrow> j = i))"

lemma dropped_log [simp]: "ss_log (dropped i k st) = ss_log st @ [ConnectionFate i RemovedWithCooldown]"
  by (simp add: dropped_def guard_drop_def)

lemma moved_router_only:
  assumes "retry_inv st" "selector_wf sel" "identities sel = identities (ss_router st)"
  shows "moved request st (st\<lparr>ss_router := sel\<rparr>)"
  using moved_router [OF assms, of request "ss_env st"] by simp

context world_lib
begin

lemma probe_body:
  assumes "memchr_lib (se_memchr S)"
    and "(case checkout_connection P i st of
               (st, Inl _) \<Rightarrow> (st, ProbeUnavailable i)
             | (st, Inr k) \<Rightarrow>
                 (case execute_and_read_response S P k i stat_req st of
                    (st, Inl _) \<Rightarrow> (st, ProbeUnavailable i)
                  | (st, Inr ex) \<Rightarrow>
                      (case observe_and_reuse (se_exchange S i) ex of
                         Inl _ \<Rightarrow> (dropped i (ex_conn ex) st, ProbeUnavailable i)
                       | Inr k \<Rightarrow>
                           (dropped i k st,
                            if exchange_status_code ex = Some (StatusCode 430) then ProbeMissing i
                            else ProbePresent)))) = (st', outcome)"
  shows "probed stat_req i st st' outcome"
proof -
  obtain s1 c where c: "checkout_connection P i st = (s1, c)" by fastforce
  note co = checkout_connection_spec [OF c]
  have l1: "ss_log s1 = ss_log st" using c by (auto simp: checkout_connection_def split: prod.splits sum.splits)
  show ?thesis
  proof (cases c)
    case (Inl u)
    then show ?thesis using assms(2) c co l1 by (auto simp: probed_def)
  next
    case (Inr k)
    obtain s2 r where r: "execute_and_read_response S P k i stat_req s1 = (s2, r)" by fastforce
    have "stream_wf (cg_conn (bk_guard k))" using co Inr by simp
    note rd = execute_and_read_response_spec [OF r assms(1) this]
    have q2: "quiet st s2" using quiet_trans co rd by blast
    show ?thesis
    proof (cases r)
      case e: (Inl e)
      have "ss_log s2 = ss_log s1 @ [ConnectionFate i RemovedWithCooldown]"
        using r e by (auto simp: execute_and_read_response_def split: sum.splits)
      moreover have "st' = s2" "outcome = ProbeUnavailable i" using assms(2) c Inr r e by simp_all
      ultimately show ?thesis using q2 l1 by (simp add: probed_def removal_def)
    next
      case ex: (Inr ex)
      have a: "ss_log s2 = ss_log st @ [Answered i stat_req (exchange_input ex)]" "exchange_wf (se_memchr S) stat_req ex"
        using rd ex l1 by simp_all
      have qd: "quiet st (dropped i k' s2)" for k' by (rule quiet_trans [OF q2 quiet_dropped])
      obtain o' where o': "observe_and_reuse (se_exchange S i) ex = o'" by simp
      have st': "\<exists>k'. st' = dropped i k' s2" "outcome = (case o' of Inl _ \<Rightarrow> ProbeUnavailable i
          | Inr _ \<Rightarrow> if exchange_status_code ex = Some (StatusCode 430) then ProbeMissing i else ProbePresent)"
        using assms(2) c Inr r ex o' by (cases o'; auto)+
      have "status_parse (exchange_input ex) = Some (StatusCode 430)" if "outcome = ProbeMissing j" for j
        using st'(2) that exchange_status_input [OF a(2)] by (cases o') (auto split: if_splits)
      moreover have "outcome = ProbeMissing i \<or> outcome = ProbePresent \<or> outcome = ProbeUnavailable i"
        using st'(2) by (cases o') (auto split: if_splits)
      ultimately show ?thesis using st'(1) qd a(1)
        by (auto simp: probed_def removal_def)
    qed
  qed
qed

lemma retry_stat_probe_spec:
  assumes "retry_stat_probe S P stat_req i st = (st', outcome)" "memchr_lib (se_memchr S)" "retry_inv st"
  shows "moved request st st' \<and> ss_writer st' = ss_writer st \<and>
    (\<exists>xs. ss_log st' = ss_log st @ xs \<and> list_all removal xs \<and>
      (\<forall>j. outcome = ProbeMissing j \<longrightarrow>
         j = i \<and> (\<exists>D. Answered i stat_req D \<in> set xs \<and> status_parse D = Some (StatusCode 430))))"
proof -
  let ?s0 = "st\<lparr>ss_router := mark_backend_pending i (ss_router st)\<rparr>"
  let ?B = "case checkout_connection P i ?s0 of
               (st, Inl _) \<Rightarrow> (st, ProbeUnavailable i)
             | (st, Inr k) \<Rightarrow>
                 (case execute_and_read_response S P k i stat_req st of
                    (st, Inl _) \<Rightarrow> (st, ProbeUnavailable i)
                  | (st, Inr ex) \<Rightarrow>
                      (case observe_and_reuse (se_exchange S i) ex of
                         Inl _ \<Rightarrow> (dropped i (ex_conn ex) st, ProbeUnavailable i)
                       | Inr k \<Rightarrow>
                           (dropped i k st,
                            if exchange_status_code ex = Some (StatusCode 430) then ProbeMissing i
                            else ProbePresent)))"
  have eq: "retry_stat_probe S P stat_req i st =
      (case ?B of (s, oc) \<Rightarrow> (s\<lparr>ss_router := complete_command i (ss_router s)\<rparr>, oc))"
    unfolding retry_stat_probe_def Let_def by (rule refl)
  obtain s1 oc where B: "?B = (s1, oc)" by (rule prod.exhaust)
  have oc: "oc = outcome" and st': "st' = s1\<lparr>ss_router := complete_command i (ss_router s1)\<rparr>"
    using assms(1) unfolding eq B by simp_all
  note s1 = B [unfolded oc]
  have m0: "moved request st ?s0" using assms(3) by (intro moved_router_only) (simp_all add: retry_inv_def)
  note pr = probe_body [OF assms(2) s1]
  have "moved request ?s0 s1" using pr quiet_moved [OF _ moved_inv [OF m0]] by (simp add: probed_def)
  then have "moved request st st'" unfolding st' using moved_complete moved_trans [OF m0] by blast
  moreover have "ss_writer st' = ss_writer st" using pr st' by (simp add: probed_def quiet_def)
  moreover obtain xs where "ss_log s1 = ss_log st @ xs" "list_all removal xs" "case outcome of
           ProbeMissing j \<Rightarrow> j = i \<and> (\<exists>D. Answered i stat_req D \<in> set xs \<and> status_parse D = Some (StatusCode 430))
         | ProbePresent \<Rightarrow> True
         | ProbeUnavailable j \<Rightarrow> j = i" using pr by (auto simp: probed_def)
  ultimately show ?thesis using st' by auto
qed

lemma apply_probe_outcome_spec:
  assumes "retry_stat_probe S P stat_req i st = (s1, outcome)" "memchr_lib (se_memchr S)" "retry_inv st"
    and "rc_args stat_req = rc_args request"
  shows "moved request st (apply_probe_outcome request outcome s1) \<and>
    ss_writer (apply_probe_outcome request outcome s1) = ss_writer st"
proof -
  note pr = retry_stat_probe_spec [OF assms(1-3), of request]
  have m: "moved request st s1" "ss_writer s1 = ss_writer st" using pr by simp_all
  show ?thesis
  proof (cases outcome)
    case (ProbeMissing j)
    then obtain xs D where x: "j = i" "ss_log s1 = ss_log st @ xs" "Answered i stat_req D \<in> set xs"
      "status_parse D = Some (StatusCode 430)" using pr by blast
    show ?thesis
    proof (cases "find_backend (ss_router s1) i")
      case None
      then show ?thesis using m ProbeMissing x(1) by (simp add: apply_probe_outcome_def)
    next
      case (Some b)
      have "b \<in> set (bs_backends (ss_router s1))" "bi_id b = i" using find_backend_nth [OF _ Some] m(1) by (auto simp: moved_def)
      then have "(i, bi_availability_slot b, bi_tier b) \<in> set (identities (ss_router s1))" by (auto simp: identities_def)
      then have "(i, bi_availability_slot b, bi_tier b) \<in> set (identities (ss_router st))" using m(1) by (simp add: moved_def)
      from moved_missing [OF m(1) this x(2,3) assms(4) x(4)] show ?thesis
        using ProbeMissing x(1) Some m(2) by (simp add: apply_probe_outcome_def)
    qed
  next
    case ProbePresent
    then show ?thesis using m by (simp add: apply_probe_outcome_def)
  next
    case (ProbeUnavailable j)
    then show ?thesis using m moved_suppress by (simp add: apply_probe_outcome_def)
  qed
qed

lemma run_probes_spec:
  assumes "memchr_lib (se_memchr S)" "retry_inv st" "rc_args stat_req = rc_args request"
  shows "moved request st (run_probes S P request stat_req is st) \<and>
    ss_writer (run_probes S P request stat_req is st) = ss_writer st"
  using assms(2)
proof (induction "is" arbitrary: st)
  case Nil
  then show ?case by (simp add: moved_refl)
next
  case (Cons i "is")
  obtain s1 outcome where p: "retry_stat_probe S P stat_req i st = (s1, outcome)" by fastforce
  note ap = apply_probe_outcome_spec [OF p assms(1) Cons.prems assms(3)]
  from Cons.IH [OF moved_inv [OF conjunct1 [OF ap]]] show ?case using ap p moved_trans by auto
qed

lemma parallel_retry_stat_sweep_spec:
  assumes "memchr_lib (se_memchr S)" "retry_inv st"
  shows "moved request st (parallel_retry_stat_sweep S P request st) \<and>
    ss_writer (parallel_retry_stat_sweep S P request st) = ss_writer st"
proof -
  obtain e order where o: "wd_order P (ss_env st) = (e, order)" by fastforce
  have m: "moved request st (st\<lparr>ss_env := e\<rparr>)" by (simp add: moved_fields moved_refl [OF assms(2)])
  have "moved request st (run_probes S P request (clone_for_background_probe stat) cs (st\<lparr>ss_env := e\<rparr>)) \<and>
      ss_writer (run_probes S P request (clone_for_background_probe stat) cs (st\<lparr>ss_env := e\<rparr>)) = ss_writer st"
    if "stat_probe_request request = Some stat" for stat cs
  proof -
    have "rc_args (clone_for_background_probe stat) = rc_args request"
      using that by (auto simp: clone_for_background_probe_def stat_probe_request_def from_verb_args_def from_parts_def
          split: if_splits)
    from run_probes_spec [OF assms(1) moved_inv [OF m] this] show ?thesis using moved_trans [OF m] by auto
  qed
  then show ?thesis using moved_refl [OF assms(2), of request]
    by (auto simp: parallel_retry_stat_sweep_def Let_def o split: option.split)
qed

end

lemma prefetch_moved:
  assumes "retry_inv st"
  shows "moved request st (spawn_non_primary_tier_stat_prefetch S request st) \<and>
    ss_writer (spawn_non_primary_tier_stat_prefetch S request st) = ss_writer st"
proof -
  have "quiet st (spawn_non_primary_tier_stat_prefetch S request st)"
    by (simp add: spawn_non_primary_tier_stat_prefetch_def Let_def)
  then show ?thesis using quiet_moved [OF _ assms] by (simp add: quiet_def)
qed

section \<open>The whole loop\<close>

text \<open>\<open>reply_of\<close>: the client got a part of one fixed reply, and all of it when the loop returns normally.\<close>

definition reply_of :: "'w writer_api \<Rightarrow> ('e, 'b, 'w) session_state \<Rightarrow> ('e, 'b, 'w) session_state \<Rightarrow> bytes \<Rightarrow> bool \<Rightarrow> bool" where
  "reply_of W st st' b ok \<longleftrightarrow>
     (\<exists>p. prefix p b \<and> sent W (ss_writer st') = sent W (ss_writer st) @ p \<and> (ok \<longrightarrow> p = b))"

definition loop_outcome ::
    "memchr_api \<Rightarrow> 'w writer_api \<Rightarrow> RequestContext \<Rightarrow> ('e, 'b, 'w) session_state
       \<Rightarrow> ('e, 'b, 'w) session_state \<times> RequestContext \<times> (SessionError + unit) \<Rightarrow> bool" where
  "loop_outcome M W request st out \<longleftrightarrow>
     (case out of (st', request', r) \<Rightarrow>
        moved request st st' \<and>
        (all_exhausted (ss_availability st') (bs_availability_mask (ss_router st')) \<and>
           reply_of W st st' NO_SUCH_ARTICLE (\<not> isl r) \<or>
         unroutable (ss_router st') (Some (ss_availability st')) (ss_unavailable st') \<and>
           reply_of W st st' BACKEND_ERROR (\<not> isl r) \<or>
         delivered M W request st st' (\<not> isl r) \<or>
         isl r \<and> silent W st st'))"

lemma loop_outcome_from:
  assumes "loop_outcome M W request st1 out" "moved request st st1" "silent W st st1"
  shows "loop_outcome M W request st out"
proof -
  obtain st' rq r where out: "out = (st', rq, r)" by (metis prod_cases3)
  have s: "sent W (ss_writer st1) = sent W (ss_writer st)" using assms(3) by (simp add: silent_def)
  have "moved request st st'" using assms(1,2) moved_trans by (auto simp: loop_outcome_def out)
  moreover have "reply_of W st st' b ok" if "reply_of W st1 st' b ok" for b ok using that s by (simp add: reply_of_def)
  moreover have "silent W st st'" if "silent W st1 st'" using that s by (simp add: silent_def)
  moreover have "delivered M W request st st' ok" if d: "delivered M W request st1 st' ok" for ok
  proof -
    obtain ys where ys: "ss_log st1 = ss_log st @ ys" using assms(2) by (auto simp: moved_def)
    obtain i D xs where x: "ss_log st' = ss_log st1 @ xs" "Answered i request D \<in> set xs"
      "\<forall>R N. frames_as M request D R N \<longrightarrow>
           (\<exists>p. prefix p R \<and> sent W (ss_writer st') = sent W (ss_writer st1) @ p \<and> (ok \<longrightarrow> p = R))"
      using d unfolding delivered_def by blast
    show ?thesis unfolding delivered_def
      by (rule exI [of _ i], rule exI [of _ D], rule exI [of _ "ys @ xs"]) (use x ys s in auto)
  qed
  ultimately show ?thesis using assms(1) unfolding loop_outcome_def out by auto
qed

lemma send_430_spec:
  assumes "send_430_to_client W st = (st', r)" "writer_lib W" "retry_inv st"
  shows "moved request st st' \<and> reply_of W st st' NO_SUCH_ARTICLE (\<not> isl r) \<and>
    ss_availability st' = ss_availability st \<and> ss_router st' = ss_router st"
proof -
  obtain w u where w: "write_all W (ss_writer st) NO_SUCH_ARTICLE = (w, u)" by fastforce
  obtain p where p: "prefix p NO_SUCH_ARTICLE" "sent W w = sent W (ss_writer st) @ p" "u = Inr () \<longrightarrow> p = NO_SUCH_ARTICLE"
    using writer_lib.write_all_prefix [OF assms(2) w] by blast
  have "moved request st (st\<lparr>ss_writer := w\<rparr>)" "moved request st (st\<lparr>ss_writer := w, ss_backend_to_client := n\<rparr>)" for n
    by (simp_all add: moved_fields moved_refl [OF assms(3)])
  then show ?thesis using assms(1) p by (cases u) (auto simp: send_430_to_client_def w reply_of_def)
qed

lemma write_backend_error_spec:
  assumes "write_backend_error_response W w = (w', r)" "writer_lib W"
  shows "\<exists>p. prefix p BACKEND_ERROR \<and> sent W w' = sent W w @ p \<and> (\<not> isl r \<longrightarrow> p = BACKEND_ERROR)"
proof -
  obtain w1 u where w: "write_all W w BACKEND_ERROR = (w1, u)" by fastforce
  obtain p where p: "prefix p BACKEND_ERROR" "sent W w1 = sent W w @ p" "u = Inr () \<longrightarrow> p = BACKEND_ERROR"
    using writer_lib.write_all_prefix [OF assms(2) w] by blast
  obtain w2 f where f: "flush W w1 = (w2, f)" by fastforce
  have "sent W w2 = sent W w1" using writer_lib.flush_sent [OF assms(2), of w1] f by simp
  then show ?thesis using assms(1) p w f
    by (cases u; cases f) (auto simp: write_backend_error_response_def)
qed

text \<open>One round: an attempt after which the loop goes on, or one that ends it.\<close>

definition leave_loop ::
    "'w writer_api \<Rightarrow> ('e, 'b, 'w) session_state \<Rightarrow> RequestContext \<Rightarrow> SessionError + BackendAttemptResult
       \<Rightarrow> (('e, 'b, 'w) session_state \<times> RequestContext \<times> (SessionError + unit)) option" where
  "leave_loop W st request r =
     (case r of
        Inl e \<Rightarrow> Some (st, request, Err e)
      | Inr AttemptSuccess \<Rightarrow>
          map_option (\<lambda>resp. (st\<lparr>ss_backend_to_client := ss_backend_to_client st + rm_wire_len resp\<rparr>, request, Ok ()))
            (response_metadata request)
      | Inr _ \<Rightarrow>
          (case write_backend_error_response W (ss_writer st) of
             (w, Inl e) \<Rightarrow> Some (st\<lparr>ss_writer := w\<rparr>, request, Err e)
           | (w, Inr n) \<Rightarrow>
               Some (st\<lparr>ss_writer := w, ss_backend_to_client := ss_backend_to_client st + n\<rparr>, request, Ok ())))"

lemma loop_step:
  assumes "\<not> all_exhausted (ss_availability st) (bs_availability_mask (ss_router st))"
  shows "execute_article_retry_loop S P W request retry prefetched swept st =
    (case try_backend_for_article S P W request retry
            (if retry \<and> \<not> swept
             then parallel_retry_stat_sweep S P request
                    (if \<not> retry \<and> \<not> prefetched then spawn_non_primary_tier_stat_prefetch S request st else st)
             else if \<not> retry \<and> \<not> prefetched then spawn_non_primary_tier_stat_prefetch S request st else st) of
       (st', request', r) \<Rightarrow>
         if goes_on r
         then execute_article_retry_loop S P W request' (retry \<or> \<not> isl r) (\<not> retry \<and> \<not> prefetched \<or> prefetched)
                (retry \<and> \<not> swept \<or> swept) st'
         else leave_loop W st' request' r)"
  unfolding execute_article_retry_loop.simps [of S P W request retry prefetched swept st] if_not_P [OF assms] Let_def
  by (rule prod.case_cong [OF refl], rule prod.case_cong [OF refl])
    (simp add: goes_on_def leave_loop_def split: sum.split BackendAttemptResult.split)

lemma round_end:
  assumes "round_outcome M W request st (st', request', r)" "\<not> goes_on r" "writer_lib W"
  shows "\<exists>out. leave_loop W st' request' r = Some out \<and> loop_outcome M W request st out"
proof (cases r)
  case (Inl e)
  then show ?thesis using assms(1,2) by (auto simp: leave_loop_def round_outcome_def loop_outcome_def)
next
  case r: (Inr a)
  show ?thesis
  proof (cases a)
    case AttemptSuccess
    then obtain resp where "response_metadata request' = Some resp" "delivered M W request st st' True" "moved request st st'"
      using assms(1,2) r by (auto simp: round_outcome_def)
    then show ?thesis using r AttemptSuccess
      by (simp add: leave_loop_def loop_outcome_def delivered_def moved_fields)
  next
    case NoRetryableBackend
    then have o: "silent W st st'" "unroutable (ss_router st') (Some (ss_availability st')) (ss_unavailable st')"
      "moved request st st'" using assms(1,2) r by (auto simp: round_outcome_def)
    obtain w u where w: "write_backend_error_response W (ss_writer st') = (w, u)" by fastforce
    obtain p where p: "prefix p BACKEND_ERROR" "sent W w = sent W (ss_writer st') @ p" "\<not> isl u \<longrightarrow> p = BACKEND_ERROR"
      using write_backend_error_spec [OF w assms(3)] by blast
    have "moved request st (st'\<lparr>ss_writer := w\<rparr>)" "moved request st (st'\<lparr>ss_writer := w, ss_backend_to_client := n\<rparr>)" for n
      using o(3) by (simp_all add: moved_fields)
    then show ?thesis using o p w r NoRetryableBackend
      by (cases u) (auto simp: leave_loop_def loop_outcome_def reply_of_def silent_def)
  qed (use assms(2) r in \<open>simp_all add: goes_on_def\<close>)
qed

context world_lib
begin

text \<open>The state in which a round makes its attempt.\<close>

lemma round_start:
  fixes pf sw :: bool and request :: RequestContext
  assumes "memchr_lib (se_memchr S)" "retry_inv st"
  defines "s0 \<equiv> if pf then spawn_non_primary_tier_stat_prefetch S request st else st"
  defines "s1 \<equiv> if sw then parallel_retry_stat_sweep S P request s0 else s0"
  shows "moved request st s1 \<and> silent W st s1"
proof -
  have 0: "moved request st s0 \<and> ss_writer s0 = ss_writer st"
    using prefetch_moved [OF assms(2)] moved_refl [OF assms(2)] by (simp add: s0_def)
  then have inv: "retry_inv s0" using moved_inv by blast
  have "moved request s0 s1 \<and> ss_writer s1 = ss_writer s0"
    using parallel_retry_stat_sweep_spec [OF assms(1) inv] moved_refl [OF inv] by (simp add: s1_def)
  then show ?thesis using 0 moved_trans by (auto simp: silent_def)
qed

lemma loop_spec:
  assumes "memchr_lib (se_memchr S)" "writer_lib W" "retry_inv st" "router_small (ss_router st)"
  shows "\<exists>out. execute_article_retry_loop S P W request retry prefetched swept st = Some out \<and>
    loop_outcome (se_memchr S) W request st out"
  using assms(3,4)
proof (induction "open_count st" arbitrary: st retry prefetched swept rule: less_induct)
  case less
  show ?case
  proof (cases "all_exhausted (ss_availability st) (bs_availability_mask (ss_router st))")
    case True
    obtain st' r where s: "send_430_to_client W st = (st', r)" by fastforce
    note sp = send_430_spec [OF s assms(2) less.prems(1), of request]
    show ?thesis using True s sp
      by (cases r) (auto simp: execute_article_retry_loop.simps [of S P W request] loop_outcome_def)
  next
    case False
    let ?pf = "\<not> retry \<and> \<not> prefetched" and ?sw = "retry \<and> \<not> swept"
    let ?s0 = "if ?pf then spawn_non_primary_tier_stat_prefetch S request st else st"
    define s1 where "s1 = (if ?sw then parallel_retry_stat_sweep S P request ?s0 else ?s0)"
    have m1: "moved request st s1" "silent W st s1"
      using round_start [OF assms(1) less.prems(1), where request = request and pf = ?pf and sw = ?sw and W = W]
      unfolding s1_def by simp_all
    obtain s2 rq r where t: "try_backend_for_article S P W request retry s1 = (s2, rq, r)" by (metis prod_cases3)
    have small1: "router_small (ss_router s1)"
      using router_small_identities [OF less.prems(2)] m1(1) by (simp add: moved_def)
    note out = try_backend_for_article_spec [OF assms(1,2) moved_inv [OF m1(1)] small1, of request retry, unfolded t]
    note step = loop_step [OF False, where S = S and P = P and W = W and request = request and retry = retry and
        prefetched = prefetched and swept = swept, folded s1_def, unfolded t prod.case]
    show ?thesis
    proof (cases "goes_on r")
      case True
      then have g: "rq = request" "silent W s1 s2" "open_count s2 < open_count s1" "moved request s1 s2"
        using out by (simp_all add: round_outcome_def)
      have m2: "moved request st s2" using moved_trans [OF m1(1) g(4)] .
      have small2: "router_small (ss_router s2)" using router_small_identities [OF less.prems(2)] m2 by (simp add: moved_def)
      have "open_count s2 < open_count st" using g(3) moved_open_count [OF m1(1)] by simp
      from less.hyps [OF this moved_inv [OF m2] small2] obtain o' where
        o': "execute_article_retry_loop S P W request (retry \<or> \<not> isl r) (?pf \<or> prefetched) (?sw \<or> swept) s2 = Some o'"
          "loop_outcome (se_memchr S) W request s2 o'" by blast
      have "silent W st s2" using g(2) m1(2) by (simp add: silent_def)
      then show ?thesis using loop_outcome_from [OF o'(2) m2] o'(1) step True g(1) by simp
    next
      case False
      from round_end [OF out False assms(2)] obtain o' where
        "leave_loop W s2 rq r = Some o'" "loop_outcome (se_memchr S) W request s1 o'" by blast
      then show ?thesis using loop_outcome_from [OF _ m1] step False by simp
    qed
  qed
qed

end

section \<open>A scripted proxy\<close>

text \<open>
  Pools with a list of connections per backend, and other sessions that run operations of the router
  while this one selects a backend; no operation of a session adds a backend. Every script meets the
  laws of \<open>world_lib\<close>.
\<close>

record proxy_script =
  px_pools :: "BackendId \<Rightarrow> ConnectionStream list"
  px_others :: "router_op list"
  px_order :: "nat list"

definition px_checkout :: "BackendId \<Rightarrow> proxy_script \<Rightarrow> proxy_script \<times> (unit + ConnectionStream \<times> bytes)" where
  "px_checkout i e =
     (case px_pools e i of
        [] \<Rightarrow> (e, Inl ())
      | c # cs \<Rightarrow>
          (e\<lparr>px_pools := (px_pools e)(i := cs)\<rparr>, if cs_pending c = [] then Inr (c, []) else Inl ()))"

fun session_op :: "router_op \<Rightarrow> bool" where
  "session_op (AddBackend _ _ _) \<longleftrightarrow> False"
| "session_op _ \<longleftrightarrow> True"

definition scripted_proxy :: "(proxy_script, bytes) world" where
  "scripted_proxy =
     \<lparr>wd_checkout = px_checkout, wd_alive = (\<lambda>c b e. (e, True)),
      wd_status = (\<lambda>i e. \<lparr>ps_size = 1, ps_available = length (px_pools e i), ps_waiting = 0, ps_max_size = 1\<rparr>),
      wd_permit = (\<lambda>e. (e, True)),
      wd_others = (\<lambda>e. (e, map (\<lambda>op sel. router_step sel op) (filter session_op (px_others e)))),
      wd_order = (\<lambda>e. (e, px_order e)), wd_send = open_api\<rparr>"

lemma identities_keeps: "keeps_identity f \<Longrightarrow> identities (update_backend i f sel) = identities sel"
  by (rule identities_update) (simp add: keeps_identity_def)

lemma update_found:
  assumes "selector_wf sel" "find_backend sel i = Some b"
  shows "update_backend i (\<lambda>_. f b) sel = update_backend i f sel"
proof -
  have "x = b" if "x \<in> set (bs_backends sel)" "bi_id x = i" for x
    using find_backend_of [OF assms(1) that(1)] assms(2) that(2) by simp
  then have "map (\<lambda>x. if bi_id x = i then f b else x) (bs_backends sel) =
      map (\<lambda>x. if bi_id x = i then f x else x) (bs_backends sel)" by (intro map_cong refl) auto
  then show ?thesis by (simp add: update_backend_def)
qed

lemma identities_acquire:
  assumes "selector_wf sel"
  shows "identities (snd (try_acquire_stateful i sel)) = identities sel"
proof (cases "find_backend sel i")
  case None
  then show ?thesis by (simp add: try_acquire_stateful_def)
next
  case (Some b)
  let ?f = "\<lambda>b. b\<lparr>bi_stateful_count := bi_stateful_count b + 1\<rparr>"
  have "identities (update_backend i ?f sel) = identities sel" by (rule identities_update) simp
  then show ?thesis
    using update_found [OF assms Some, of ?f] by (simp add: try_acquire_stateful_def stateful_try_acquire_def Some)
qed

lemma identities_session_op:
  assumes "selector_wf sel" "session_op op"
  shows "identities (router_step sel op) = identities sel"
proof (cases op)
  case (Route av su)
  obtain r sel' where "route_selected_backend [] av su sel = (r, sel')" by fastforce
  with route_selected_backend_routed [OF this assms(1)] show ?thesis
    by (simp add: Route routed_def interference_ok_def del: route_selected_backend.simps)
qed (use assms identities_acquire in \<open>simp_all add: release_stateful_def identities_keeps keeps_identity_counters\<close>)

interpretation proxy: world_lib scripted_proxy
proof
  fix i e e' c b
  assume "wd_checkout scripted_proxy i e = (e', Inr (c, b))"
  then show "cs_pending c = []" by (auto simp: scripted_proxy_def px_checkout_def split: list.splits if_splits)
next
  fix e e' others f sel
  assume "wd_others scripted_proxy e = (e', others)" "f \<in> set others" "selector_wf sel"
  then obtain op where "session_op op" "f = (\<lambda>sel. router_step sel op)" by (auto simp: scripted_proxy_def)
  moreover from this have "router_op_ok op" by (cases op) simp_all
  ultimately show "selector_wf (f sel) \<and> identities (f sel) = identities sel"
    using identities_session_op selector_wf_step \<open>selector_wf sel\<close> by simp
qed

text \<open>Two backends: the first lacks the article, the second has its body. Another session routes a command.\<close>

definition sample_session :: session_env where
  "sample_session = \<lparr>se_transfer = sample_env, se_cache = MemoryKind, se_stat_missing = (\<lambda>_. False)\<rparr>"

definition sample_state :: "(proxy_script, bytes, bytes) session_state" where
  "sample_state =
     \<lparr>ss_env = \<lparr>px_pools = (\<lambda>i. if i = BackendId 0 then [cg_conn sample_guard]
                              else [stream_new [Inr (''430 no'' @ CRLF)]]),
               px_others = [Route None 0], px_order = []\<rparr>,
      ss_writer = [], ss_router = two_tiers, ss_availability = 0, ss_unavailable = 0, ss_lease = None,
      ss_client_to_backend = 0, ss_backend_to_client = 0, ss_log = []\<rparr>"

lemma sample_state_ok:
  "retry_inv sample_state" "router_small (ss_router sample_state)" "memchr_lib (se_memchr sample_session)"
  "writer_lib open_api" "world_lib scripted_proxy"
proof -
  show "retry_inv sample_state" by (simp add: retry_inv_def sample_state_def two_tiers_wf session_clean_def)
  show "router_small (ss_router sample_state)"
    by (simp add: router_small_def sample_state_def two_tiers_def with_strategy_def add_backend_with_slot_def Let_def backend_small_def)
qed (simp_all add: sample_session_def open_conn.writer_lib_axioms proxy.world_lib_axioms)

lemma sample_loop:
  obtains st' request' r where "execute_article_retry_loop sample_session scripted_proxy open_api sample_request
      False False False sample_state = Some (st', request', r)"
  using proxy.loop_spec [OF sample_state_ok(3,4,1,2)] by (metis prod_cases3)

section \<open>Properties of the retry loop\<close>

lemma loop_result:
  assumes "memchr_lib (se_memchr S)" "writer_lib W" "world_lib P" "retry_inv st" "router_small (ss_router st)"
    and "execute_article_retry_loop S P W request False False False st = Some (st', request', r)"
  shows "loop_outcome (se_memchr S) W request st (st', request', r)"
  using world_lib.loop_spec [OF assms(3,1,2,4,5)] assms(6) by (metis option.inject)





text \<open>
  C7. A missing mark is earned: the loop neither forgets a mark nor a suppression, and every mark that it
  adds is that of a backend that answered the request, or a STAT probe with the same message-id, with 430.
  A failed connection, a timeout or another status never marks an article as missing.
\<close>

theorem article_retry_marks_justified:
  assumes "memchr_lib (se_memchr S)" "writer_lib W" "world_lib P" "retry_inv st" "router_small (ss_router st)"
    and "execute_article_retry_loop S P W request False False False st = Some (st', request', r)"
  shows "(\<forall>n. bit (ss_availability st) n \<longrightarrow> bit (ss_availability st') n) \<and>
    (\<forall>n. bit (ss_unavailable st) n \<longrightarrow> bit (ss_unavailable st') n) \<and>
    (\<exists>xs. ss_log st' = ss_log st @ xs \<and>
       (\<forall>n. bit (ss_availability st') n \<longrightarrow> bit (ss_availability st) n \<or>
          (\<exists>i slot tier rq D. Answered i rq D \<in> set xs \<and> (i, slot, tier) \<in> set (identities (ss_router st)) \<and>
             slot_index slot = n \<and> rc_args rq = rc_args request \<and> status_parse D = Some (StatusCode 430))))"
proof -
  have "loop_outcome (se_memchr S) W request st (st', request', r)"
    by (rule loop_result [OF assms])
  then show ?thesis unfolding loop_outcome_def prod.case moved_def justified_def by blast
qed

theorem article_retry_marks_justified_witness:
  "case the (execute_article_retry_loop sample_session scripted_proxy open_api sample_request False False False sample_state) of
     (st', request', r) \<Rightarrow>
       \<forall>n. bit (ss_availability st') n \<longrightarrow> (\<exists>i rq D. Answered i rq D \<in> set (ss_log st') \<and> status_parse D = Some (StatusCode 430))"
proof -
  obtain st' request' r where l: "execute_article_retry_loop sample_session scripted_proxy open_api sample_request
      False False False sample_state = Some (st', request', r)"
    by (rule sample_loop)
  have "ss_log sample_state = []" "\<not> bit (ss_availability sample_state) n" for n
    by (simp_all add: sample_state_def)
  then show ?thesis using article_retry_marks_justified [OF sample_state_ok(3,4,5,1,2) l] unfolding l by fastforce
qed



text \<open>
  C37. A STAT probe of the retry sweep never gives its connection back to the pool: the connection that
  a successful probe returns is dropped, and dropping a guard removes the connection from the pool.
\<close>

theorem retry_stat_probe_discards:
  assumes "memchr_lib (se_memchr S)" "world_lib P" "retry_inv st"
    and "retry_stat_probe S P stat_req i st = (st', outcome)"
  shows "\<exists>xs. ss_log st' = ss_log st @ xs \<and> (\<forall>j c. ConnectionFate j (ReturnedToPool c) \<notin> set xs)"
proof -
  obtain xs where "ss_log st' = ss_log st @ xs" "list_all removal xs"
    using world_lib.retry_stat_probe_spec [OF assms(2,4,1,3)] by blast
  then show ?thesis by (fastforce simp: list_all_iff removal_def)
qed

theorem retry_stat_probe_discards_witness:
  "case retry_stat_probe sample_session scripted_proxy (from_verb_args ''STAT'' ''<a@b>'') (BackendId 1) sample_state of
     (st', outcome) \<Rightarrow> \<forall>j c. ConnectionFate j (ReturnedToPool c) \<notin> set (ss_log st')"
proof -
  obtain st' outcome where p: "retry_stat_probe sample_session scripted_proxy (from_verb_args ''STAT'' ''<a@b>'') (BackendId 1)
      sample_state = (st', outcome)" by fastforce
  have "ss_log sample_state = []" by (simp add: sample_state_def)
  then show ?thesis using retry_stat_probe_discards [OF sample_state_ok(3,5,1) p] unfolding p by auto
qed

end
