(* ===== verification/Index.thy ===== *)
theory Index
  imports Article
begin

text \<open>
  The availability index (\<open>AvailabilityIndex\<close> of \<open>src/src/cache/availability_index.rs\<close>), the cache of the
  proxy in its default mode: a bounded, rotating table of provider slots that answered 430, keyed by the
  message ID without its brackets. Shards are locked one at a time, so an execution is a sequence of
  operations; the time is an argument of each. The hash function is the third-party XxHash64, a function
  of the bytes and the seed, and nothing below depends on it. Counters of hits, misses and evictions wrap.
\<close>

section \<open>Blocks and generations\<close>

definition DEFAULT_GENERATIONS :: nat where "DEFAULT_GENERATIONS = 2"
definition DEFAULT_SHARDS :: nat where "DEFAULT_SHARDS = 32"
definition BLOCK_SLOTS :: nat where "BLOCK_SLOTS = 2"
definition FIXED_ARTICLE_CAPACITY :: nat where "FIXED_ARTICLE_CAPACITY = 256 * 1024"
definition FIXED_TOTAL_BLOCKS :: nat where "FIXED_TOTAL_BLOCKS = FIXED_ARTICLE_CAPACITY div BLOCK_SLOTS"
definition ALL_BACKEND_BITS :: usize where "ALL_BACKEND_BITS = - 1"

text \<open>\<open>size_of::<Block>()\<close>: two hashes, two tags padded to the alignment, two bitmaps.\<close>

definition SIZE_OF_BLOCK :: nat where "SIZE_OF_BLOCK = 40"
definition FIXED_CAPACITY_BYTES :: nat where "FIXED_CAPACITY_BYTES = FIXED_TOTAL_BLOCKS * SIZE_OF_BLOCK"

record Block =
  blk_hashes :: "u64 list"
  blk_tags :: "u16 list"
  blk_missing :: "usize list"

definition block_default :: Block where
  "block_default =
     \<lparr>blk_hashes = replicate BLOCK_SLOTS 0, blk_tags = replicate BLOCK_SLOTS 0, blk_missing = replicate BLOCK_SLOTS 0\<rparr>"

definition block_clear :: "Block \<Rightarrow> Block \<times> nat" where
  "block_clear b = (block_default, length (filter (\<lambda>h. h \<noteq> 0) (blk_hashes b)))"

datatype InsertOutcome = Inserted | Updated | Replaced

record ArticleFingerprint =
  fp_hash :: u64
  fp_tag :: u16

record Generation =
  gn_started_at :: u64
  gn_occupied :: nat
  gn_blocks :: "Block list"
  gn_keys :: "bytes option list"

definition generation_new :: "nat \<Rightarrow> Generation" where
  "generation_new n =
     \<lparr>gn_started_at = 0, gn_occupied = 0, gn_blocks = replicate n block_default,
      gn_keys = replicate (n * BLOCK_SLOTS) None\<rparr>"

definition generation_clear :: "Generation \<Rightarrow> Generation \<times> nat" where
  "generation_clear g =
     (\<lparr>gn_started_at = 0, gn_occupied = 0, gn_blocks = map (\<lambda>b. fst (block_clear b)) (gn_blocks g),
       gn_keys = map (\<lambda>_. None) (gn_keys g)\<rparr>, gn_occupied g)"

definition generation_key :: "Generation \<Rightarrow> nat \<Rightarrow> nat \<Rightarrow> bytes option" where
  "generation_key g block slot = gn_keys g ! (block * BLOCK_SLOTS + slot)"

definition normalize_hash :: "u64 \<Rightarrow> u64" where
  "normalize_hash h = (if h = 0 then 1 else h)"

text \<open>\<open>H seed bytes\<close> is XxHash64.\<close>

definition hash_key :: "(u64 \<Rightarrow> bytes \<Rightarrow> u64) \<Rightarrow> bytes \<Rightarrow> u64 \<times> u16" where
  "hash_key H key = (normalize_hash (H 0 key), ucast (H 0x9E3779B97F4A7C15 key AND 0xFFFF))"

definition from_key :: "(u64 \<Rightarrow> bytes \<Rightarrow> u64) \<Rightarrow> bytes \<Rightarrow> ArticleFingerprint" where
  "from_key H key = (let (h, t) = hash_key H key in \<lparr>fp_hash = h, fp_tag = t\<rparr>)"

definition block_index :: "u64 \<Rightarrow> nat \<Rightarrow> nat" where
  "block_index h block_count = unat (drop_bit 32 h XOR h) mod block_count"

definition victim_slot :: "u64 \<Rightarrow> nat" where
  "victim_slot h = unat (drop_bit 48 h AND word_of_nat (BLOCK_SLOTS - 1))"

text \<open>The mask of matching slots is consumed from its lowest bit: the slots in increasing order.\<close>

definition matching_slots :: "u64 list \<Rightarrow> u16 list \<Rightarrow> u64 \<Rightarrow> u16 \<Rightarrow> nat list" where
  "matching_slots hashes tags needle_hash needle_tag =
     filter (\<lambda>i. hashes ! i = needle_hash \<and> tags ! i = needle_tag) [0..<BLOCK_SLOTS]"

definition generation_lookup_missing_bits :: "ArticleFingerprint \<Rightarrow> bytes \<Rightarrow> nat \<Rightarrow> Generation \<Rightarrow> usize" where
  "generation_lookup_missing_bits fp key block g =
     (let b = gn_blocks g ! block in
      foldl (\<lambda>bits slot. if generation_key g block slot = Some key then bits OR blk_missing b ! slot else bits) 0
        (matching_slots (blk_hashes b) (blk_tags b) (fp_hash fp) (fp_tag fp)))"

definition generation_insert_missing_bits ::
    "ArticleFingerprint \<Rightarrow> bytes \<Rightarrow> usize \<Rightarrow> nat \<Rightarrow> Generation \<Rightarrow> Generation \<times> InsertOutcome" where
  "generation_insert_missing_bits fp key bits block g =
     (let b = gn_blocks g ! block in
      case find (\<lambda>slot. generation_key g block slot = Some key)
             (matching_slots (blk_hashes b) (blk_tags b) (fp_hash fp) (fp_tag fp)) of
        Some slot \<Rightarrow>
          (g\<lparr>gn_blocks := (gn_blocks g)[block :=
               b\<lparr>blk_missing := (blk_missing b)[slot := blk_missing b ! slot OR bits]\<rparr>]\<rparr>, Updated)
      | None \<Rightarrow>
          (let slot = (case position (\<lambda>h. h = 0) (blk_hashes b) of Some s \<Rightarrow> s | None \<Rightarrow> victim_slot (fp_hash fp));
               outcome = (if blk_hashes b ! slot = 0 then Inserted else Replaced)
           in (g\<lparr>gn_blocks := (gn_blocks g)[block :=
                   \<lparr>blk_hashes = (blk_hashes b)[slot := fp_hash fp], blk_tags = (blk_tags b)[slot := fp_tag fp],
                    blk_missing = (blk_missing b)[slot := bits]\<rparr>],
                 gn_keys := (gn_keys g)[block * BLOCK_SLOTS + slot := Some key]\<rparr>, outcome)))"

section \<open>The rotating filter\<close>

record FilterState =
  fs_generations :: "Generation list"
  fs_current :: nat
  fs_blocks :: nat
  fs_live :: nat
  fs_interval :: u64
  fs_next_rotation_at :: u64

definition filter_new :: "nat \<Rightarrow> nat \<Rightarrow> u64 \<Rightarrow> FilterState" where
  "filter_new blocks generation_count interval =
     \<lparr>fs_generations = replicate (max generation_count 1) (generation_new blocks), fs_current = 0,
      fs_blocks = blocks, fs_live = 0, fs_interval = interval, fs_next_rotation_at = 0\<rparr>"

definition active_generation_indices :: "FilterState \<Rightarrow> nat list" where
  "active_generation_indices f =
     map (\<lambda>offset. (fs_current f + length (fs_generations f) - offset) mod length (fs_generations f)) [0..<fs_live f]"

definition occupied_slots :: "FilterState \<Rightarrow> nat" where
  "occupied_slots f = sum_list (map (\<lambda>i. gn_occupied (fs_generations f ! i)) (active_generation_indices f))"

definition filter_reset :: "FilterState \<Rightarrow> FilterState" where
  "filter_reset f =
     f\<lparr>fs_generations := map (\<lambda>g. fst (generation_clear g)) (fs_generations f), fs_current := 0, fs_live := 0,
       fs_next_rotation_at := 0\<rparr>"

definition rotation_due :: "u64 \<Rightarrow> u64 \<Rightarrow> u64" where
  "rotation_due interval start =
     (if interval = 0 \<or> interval = - 1 then 0 else saturating_add start interval)"

definition ensure_current_generation_started :: "u64 \<Rightarrow> FilterState \<Rightarrow> FilterState" where
  "ensure_current_generation_started now f =
     (let g = fs_generations f ! fs_current f in
      if gn_started_at g \<noteq> 0 then f
      else f\<lparr>fs_generations := (fs_generations f)[fs_current f := g\<lparr>gn_started_at := now\<rparr>],
             fs_live := max (fs_live f) 1, fs_next_rotation_at := rotation_due (fs_interval f) now\<rparr>)"

definition refresh_next_rotation_at :: "FilterState \<Rightarrow> FilterState" where
  "refresh_next_rotation_at f =
     f\<lparr>fs_next_rotation_at := rotation_due (fs_interval f) (gn_started_at (fs_generations f ! fs_current f))\<rparr>"

text \<open>\<open>max_by_key\<close> gives the last of several maxima.\<close>

fun latest_generation :: "nat \<Rightarrow> Generation list \<Rightarrow> nat option \<Rightarrow> Generation list \<Rightarrow> nat option" where
  "latest_generation i all best [] = best"
| "latest_generation i all best (g # gs) =
     latest_generation (Suc i) all
       (if gn_started_at g = 0 then best
        else case best of
               None \<Rightarrow> Some i
             | Some j \<Rightarrow> if gn_started_at (all ! j) \<le> gn_started_at g then Some i else Some j) gs"

definition reanchor_current_generation :: "FilterState \<Rightarrow> FilterState" where
  "reanchor_current_generation f =
     (case latest_generation 0 (fs_generations f) None (fs_generations f) of
        None \<Rightarrow> f
      | Some i \<Rightarrow> refresh_next_rotation_at (f\<lparr>fs_current := i\<rparr>))"

fun rotate_loop :: "nat \<Rightarrow> nat \<Rightarrow> Generation list \<Rightarrow> nat \<Rightarrow> nat \<times> Generation list \<times> nat" where
  "rotate_loop 0 current gens evicted = (current, gens, evicted)"
| "rotate_loop (Suc n) current gens evicted =
     (let current = (current + 1) mod length gens;
          (g, e) = generation_clear (gens ! current)
      in rotate_loop n current (gens[current := g]) (evicted + e))"

definition rotate_if_needed :: "u64 \<Rightarrow> FilterState \<Rightarrow> FilterState \<times> nat" where
  "rotate_if_needed now f =
     (let interval = fs_interval f; gens = fs_generations f; next = fs_next_rotation_at f in
      if fs_blocks f = 0 \<or> gens = [] then (f, 0)
      else if interval = 0 then
        (filter_reset f, sum_list (map gn_occupied gens))
      else if interval = - 1 then (f, 0)
      else if fs_live f = 0 \<or> next = 0 \<or> now < next then (f, 0)
      else (let rotations = min (1 + unat (saturating_sub now next div interval)) (length gens);
                (current, gens', evicted) = rotate_loop rotations (fs_current f) gens 0
            in (f\<lparr>fs_current := current, fs_generations := gens',
                  fs_live := min (fs_live f + rotations) (length gens),
                  fs_next_rotation_at := saturating_add next (saturating_mul (word_of_nat rotations) interval)\<rparr>,
                evicted)))"

text \<open>The search stops early when every provider is known to miss the article.\<close>

fun lookup_generations :: "ArticleFingerprint \<Rightarrow> bytes \<Rightarrow> nat \<Rightarrow> Generation list \<Rightarrow> usize \<Rightarrow> usize" where
  "lookup_generations fp key block [] bits = bits"
| "lookup_generations fp key block (g # gs) bits =
     (let bits = bits OR generation_lookup_missing_bits fp key block g
      in if bits = ALL_BACKEND_BITS then bits else lookup_generations fp key block gs bits)"

definition filter_lookup_missing_bits ::
    "ArticleFingerprint \<Rightarrow> bytes \<Rightarrow> nat \<Rightarrow> u64 \<Rightarrow> FilterState \<Rightarrow> FilterState \<times> usize \<times> nat" where
  "filter_lookup_missing_bits fp key block now f =
     (let (f, evicted) = rotate_if_needed now f in
      if fs_blocks f = 0 \<or> fs_generations f = [] then (f, 0, evicted)
      else (f, lookup_generations fp key block (map ((!) (fs_generations f)) (active_generation_indices f)) 0, evicted))"

definition filter_insert_missing_bits ::
    "ArticleFingerprint \<Rightarrow> bytes \<Rightarrow> usize \<Rightarrow> nat \<Rightarrow> u64 \<Rightarrow> FilterState \<Rightarrow> FilterState \<times> nat" where
  "filter_insert_missing_bits fp key bits block now f =
     (let (f, evicted) = rotate_if_needed now f in
      if fs_blocks f = 0 \<or> bits = 0 \<or> fs_interval f = 0 then (f, evicted)
      else (let f = ensure_current_generation_started now f;
                (g, outcome) = generation_insert_missing_bits fp key bits block (fs_generations f ! fs_current f);
                g = (if outcome = Inserted then g\<lparr>gn_occupied := gn_occupied g + 1\<rparr> else g)
            in (f\<lparr>fs_generations := (fs_generations f)[fs_current f := g]\<rparr>,
                if outcome = Replaced then evicted + 1 else evicted)))"

section \<open>The sharded index\<close>

record ShardState =
  sh_filter :: FilterState
  sh_hits :: u64
  sh_misses :: u64
  sh_evictions :: u64
  sh_initial_misses :: u64

record AvailabilityIndex =
  ai_shards :: "ShardState list"
  ai_populated :: bool
  ai_blocks :: nat
  ai_layout :: AvailabilityLayout
  ai_capacity_bytes :: nat
  ai_ttl :: u64

definition shard_new :: "nat \<Rightarrow> nat \<Rightarrow> u64 \<Rightarrow> ShardState" where
  "shard_new blocks generation_count interval =
     \<lparr>sh_filter = filter_new blocks generation_count interval, sh_hits = 0, sh_misses = 0, sh_evictions = 0,
      sh_initial_misses = 0\<rparr>"

definition rotation_interval :: "u64 \<Rightarrow> nat \<Rightarrow> u64" where
  "rotation_interval ttl generation_count =
     (if ttl = 0 then 0 else if ttl = - 1 then - 1 else max (ttl div word_of_nat generation_count) 1)"

definition with_geometry :: "nat \<Rightarrow> u64 \<Rightarrow> nat \<Rightarrow> nat \<Rightarrow> AvailabilityLayout \<Rightarrow> AvailabilityIndex" where
  "with_geometry capacity_bytes ttl generation_count shard_count layout =
     (let total_blocks = capacity_bytes div SIZE_OF_BLOCK;
          generation_count = min (max generation_count 1) (max total_blocks 1);
          blocks = (if total_blocks = 0 then 0 else total_blocks div generation_count);
          interval = rotation_interval ttl generation_count;
          shard_count = min (max shard_count 1) (max blocks 1)
      in \<lparr>ai_shards = map (\<lambda>shard. shard_new (blocks div shard_count + of_bool (shard < blocks mod shard_count))
                                     generation_count interval) [0..<shard_count],
          ai_populated = False, ai_blocks = blocks, ai_layout = layout, ai_capacity_bytes = capacity_bytes,
          ai_ttl = ttl\<rparr>)"

definition with_layout :: "u64 \<Rightarrow> AvailabilityLayout \<Rightarrow> AvailabilityIndex" where
  "with_layout ttl layout = with_geometry FIXED_CAPACITY_BYTES ttl DEFAULT_GENERATIONS DEFAULT_SHARDS layout"

definition locate_bucket :: "AvailabilityIndex \<Rightarrow> nat \<Rightarrow> nat \<times> nat" where
  "locate_bucket idx global = (global mod length (ai_shards idx), global div length (ai_shards idx))"

definition locate_hash :: "AvailabilityIndex \<Rightarrow> u64 \<Rightarrow> nat \<times> nat" where
  "locate_hash idx h = locate_bucket idx (if ai_blocks idx = 0 then 0 else block_index h (ai_blocks idx))"

definition partition_lookup ::
    "ArticleFingerprint \<Rightarrow> nat \<Rightarrow> bytes \<Rightarrow> u64 \<Rightarrow> ShardState \<Rightarrow> ShardState \<times> CachedArticle option" where
  "partition_lookup fp bucket key now shard =
     (let (f, bits, evicted) = filter_lookup_missing_bits fp key bucket now (sh_filter shard);
          shard = shard\<lparr>sh_filter := f, sh_evictions := sh_evictions shard + word_of_nat evicted\<rparr>
      in if bits = 0 then (shard\<lparr>sh_misses := sh_misses shard + 1\<rparr>, None)
         else (shard\<lparr>sh_hits := sh_hits shard + 1\<rparr>, Some (negative_only now bits)))"

definition partition_record_missing ::
    "ArticleFingerprint \<Rightarrow> nat \<Rightarrow> bytes \<Rightarrow> usize \<Rightarrow> u64 \<Rightarrow> ShardState \<Rightarrow> ShardState" where
  "partition_record_missing fp bucket key bits now shard =
     (let (f, evicted) = filter_insert_missing_bits fp key bits bucket now (sh_filter shard)
      in shard\<lparr>sh_filter := f, sh_evictions := sh_evictions shard + word_of_nat evicted\<rparr>)"

text \<open>\<open>stripe\<close> is the number of the thread, which only selects the counter of initial misses.\<close>

definition lookup_by_key ::
    "(u64 \<Rightarrow> bytes \<Rightarrow> u64) \<Rightarrow> nat \<Rightarrow> bytes \<Rightarrow> u64 \<Rightarrow> AvailabilityIndex \<Rightarrow> AvailabilityIndex \<times> CachedArticle option" where
  "lookup_by_key H stripe key now idx =
     (if \<not> ai_populated idx then
        (let i = stripe mod length (ai_shards idx); shard = ai_shards idx ! i
         in (idx\<lparr>ai_shards := (ai_shards idx)[i := shard\<lparr>sh_initial_misses := sh_initial_misses shard + 1\<rparr>]\<rparr>, None))
      else
        (let fp = from_key H key;
             (i, bucket) = locate_hash idx (fp_hash fp);
             (shard, found) = partition_lookup fp bucket key now (ai_shards idx ! i)
         in (idx\<lparr>ai_shards := (ai_shards idx)[i := shard]\<rparr>, found)))"

definition index_insert_missing_bits ::
    "(u64 \<Rightarrow> bytes \<Rightarrow> u64) \<Rightarrow> bytes \<Rightarrow> usize \<Rightarrow> u64 \<Rightarrow> AvailabilityIndex \<Rightarrow> AvailabilityIndex" where
  "index_insert_missing_bits H key bits now idx =
     (if key = [] \<or> bits = 0 \<or> ai_ttl idx = 0 then idx
      else
        (let fp = from_key H key;
             (i, bucket) = locate_hash idx (fp_hash fp)
         in idx\<lparr>ai_shards := (ai_shards idx)[i := partition_record_missing fp bucket key bits now (ai_shards idx ! i)],
                ai_populated := True\<rparr>))"

definition strip_brackets :: "bytes \<Rightarrow> bytes option" where
  "strip_brackets s =
     (case s of
        [] \<Rightarrow> None
      | c # rest \<Rightarrow> if c = LT \<and> rest \<noteq> [] \<and> last rest = GT then Some (butlast rest) else None)"

definition index_get_request_message_id ::
    "(u64 \<Rightarrow> bytes \<Rightarrow> u64) \<Rightarrow> nat \<Rightarrow> bytes \<Rightarrow> u64 \<Rightarrow> AvailabilityIndex \<Rightarrow> AvailabilityIndex \<times> CachedArticle option" where
  "index_get_request_message_id H stripe message_id now idx =
     (case strip_brackets message_id of
        None \<Rightarrow> (idx, None)
      | Some key \<Rightarrow> lookup_by_key H stripe key now idx)"

text \<open>\<open>None\<close> is the panic of \<open>without_brackets\<close>.\<close>

definition index_record_availability_missing ::
    "(u64 \<Rightarrow> bytes \<Rightarrow> u64) \<Rightarrow> MessageId \<Rightarrow> AvailabilitySlot \<Rightarrow> u64 \<Rightarrow> AvailabilityIndex \<Rightarrow> AvailabilityIndex option" where
  "index_record_availability_missing H message_id slot now idx =
     map_option (\<lambda>key. index_insert_missing_bits H key (slot_bit slot) now idx) (without_brackets message_id)"

fun count_shards :: "u64 \<Rightarrow> ShardState list \<Rightarrow> ShardState list \<times> nat" where
  "count_shards now [] = ([], 0)"
| "count_shards now (shard # shards) =
     (let (f, evicted) = rotate_if_needed now (sh_filter shard);
          shard = shard\<lparr>sh_filter := f, sh_evictions := sh_evictions shard + word_of_nat evicted\<rparr>;
          (shards, n) = count_shards now shards
      in (shard # shards, occupied_slots f + n))"

definition entry_count :: "u64 \<Rightarrow> AvailabilityIndex \<Rightarrow> AvailabilityIndex \<times> nat" where
  "entry_count now idx = (let (shards, n) = count_shards now (ai_shards idx) in (idx\<lparr>ai_shards := shards\<rparr>, n))"

section \<open>Well-formed generations\<close>

text \<open>
  \<open>gen_ok n E g\<close>: the generation has \<open>n\<close> blocks of two slots, a slot has a key exactly when its hash is
  set, and every missing bit of a slot has its evidence: \<open>E s k m\<close> says that provider \<open>m\<close> was observed to
  miss the article \<open>k\<close> at time \<open>s\<close> or later.
\<close>

definition block_wf :: "Block \<Rightarrow> bool" where
  "block_wf b \<longleftrightarrow> length (blk_hashes b) = 2 \<and> length (blk_tags b) = 2 \<and> length (blk_missing b) = 2"

definition gen_ok :: "nat \<Rightarrow> (u64 \<Rightarrow> bytes \<Rightarrow> nat \<Rightarrow> bool) \<Rightarrow> Generation \<Rightarrow> bool" where
  "gen_ok n E g \<longleftrightarrow>
     length (gn_blocks g) = n \<and> length (gn_keys g) = n * 2 \<and>
     (\<forall>b < n. block_wf (gn_blocks g ! b)) \<and>
     (\<forall>b < n. \<forall>s < 2. blk_hashes (gn_blocks g ! b) ! s \<noteq> 0 \<longleftrightarrow> generation_key g b s \<noteq> None) \<and>
     (\<forall>b < n. \<forall>s < 2. \<forall>k. generation_key g b s = Some k \<longrightarrow>
        gn_started_at g \<noteq> 0 \<and> (\<forall>m. bit (blk_missing (gn_blocks g ! b) ! s) m \<longrightarrow> E (gn_started_at g) k m))"

lemma gen_okI:
  assumes "length (gn_blocks g) = n" "length (gn_keys g) = n * 2" "\<And>b. b < n \<Longrightarrow> block_wf (gn_blocks g ! b)"
    and "\<And>b s. b < n \<Longrightarrow> s < 2 \<Longrightarrow> blk_hashes (gn_blocks g ! b) ! s \<noteq> 0 \<longleftrightarrow> generation_key g b s \<noteq> None"
    and "\<And>b s k. b < n \<Longrightarrow> s < 2 \<Longrightarrow> generation_key g b s = Some k \<Longrightarrow>
        gn_started_at g \<noteq> 0 \<and> (\<forall>m. bit (blk_missing (gn_blocks g ! b) ! s) m \<longrightarrow> E (gn_started_at g) k m)"
  shows "gen_ok n E g"
  using assms by (simp add: gen_ok_def)

lemma gen_ok_mono:
  assumes "gen_ok n E g" "\<And>s k m. E s k m \<Longrightarrow> E' s k m"
  shows "gen_ok n E' g"
  using assms by (simp add: gen_ok_def)

lemma slot_in_keys: "b < n \<Longrightarrow> s < 2 \<Longrightarrow> b * 2 + s < n * (2::nat)"
  by linarith

lemma slot_unique: "s < 2 \<Longrightarrow> s' < 2 \<Longrightarrow> b * 2 + s = b' * 2 + s' \<longleftrightarrow> b = b' \<and> s = (s'::nat)"
  by presburger

lemma block_default_wf [simp]: "block_wf block_default" "s < 2 \<Longrightarrow> blk_hashes block_default ! s = 0"
  by (simp_all add: block_wf_def block_default_def BLOCK_SLOTS_def)

lemma gen_ok_new: "gen_ok n E (generation_new n)"
  by (rule gen_okI) (simp_all add: generation_new_def generation_key_def BLOCK_SLOTS_def slot_in_keys)

lemma gen_ok_clear: "gen_ok n E g \<Longrightarrow> gen_ok n E (fst (generation_clear g))"
  by (rule gen_okI)
    (simp_all add: generation_clear_def generation_key_def BLOCK_SLOTS_def gen_ok_def block_clear_def slot_in_keys)

lemma clear_started [simp]: "gn_started_at (fst (generation_clear g)) = 0"
  by (simp add: generation_clear_def)

lemma foldl_or_bits:
  fixes f :: "'a \<Rightarrow> usize"
  shows "bit (foldl (\<lambda>bits s. if Q s then bits OR f s else bits) a xs) m \<longleftrightarrow> bit a m \<or> (\<exists>s \<in> set xs. Q s \<and> bit (f s) m)"
  by (induction xs arbitrary: a) (auto simp: bit_or_iff)

lemma bit_generation_lookup:
  "bit (generation_lookup_missing_bits fp key block g) m \<longleftrightarrow>
     (\<exists>s < 2. generation_key g block s = Some key \<and> bit (blk_missing (gn_blocks g ! block) ! s) m \<and>
        blk_hashes (gn_blocks g ! block) ! s = fp_hash fp \<and> blk_tags (gn_blocks g ! block) ! s = fp_tag fp)"
  by (auto simp: generation_lookup_missing_bits_def Let_def foldl_or_bits matching_slots_def BLOCK_SLOTS_def)

lemma generation_lookup_sound:
  assumes "gen_ok n E g" "block < n" "bit (generation_lookup_missing_bits fp key block g) m"
  shows "gn_started_at g \<noteq> 0 \<and> E (gn_started_at g) key m"
  using assms by (auto simp: bit_generation_lookup gen_ok_def)

lemma victim_slot_less: "victim_slot h < 2"
proof -
  have "unat (drop_bit 48 h AND 1) \<le> unat (1::u64)" by (simp only: word_and_le1 flip: word_le_nat_alt)
  then show ?thesis by (simp add: victim_slot_def BLOCK_SLOTS_def del: and_one_eq)
qed

text \<open>The two ways in which an insertion changes a generation.\<close>

lemma generation_insert_cases:
  assumes "gen_ok n E g" "block < n"
  obtains
    (update) s where "s < 2" "generation_key g block s = Some key"
      "generation_insert_missing_bits fp key bits block g =
         (g\<lparr>gn_blocks := (gn_blocks g)[block := (gn_blocks g ! block)\<lparr>blk_missing :=
            (blk_missing (gn_blocks g ! block))[s := blk_missing (gn_blocks g ! block) ! s OR bits]\<rparr>]\<rparr>, Updated)"
      "blk_hashes (gn_blocks g ! block) ! s = fp_hash fp" "blk_tags (gn_blocks g ! block) ! s = fp_tag fp"
  | (place) s outcome where "s < 2" "outcome = Inserted \<or> outcome = Replaced"
      "generation_insert_missing_bits fp key bits block g =
         (g\<lparr>gn_blocks := (gn_blocks g)[block :=
              \<lparr>blk_hashes = (blk_hashes (gn_blocks g ! block))[s := fp_hash fp],
               blk_tags = (blk_tags (gn_blocks g ! block))[s := fp_tag fp],
               blk_missing = (blk_missing (gn_blocks g ! block))[s := bits]\<rparr>],
            gn_keys := (gn_keys g)[block * 2 + s := Some key]\<rparr>, outcome)"
proof (cases "find (\<lambda>slot. generation_key g block slot = Some key)
    (matching_slots (blk_hashes (gn_blocks g ! block)) (blk_tags (gn_blocks g ! block)) (fp_hash fp) (fp_tag fp))")
  case (Some s)
  then have s: "s < 2" "generation_key g block s = Some key" "blk_hashes (gn_blocks g ! block) ! s = fp_hash fp"
      "blk_tags (gn_blocks g ! block) ! s = fp_tag fp"
    by (auto simp: find_Some_iff matching_slots_def BLOCK_SLOTS_def dest!: nth_mem)
  show ?thesis
    by (rule update [OF s(1,2) _ s(3,4)]) (simp add: generation_insert_missing_bits_def Let_def Some)
next
  case None
  let ?b = "gn_blocks g ! block"
  define s where "s = (case position (\<lambda>h. h = 0) (blk_hashes ?b) of Some s \<Rightarrow> s | None \<Rightarrow> victim_slot (fp_hash fp))"
  have "length (blk_hashes ?b) = 2" using assms by (simp add: gen_ok_def block_wf_def)
  then have "s < 2" by (auto simp: s_def victim_slot_less split: option.split dest: position_SomeD(1))
  moreover have "generation_insert_missing_bits fp key bits block g =
         (g\<lparr>gn_blocks := (gn_blocks g)[block :=
              \<lparr>blk_hashes = (blk_hashes ?b)[s := fp_hash fp], blk_tags = (blk_tags ?b)[s := fp_tag fp],
               blk_missing = (blk_missing ?b)[s := bits]\<rparr>],
            gn_keys := (gn_keys g)[block * 2 + s := Some key]\<rparr>, if blk_hashes ?b ! s = 0 then Inserted else Replaced)"
    unfolding generation_insert_missing_bits_def Let_def None option.case s_def BLOCK_SLOTS_def by (rule refl)
  ultimately show ?thesis by (intro place) auto
qed

lemma generation_insert_started [simp]:
  "gn_started_at (fst (generation_insert_missing_bits fp key bits block g)) = gn_started_at g"
  by (simp add: generation_insert_missing_bits_def Let_def split: option.split)

lemma generation_insert_ok:
  assumes "gen_ok n E g" "block < n" "gn_started_at g \<noteq> 0" "fp_hash fp \<noteq> 0"
    and "\<And>m. bit bits m \<Longrightarrow> E (gn_started_at g) key m"
  shows "gen_ok n E (fst (generation_insert_missing_bits fp key bits block g))"
proof -
  let ?B = "gn_blocks g ! block"
  have wf: "length (gn_blocks g) = n" "length (gn_keys g) = n * 2" "\<forall>b < n. block_wf (gn_blocks g ! b)"
    "\<And>b s. b < n \<Longrightarrow> s < 2 \<Longrightarrow> blk_hashes (gn_blocks g ! b) ! s \<noteq> 0 \<longleftrightarrow> generation_key g b s \<noteq> None"
    "\<And>b s k m. b < n \<Longrightarrow> s < 2 \<Longrightarrow> generation_key g b s = Some k \<Longrightarrow> bit (blk_missing (gn_blocks g ! b) ! s) m \<Longrightarrow>
       E (gn_started_at g) k m"
    using assms(1) by (simp_all add: gen_ok_def)
  from assms(1,2) show ?thesis
  proof (cases rule: generation_insert_cases [where key = key and fp = fp and bits = bits])
    case (update s)
    let ?g = "g\<lparr>gn_blocks := (gn_blocks g)[block := ?B\<lparr>blk_missing := (blk_missing ?B)[s := blk_missing ?B ! s OR bits]\<rparr>]\<rparr>"
    have key: "generation_key ?g b t = generation_key g b t" for b t by (simp add: generation_key_def)
    have "gen_ok n E ?g"
      by (rule gen_okI)
        (use wf assms update in \<open>auto simp: key nth_list_update block_wf_def bit_or_iff split: if_splits\<close>)
    then show ?thesis unfolding update(3) by simp
  next
    case (place s outcome)
    let ?B' = "\<lparr>blk_hashes = (blk_hashes ?B)[s := fp_hash fp], blk_tags = (blk_tags ?B)[s := fp_tag fp],
               blk_missing = (blk_missing ?B)[s := bits]\<rparr>"
    let ?g = "g\<lparr>gn_blocks := (gn_blocks g)[block := ?B'], gn_keys := (gn_keys g)[block * 2 + s := Some key]\<rparr>"
    have key: "generation_key ?g b t = (if b = block \<and> t = s then Some key else generation_key g b t)"
      if "b < n" "t < 2" for b t
      using slot_in_keys [OF assms(2) place(1)] slot_unique [OF place(1) that(2)] wf(2)
      by (auto simp: generation_key_def BLOCK_SLOTS_def nth_list_update)
    have "gen_ok n E ?g"
      by (rule gen_okI)
        (use wf assms place in \<open>auto simp: key nth_list_update block_wf_def split: if_splits\<close>)
    then show ?thesis unfolding place(3) by simp
  qed
qed

lemma generation_insert_found:
  assumes "gen_ok n E g" "block < n" "bit bits m"
  shows "bit (generation_lookup_missing_bits fp key block (fst (generation_insert_missing_bits fp key bits block g))) m"
proof -
  have wf: "length (gn_blocks g) = n" "length (gn_keys g) = n * 2" "block_wf (gn_blocks g ! block)"
    using assms(1,2) by (simp_all add: gen_ok_def)
  from assms(1,2) show ?thesis
  proof (cases rule: generation_insert_cases [where key = key and fp = fp and bits = bits])
    case (update s)
    then show ?thesis using wf assms(2,3) unfolding update(3) fst_conv bit_generation_lookup
      by (intro exI [of _ s]) (simp add: generation_key_def block_wf_def bit_or_iff)
  next
    case (place s outcome)
    then show ?thesis using wf assms(2,3) slot_in_keys [OF assms(2) place(1)] unfolding place(3) fst_conv bit_generation_lookup
      by (intro exI [of _ s]) (simp add: generation_key_def block_wf_def BLOCK_SLOTS_def)
  qed
qed

section \<open>Well-formed filters\<close>

definition filter_ok :: "nat \<Rightarrow> (u64 \<Rightarrow> bytes \<Rightarrow> nat \<Rightarrow> bool) \<Rightarrow> u64 \<Rightarrow> FilterState \<Rightarrow> bool" where
  "filter_ok n E past f \<longleftrightarrow>
     fs_blocks f = n \<and> fs_generations f \<noteq> [] \<and> fs_current f < length (fs_generations f) \<and>
     fs_live f \<le> length (fs_generations f) \<and>
     (\<forall>g \<in> set (fs_generations f). gen_ok n E g \<and> gn_started_at g \<le> past)"

lemma filter_ok_mono:
  "filter_ok n E past f \<Longrightarrow> (\<And>s k m. E s k m \<Longrightarrow> E' s k m) \<Longrightarrow> past \<le> past' \<Longrightarrow> filter_ok n E' past' f"
  unfolding filter_ok_def by (blast intro: gen_ok_mono order_trans)

lemma filter_ok_new: "filter_ok n E past (filter_new n k i)"
proof -
  have "gn_started_at (generation_new n) = 0" by (simp add: generation_new_def)
  then show ?thesis by (simp add: filter_ok_def filter_new_def gen_ok_new)
qed

lemma rotate_loop_keeps:
  assumes "rotate_loop k c gens e = (c', gens', e')" "gens \<noteq> []" "c < length gens"
    and "\<forall>g \<in> set gens. Q g" "\<And>g. Q g \<Longrightarrow> Q (fst (generation_clear g))"
  shows "length gens' = length gens \<and> c' < length gens' \<and> (\<forall>g \<in> set gens'. Q g)"
  using assms(1-4)
proof (induction k arbitrary: c gens e)
  case 0
  then show ?case by simp
next
  case (Suc k)
  let ?c = "(c + 1) mod length gens"
  obtain g x where g: "generation_clear (gens ! ?c) = (g, x)" by fastforce
  have c: "?c < length gens" using Suc.prems(2) by simp
  have "Q g" using assms(5) [of "gens ! ?c"] Suc.prems(4) c g by simp
  then have "\<forall>h \<in> set (gens[?c := g]). Q h" using Suc.prems(4) set_update_subset_insert by fastforce
  with Suc.IH [of ?c "gens[?c := g]" "e + x"] Suc.prems(1,2) c g show ?case by (simp add: Let_def)
qed

lemma rotate_if_needed_ok:
  assumes "filter_ok n E past f" "rotate_if_needed now f = (f', e)"
  shows "filter_ok n E past f' \<and> length (fs_generations f') = length (fs_generations f) \<and> fs_interval f' = fs_interval f"
proof -
  have f: "fs_generations f \<noteq> []" "fs_current f < length (fs_generations f)"
    "\<forall>g \<in> set (fs_generations f). gen_ok n E g \<and> gn_started_at g \<le> past" "fs_blocks f = n"
    using assms(1) by (simp_all add: filter_ok_def)
  let ?r = "min (1 + unat (saturating_sub now (fs_next_rotation_at f) div fs_interval f)) (length (fs_generations f))"
  obtain c gens x where r: "rotate_loop ?r (fs_current f) (fs_generations f) 0 = (c, gens, x)" by (metis prod_cases3)
  have "length gens = length (fs_generations f) \<and> c < length gens \<and> (\<forall>g \<in> set gens. gen_ok n E g \<and> gn_started_at g \<le> past)"
    by (rule rotate_loop_keeps [OF r f(1-3)]) (simp add: gen_ok_clear)
  then show ?thesis using assms f r
    by (auto simp: rotate_if_needed_def Let_def filter_ok_def filter_reset_def gen_ok_clear split: if_splits)
qed

lemma active_in_range: "filter_ok n E past f \<Longrightarrow> i \<in> set (active_generation_indices f) \<Longrightarrow> i < length (fs_generations f)"
  by (auto simp: active_generation_indices_def filter_ok_def)

lemma lookup_generations_sound:
  "bit (lookup_generations fp key block gs bits) m \<Longrightarrow>
     bit bits m \<or> (\<exists>g \<in> set gs. bit (generation_lookup_missing_bits fp key block g) m)"
proof (induction gs arbitrary: bits)
  case (Cons g gs)
  let ?b = "bits OR generation_lookup_missing_bits fp key block g"
  have "bit ?b m \<or> (\<exists>g \<in> set gs. bit (generation_lookup_missing_bits fp key block g) m)"
    using Cons.IH [of ?b] Cons.prems by (auto simp: Let_def split: if_splits)
  then show ?case by (auto simp: bit_or_iff)
qed simp

lemma lookup_generations_found:
  "bit bits m \<or> (\<exists>g \<in> set gs. bit (generation_lookup_missing_bits fp key block g) m) \<Longrightarrow>
     bit (lookup_generations fp key block gs bits) m"
proof (induction gs arbitrary: bits)
  case (Cons g gs)
  have "m < 64" using Cons.prems by (auto dest: bit_imp_le_length)
  then have "bit ALL_BACKEND_BITS m" by (simp add: ALL_BACKEND_BITS_def)
  then show ?case using Cons by (auto simp: Let_def bit_or_iff)
qed simp

lemma filter_lookup_sound:
  assumes "filter_ok n E past f" "filter_lookup_missing_bits fp key block now f = (f', bits, e)" "block < n" "bit bits m"
  shows "\<exists>g \<in> set (fs_generations f'). gn_started_at g \<noteq> 0 \<and> E (gn_started_at g) key m"
proof -
  obtain f1 x where r: "rotate_if_needed now f = (f1, x)" by fastforce
  note ok = rotate_if_needed_ok [OF assms(1) r]
  have l: "f' = f1" "bit (lookup_generations fp key block (map ((!) (fs_generations f1)) (active_generation_indices f1)) 0) m"
    using assms(2,4) r by (auto simp: filter_lookup_missing_bits_def split: if_splits)
  obtain i where i: "i \<in> set (active_generation_indices f1)"
      "bit (generation_lookup_missing_bits fp key block (fs_generations f1 ! i)) m"
    using lookup_generations_sound [OF l(2)] by auto
  have "fs_generations f1 ! i \<in> set (fs_generations f1)" using active_in_range [OF conjunct1 [OF ok] i(1)] by simp
  moreover have "gen_ok n E (fs_generations f1 ! i)" using ok calculation by (simp add: filter_ok_def)
  ultimately show ?thesis using generation_lookup_sound [OF _ assms(3) i(2)] l(1) by blast
qed

lemma gen_ok_unstarted:
  assumes "gen_ok n E g" "gn_started_at g = 0"
  shows "gen_ok n E (g\<lparr>gn_started_at := now\<rparr>)"
proof -
  have "generation_key g b s = None" if "b < n" "s < 2" for b s using assms that by (fastforce simp: gen_ok_def)
  then show ?thesis using assms(1) by (auto simp: gen_ok_def generation_key_def)
qed

lemma ensure_started_ok:
  assumes "filter_ok n E now f" "now \<noteq> 0"
  shows "filter_ok n E now (ensure_current_generation_started now f) \<and>
    fs_current (ensure_current_generation_started now f) = fs_current f \<and>
    gn_started_at (fs_generations (ensure_current_generation_started now f) ! fs_current f) \<noteq> 0"
proof -
  let ?g = "fs_generations f ! fs_current f"
  have f: "fs_current f < length (fs_generations f)" "\<forall>g \<in> set (fs_generations f). gen_ok n E g \<and> gn_started_at g \<le> now"
    using assms(1) by (simp_all add: filter_ok_def)
  then have g: "gen_ok n E ?g" by simp
  show ?thesis
  proof (cases "gn_started_at ?g = 0")
    case True
    have "gen_ok n E (?g\<lparr>gn_started_at := now\<rparr>)" by (rule gen_ok_unstarted [OF g True])
    then have "\<forall>h \<in> set ((fs_generations f)[fs_current f := ?g\<lparr>gn_started_at := now\<rparr>]). gen_ok n E h \<and> gn_started_at h \<le> now"
      using f(2) set_update_subset_insert by fastforce
    moreover have "1 \<le> length (fs_generations f)" using f(1) by linarith
    ultimately show ?thesis using assms f(1) True
      by (auto simp: ensure_current_generation_started_def Let_def filter_ok_def)
  qed (use assms in \<open>simp add: ensure_current_generation_started_def Let_def\<close>)
qed

lemma gen_ok_occupied [simp]: "gen_ok n E (g\<lparr>gn_occupied := k\<rparr>) = gen_ok n E g"
  by (simp add: gen_ok_def generation_key_def)

lemma filter_insert_ok:
  assumes "filter_ok n E past f" "past \<le> now" "now \<noteq> 0" "block < n" "fp_hash fp \<noteq> 0"
    and "\<And>m s. bit bits m \<Longrightarrow> s \<le> now \<Longrightarrow> E s key m"
  shows "filter_ok n E now (fst (filter_insert_missing_bits fp key bits block now f))"
proof -
  obtain f1 x where r: "rotate_if_needed now f = (f1, x)" by fastforce
  have f1: "filter_ok n E now f1" using rotate_if_needed_ok [OF assms(1) r] filter_ok_mono [OF _ _ assms(2)] by blast
  let ?f = "ensure_current_generation_started now f1"
  let ?g = "fs_generations ?f ! fs_current ?f"
  note f2 = ensure_started_ok [OF f1 assms(3)]
  have c: "fs_current ?f < length (fs_generations ?f)" and g: "gen_ok n E ?g" "gn_started_at ?g \<le> now"
    using f2 by (simp_all add: filter_ok_def)
  obtain g' outcome where i: "generation_insert_missing_bits fp key bits block ?g = (g', outcome)" by fastforce
  have "gn_started_at ?g \<noteq> 0" using f2 by simp
  then have "gen_ok n E (fst (generation_insert_missing_bits fp key bits block ?g))"
    by (rule generation_insert_ok [OF g(1) assms(4) _ assms(5)]) (rule assms(6) [OF _ g(2)])
  then have "gen_ok n E g'" unfolding i by simp
  moreover have "gn_started_at g' \<le> now" using generation_insert_started [of fp key bits block ?g] g(2) unfolding i by simp
  ultimately have "gen_ok n E h \<and> gn_started_at h \<le> now"
    if "h \<in> {g', g'\<lparr>gn_occupied := gn_occupied g' + 1\<rparr>} \<union> set (fs_generations ?f)" for h
    using that f2 by (auto simp: filter_ok_def)
  then have "filter_ok n E now (?f\<lparr>fs_generations := (fs_generations ?f)[fs_current ?f := h]\<rparr>)"
    if "h \<in> {g', g'\<lparr>gn_occupied := gn_occupied g' + 1\<rparr>}" for h
    using that f2 c set_update_subset_insert [of "fs_generations ?f" "fs_current ?f" h] unfolding filter_ok_def by auto
  then show ?thesis using f1 r i by (simp add: filter_insert_missing_bits_def Let_def)
qed

section \<open>Retention of two generations\<close>

text \<open>
  With two generations and a finite interval \<open>I\<close>, the next rotation is at most \<open>I\<close> after the start of the
  current generation, and at most \<open>3 I\<close> after the start of the other one: that one rotated out within
  \<open>2 I\<close>, but the current generation may have been started by an insertion just before its own end.
\<close>

definition current_start :: "FilterState \<Rightarrow> nat" where
  "current_start f = unat (gn_started_at (fs_generations f ! fs_current f))"

definition other_start :: "FilterState \<Rightarrow> nat" where
  "other_start f = unat (gn_started_at (fs_generations f ! (1 - fs_current f)))"

definition retain :: "FilterState \<Rightarrow> bool" where
  "retain f \<longleftrightarrow>
     length (fs_generations f) = 2 \<and> fs_current f < 2 \<and> fs_interval f \<noteq> 0 \<and> fs_interval f \<noteq> - 1 \<and> fs_blocks f \<noteq> 0 \<and>
     (current_start f \<noteq> 0 \<longrightarrow> fs_live f \<noteq> 0 \<and> fs_next_rotation_at f \<noteq> 0 \<and>
        unat (fs_next_rotation_at f) \<le> current_start f + unat (fs_interval f)) \<and>
     (other_start f \<noteq> 0 \<longrightarrow> fs_live f = 2 \<and> fs_next_rotation_at f \<noteq> 0 \<and>
        (if current_start f = 0 then unat (fs_next_rotation_at f) \<le> other_start f + 2 * unat (fs_interval f)
         else unat (fs_next_rotation_at f) \<le> other_start f + 3 * unat (fs_interval f)))"

definition not_due :: "u64 \<Rightarrow> FilterState \<Rightarrow> bool" where
  "not_due now f \<longleftrightarrow> (current_start f \<noteq> 0 \<or> other_start f \<noteq> 0 \<longrightarrow> now < fs_next_rotation_at f)"

lemma retain_new:
  assumes "i \<noteq> 0" "i \<noteq> - 1" "n \<noteq> 0"
  shows "retain (filter_new n 2 i)"
proof -
  have "gn_started_at (generation_new n) = 0" by (simp add: generation_new_def)
  then show ?thesis using assms by (simp add: retain_def filter_new_def current_start_def other_start_def numeral_2_eq_2)
qed

lemma two_generations:
  assumes "length gens = 2" "c < (2::nat)"
  shows "Suc c mod length gens = 1 - c" "1 - c < 2" "1 - (1 - c) = c" "c \<noteq> 1 - c"
  using assms by (auto simp: less_2_cases_iff)

lemma rotate_once:
  assumes "length gens = 2" "c < 2"
  shows "rotate_loop 1 c gens e =
    (1 - c, gens[1 - c := fst (generation_clear (gens ! (1 - c)))], e + snd (generation_clear (gens ! (1 - c))))"
  by (simp add: two_generations [OF assms] Let_def case_prod_unfold)

lemma rotate_twice:
  assumes "rotate_loop 2 c gens e = (c', gens', e')" "length gens = 2" "c < 2"
  shows "length gens' = 2 \<and> c' < 2 \<and> (\<forall>i < 2. gn_started_at (gens' ! i) = 0)"
proof -
  let ?g = "gens[1 - c := fst (generation_clear (gens ! (1 - c)))]"
  have "rotate_loop 2 c gens e = rotate_loop 1 (1 - c) ?g (e + snd (generation_clear (gens ! (1 - c))))"
    using two_generations [OF assms(2,3)] by (simp add: numeral_2_eq_2 Let_def case_prod_unfold)
  then have "c' = c \<and> gens' = ?g[c := fst (generation_clear (?g ! c))]"
    using assms(1) rotate_once [of ?g "1 - c"] two_generations [OF assms(2,3)] assms(2) by auto
  then show ?thesis using assms(2,3) by (auto simp: less_2_cases_iff nth_list_update)
qed

lemma unat_below_max:
  assumes "w \<noteq> - 1"
  shows "unat (w :: u64) < 2 ^ 64 - 1"
proof -
  have "unat w \<noteq> unat (- 1 :: u64)" using assms unsigned_word_eqI by blast
  then have "unat w \<noteq> 2 ^ 64 - 1" using unat_minus_one_max [where 'a = 64] by simp
  moreover have "unat w < 2 ^ 64" using unsigned_less [of w] by simp
  ultimately show ?thesis by simp
qed

lemma rotations_cases:
  fixes now :: u64
  assumes "interval \<noteq> 0" "next \<le> now"
  shows "min (1 + unat (saturating_sub now next div interval)) 2 = 1 \<and> unat now < unat next + unat interval \<or>
    min (1 + unat (saturating_sub now next div interval)) 2 = 2"
proof (cases "unat now - unat next < unat interval")
  case True
  then have "unat (saturating_sub now next div interval) = 0" by (simp add: unat_div unat_saturating_sub)
  then show ?thesis using True assms(2) by (simp add: word_le_nat_alt)
next
  case False
  have "0 < unat interval" using assms(1) by (simp add: unat_gt_0)
  then have "1 \<le> unat (saturating_sub now next div interval)"
    using False by (simp add: unat_div unat_saturating_sub Suc_le_eq div_greater_zero_iff)
  then show ?thesis by simp
qed

lemma rotate_retain:
  assumes "retain f" "rotate_if_needed now f = (f', e)" "now \<noteq> - 1"
  shows "retain f' \<and> not_due now f'"
proof -
  let ?I = "unat (fs_interval f)" and ?next = "fs_next_rotation_at f" and ?c = "fs_current f" and ?gens = "fs_generations f"
  have f: "length ?gens = 2" "?c < 2" "fs_interval f \<noteq> 0" "fs_interval f \<noteq> - 1" "fs_blocks f \<noteq> 0" "?gens \<noteq> []"
    using assms(1) by (auto simp: retain_def)
  show ?thesis
  proof (cases "fs_live f = 0 \<or> ?next = 0 \<or> now < ?next")
    case True
    then have "f' = f" using assms(2) f by (simp add: rotate_if_needed_def)
    then show ?thesis using True assms(1) by (auto simp: not_due_def retain_def)
  next
    case False
    let ?r = "min (1 + unat (saturating_sub now ?next div fs_interval f)) (length ?gens)"
    have r: "?r = 1 \<and> unat now < unat ?next + ?I \<or> ?r = 2"
      using rotations_cases [OF f(3), of ?next now] False f(1) by (simp add: not_less)
    obtain c gens x where l: "rotate_loop ?r ?c ?gens 0 = (c, gens, x)" by (metis prod_cases3)
    let ?next' = "saturating_add ?next (saturating_mul (word_of_nat ?r) (fs_interval f))"
    have f': "f' = f\<lparr>fs_current := c, fs_generations := gens, fs_live := min (fs_live f + ?r) (length ?gens),
        fs_next_rotation_at := ?next'\<rparr>"
      using assms(2) f False l by (simp add: rotate_if_needed_def Let_def)
    from r show ?thesis
    proof
      assume one: "?r = 1 \<and> unat now < unat ?next + ?I"
      then have l1: "c = 1 - ?c" "gens = ?gens[1 - ?c := fst (generation_clear (?gens ! (1 - ?c)))]"
        using l rotate_once [OF f(1,2), of 0] by auto
      have s: "current_start f' = 0" "other_start f' = current_start f"
        using f' l1 two_generations [OF f(1,2)] f(1,2) by (simp_all add: current_start_def other_start_def)
      have n: "unat ?next' = min (unat ?next + ?I) (2 ^ 64 - 1)"
        using one unsigned_less [of "fs_interval f"] by (simp add: unat_saturating_add unat_saturating_mul)
      have "unat now < 2 ^ 64 - 1" by (rule unat_below_max [OF assms(3)])
      then have due: "unat now < unat ?next'" using n one by simp
      then have "?next' \<noteq> 0" by auto
      moreover have "current_start f \<noteq> 0 \<Longrightarrow> fs_live f \<noteq> 0 \<and> unat ?next' \<le> current_start f + 2 * ?I"
      proof -
        assume "current_start f \<noteq> 0"
        then have "fs_live f \<noteq> 0" "unat ?next \<le> current_start f + ?I" using assms(1) by (simp_all add: retain_def)
        moreover have "unat ?next' \<le> unat ?next + ?I" unfolding n by (rule min.cobounded1)
        ultimately show ?thesis by linarith
      qed
      ultimately show ?thesis using s f f' one due l1 two_generations [OF f(1,2)]
        by (auto simp: retain_def not_due_def word_less_nat_alt)
    next
      assume two: "?r = 2"
      have "length gens = 2 \<and> c < 2 \<and> (\<forall>i < 2. gn_started_at (gens ! i) = 0)"
        by (rule rotate_twice [OF l [unfolded two] f(1,2)])
      then have "current_start f' = 0" "other_start f' = 0" "length gens = 2" "c < 2"
        using f' by (simp_all add: current_start_def other_start_def)
      then show ?thesis using f f' by (simp add: retain_def not_due_def)
    qed
  qed
qed


lemma retain_bound:
  assumes "retain f" "not_due now f" "g \<in> set (fs_generations f)" "gn_started_at g \<noteq> 0"
  shows "unat now < unat (gn_started_at g) + 3 * unat (fs_interval f)"
proof -
  have f: "length (fs_generations f) = 2" "fs_current f < 2" using assms(1) by (simp_all add: retain_def)
  have "g = fs_generations f ! fs_current f \<or> g = fs_generations f ! (1 - fs_current f)"
    using assms(3) f by (auto simp: in_set_conv_nth less_2_cases_iff)
  then have "unat (gn_started_at g) = current_start f \<and> current_start f \<noteq> 0 \<or>
      unat (gn_started_at g) = other_start f \<and> other_start f \<noteq> 0"
    using assms(4) by (auto simp: current_start_def other_start_def unat_eq_0)
  then show ?thesis using assms(1,2) by (auto simp: retain_def not_due_def word_less_nat_alt split: if_splits)
qed

lemma retain_cong:
  assumes "retain f" "gn_started_at g = gn_started_at (fs_generations f ! fs_current f)"
  shows "retain (f\<lparr>fs_generations := (fs_generations f)[fs_current f := g]\<rparr>)"
proof -
  let ?f = "f\<lparr>fs_generations := (fs_generations f)[fs_current f := g]\<rparr>"
  have f: "length (fs_generations f) = 2" "fs_current f < 2" using assms(1) by (simp_all add: retain_def)
  have "current_start ?f = current_start f" "other_start ?f = other_start f"
    using assms(2) f two_generations [OF f] by (simp_all add: current_start_def other_start_def)
  then show ?thesis using assms(1) by (simp add: retain_def)
qed

lemma ensure_started_retain:
  assumes "retain f" "not_due now f" "now \<noteq> 0"
  shows "retain (ensure_current_generation_started now f)"
proof (cases "gn_started_at (fs_generations f ! fs_current f) = 0")
  case True
  let ?f = "ensure_current_generation_started now f" and ?I = "unat (fs_interval f)"
  have f: "length (fs_generations f) = 2" "fs_current f < 2" "fs_interval f \<noteq> 0" "fs_interval f \<noteq> - 1" "fs_blocks f \<noteq> 0"
    using assms(1) by (simp_all add: retain_def)
  have s: "current_start ?f = unat now" "other_start ?f = other_start f" "current_start f = 0"
    using True f two_generations [OF f(1,2)]
    by (simp_all add: current_start_def other_start_def ensure_current_generation_started_def Let_def)
  have next': "fs_next_rotation_at ?f = saturating_add now (fs_interval f)" "fs_live ?f = max (fs_live f) 1"
    "fs_interval ?f = fs_interval f" "fs_blocks ?f = fs_blocks f" "fs_current ?f = fs_current f" "length (fs_generations ?f) = 2"
    using True f by (simp_all add: ensure_current_generation_started_def Let_def rotation_due_def)
  have n: "unat (fs_next_rotation_at ?f) \<le> unat now + ?I" "unat now \<le> unat (fs_next_rotation_at ?f)"
  proof -
    have "unat now < 2 ^ 64" using unsigned_less [of now] by simp
    then show "unat now \<le> unat (fs_next_rotation_at ?f)" unfolding next' unat_saturating_add by simp
    show "unat (fs_next_rotation_at ?f) \<le> unat now + ?I" unfolding next' unat_saturating_add by (rule min.cobounded1)
  qed
  have "0 < unat now" using assms(3) by (simp add: unat_gt_0)
  then have "fs_next_rotation_at ?f \<noteq> 0" using n(2) by auto
  moreover have "other_start f \<noteq> 0 \<Longrightarrow> fs_live f = 2 \<and> unat now + ?I < other_start f + 3 * ?I"
    using assms(1,2) s(3) by (auto simp: retain_def not_due_def word_less_nat_alt)
  ultimately show ?thesis using f s n(1) next' \<open>0 < unat now\<close> by (auto simp: retain_def)
next
  case False
  then show ?thesis using assms(1) by (simp add: ensure_current_generation_started_def Let_def)
qed

lemma filter_insert_retain:
  assumes "retain f" "now \<noteq> 0" "now \<noteq> - 1"
  shows "retain (fst (filter_insert_missing_bits fp key bits block now f))"
proof -
  obtain f1 x where r: "rotate_if_needed now f = (f1, x)" by fastforce
  have f1: "retain f1" "not_due now f1" using rotate_retain [OF assms(1) r assms(3)] by simp_all
  let ?f = "ensure_current_generation_started now f1"
  let ?g = "fs_generations ?f ! fs_current ?f"
  obtain g outcome where i: "generation_insert_missing_bits fp key bits block ?g = (g, outcome)" by fastforce
  have "gn_started_at g = gn_started_at ?g" using generation_insert_started [of fp key bits block ?g] unfolding i by simp
  then have "retain (?f\<lparr>fs_generations := (fs_generations ?f)[fs_current ?f := h]\<rparr>)"
    if "h = g \<or> h = g\<lparr>gn_occupied := gn_occupied g + 1\<rparr>" for h
    using that ensure_started_retain [OF f1 assms(2)] by (auto intro: retain_cong)
  then show ?thesis using f1 r i by (simp add: filter_insert_missing_bits_def Let_def)
qed

lemma filter_insert_interval:
  "rotate_if_needed now f = (f1, x) \<Longrightarrow> fs_interval f1 = fs_interval f"
  "fs_interval (fst (filter_insert_missing_bits fp key bits block now f)) = fs_interval f"
proof -
  have r: "fs_interval (fst (rotate_if_needed now f)) = fs_interval f"
    by (simp add: rotate_if_needed_def Let_def filter_reset_def case_prod_unfold)
  then show "rotate_if_needed now f = (f1, x) \<Longrightarrow> fs_interval f1 = fs_interval f" by simp
  show "fs_interval (fst (filter_insert_missing_bits fp key bits block now f)) = fs_interval f"
    using r by (simp add: filter_insert_missing_bits_def Let_def case_prod_unfold ensure_current_generation_started_def)
qed

section \<open>The invariant of the index\<close>

definition shard_blocks :: "AvailabilityIndex \<Rightarrow> nat \<Rightarrow> nat" where
  "shard_blocks idx i =
     ai_blocks idx div length (ai_shards idx) + of_bool (i < ai_blocks idx mod length (ai_shards idx))"

definition shard_ok :: "nat \<Rightarrow> (u64 \<Rightarrow> bytes \<Rightarrow> nat \<Rightarrow> bool) \<Rightarrow> u64 \<Rightarrow> u64 \<Rightarrow> FilterState \<Rightarrow> bool" where
  "shard_ok n E past interval f \<longleftrightarrow>
     filter_ok n E past f \<and> fs_interval f = interval \<and>
     (interval \<noteq> 0 \<and> interval \<noteq> - 1 \<longrightarrow> retain f)"

definition index_ok :: "(u64 \<Rightarrow> bytes \<Rightarrow> nat \<Rightarrow> bool) \<Rightarrow> u64 \<Rightarrow> u64 \<Rightarrow> AvailabilityIndex \<Rightarrow> bool" where
  "index_ok E past interval idx \<longleftrightarrow>
     ai_shards idx \<noteq> [] \<and> ai_blocks idx \<noteq> 0 \<and>
     (\<forall>i < length (ai_shards idx). shard_ok (shard_blocks idx i) E past interval (sh_filter (ai_shards idx ! i)))"

lemma shard_ok_mono:
  "shard_ok n E past interval f \<Longrightarrow> (\<And>s k m. E s k m \<Longrightarrow> E' s k m) \<Longrightarrow> past \<le> past' \<Longrightarrow> shard_ok n E' past' interval f"
  unfolding shard_ok_def using filter_ok_mono by blast

lemma index_ok_mono:
  assumes "index_ok E past interval idx" "\<And>s k m. E s k m \<Longrightarrow> E' s k m" "past \<le> past'"
  shows "index_ok E' past' interval idx"
proof -
  have "shard_ok n E' past' interval f" if "shard_ok n E past interval f" for n f
    by (rule shard_ok_mono [OF that assms(2,3)])
  then show ?thesis using assms(1) unfolding index_ok_def by blast
qed

lemma with_layout_ok: "index_ok E past (rotation_interval ttl 2) (with_layout ttl layout)"
proof -
  let ?idx = "with_layout ttl layout" and ?I = "rotation_interval ttl 2"
  have idx: "ai_shards ?idx = map (\<lambda>shard. shard_new (2048 + of_bool (shard < 0)) 2 ?I) [0..<32]" "ai_blocks ?idx = 65536"
    by (simp_all add: with_layout_def with_geometry_def FIXED_CAPACITY_BYTES_def FIXED_TOTAL_BLOCKS_def
        FIXED_ARTICLE_CAPACITY_def BLOCK_SLOTS_def SIZE_OF_BLOCK_def DEFAULT_GENERATIONS_def DEFAULT_SHARDS_def Let_def max_def min_def)
  have "shard_ok 2048 E past ?I (filter_new 2048 2 ?I)"
    using filter_ok_new [of 2048 E past 2 ?I] retain_new [of ?I 2048] by (auto simp: shard_ok_def filter_new_def)
  then show ?thesis by (simp add: index_ok_def idx shard_blocks_def shard_new_def)
qed

lemma locate_range:
  assumes "ai_shards idx \<noteq> []" "ai_blocks idx \<noteq> 0" "locate_hash idx h = (i, bucket)"
  shows "i < length (ai_shards idx) \<and> bucket < shard_blocks idx i"
proof -
  let ?n = "length (ai_shards idx)" and ?B = "ai_blocks idx"
  have n: "0 < ?n" "0 < ?B" using assms(1,2) by simp_all
  let ?g = "block_index h ?B"
  have g: "?g < ?B" using n(2) by (simp add: block_index_def)
  have i: "i = ?g mod ?n" "bucket = ?g div ?n" using assms(3) n(2) by (auto simp: locate_hash_def locate_bucket_def)
  have "?g div ?n < ?B div ?n + of_bool (?g mod ?n < ?B mod ?n)"
  proof (cases "?g div ?n < ?B div ?n")
    case False
    then have "?g div ?n = ?B div ?n" using div_le_mono [of ?g ?B ?n] g by simp
    then have "?g mod ?n < ?B mod ?n" using g div_mult_mod_eq [of ?g ?n] div_mult_mod_eq [of ?B ?n] by (metis nat_add_left_cancel_less)
    then show ?thesis using \<open>?g div ?n = ?B div ?n\<close> by simp
  qed simp
  then show ?thesis using i n by (simp add: shard_blocks_def)
qed

lemma locate_in_range:
  "index_ok E past interval idx \<Longrightarrow> locate_hash idx h = (i, bucket) \<Longrightarrow> i < length (ai_shards idx) \<and> bucket < shard_blocks idx i"
  using locate_range by (auto simp: index_ok_def)

lemma index_update_ok:
  assumes "index_ok E past interval idx" "i < length (ai_shards idx)"
    and "shard_ok (shard_blocks idx i) E past interval (sh_filter shard)"
  shows "index_ok E past interval (idx\<lparr>ai_shards := (ai_shards idx)[i := shard]\<rparr>)"
    "index_ok E past interval (idx\<lparr>ai_shards := (ai_shards idx)[i := shard], ai_populated := True\<rparr>)"
  using assms by (auto simp: index_ok_def shard_blocks_def nth_list_update)

lemma rotate_shard_ok:
  assumes "shard_ok n E past interval f" "rotate_if_needed now f = (f', e)" "now \<noteq> - 1"
  shows "shard_ok n E past interval f'"
  using assms rotate_if_needed_ok [OF _ assms(2)] rotate_retain [OF _ assms(2,3)] unfolding shard_ok_def by auto

lemma lookup_filter: "fst (filter_lookup_missing_bits fp key block now f) = fst (rotate_if_needed now f)"
  by (simp add: filter_lookup_missing_bits_def case_prod_unfold Let_def)

lemma partition_lookup_filter: "sh_filter (fst (partition_lookup fp bucket key now shard)) = fst (rotate_if_needed now (sh_filter shard))"
  using lookup_filter [of fp key bucket now "sh_filter shard"] by (simp add: partition_lookup_def case_prod_unfold Let_def)

lemma lookup_by_key_ok:
  assumes "index_ok E past interval idx" "now \<noteq> - 1"
  shows "index_ok E past interval (fst (lookup_by_key H stripe key now idx))"
proof (cases "ai_populated idx")
  case False
  let ?i = "stripe mod length (ai_shards idx)"
  have "?i < length (ai_shards idx)" using assms(1) by (simp add: index_ok_def)
  moreover have "shard_ok (shard_blocks idx ?i) E past interval (sh_filter (ai_shards idx ! ?i))"
    using assms(1) calculation by (simp add: index_ok_def)
  ultimately show ?thesis using False index_update_ok(1) [OF assms(1)] by (simp add: lookup_by_key_def Let_def)
next
  case True
  obtain i bucket where l: "locate_hash idx (fp_hash (from_key H key)) = (i, bucket)" by fastforce
  note r = locate_in_range [OF assms(1) l]
  obtain f e where f: "rotate_if_needed now (sh_filter (ai_shards idx ! i)) = (f, e)" by fastforce
  have "shard_ok (shard_blocks idx i) E past interval f"
    using rotate_shard_ok [OF _ f assms(2)] assms(1) r by (simp add: index_ok_def)
  then show ?thesis using True l index_update_ok(1) [OF assms(1) conjunct1 [OF r]]
    by (simp add: lookup_by_key_def Let_def case_prod_unfold partition_lookup_filter f)
qed

lemma insert_ok:
  assumes "index_ok E past interval idx" "past \<le> now" "now \<noteq> 0" "now \<noteq> - 1"
    and "\<And>m s. bit bits m \<Longrightarrow> s \<le> now \<Longrightarrow> E s key m"
  shows "index_ok E now interval (index_insert_missing_bits H key bits now idx)"
proof -
  have ok: "index_ok E now interval idx" by (rule index_ok_mono [OF assms(1) _ assms(2)]) simp
  obtain i bucket where l: "locate_hash idx (fp_hash (from_key H key)) = (i, bucket)" by fastforce
  note r = locate_in_range [OF assms(1) l]
  let ?f = "sh_filter (ai_shards idx ! i)"
  have "fp_hash (from_key H key) \<noteq> 0" by (simp add: from_key_def hash_key_def normalize_hash_def)
  then have "shard_ok (shard_blocks idx i) E now interval (fst (filter_insert_missing_bits (from_key H key) key bits bucket now ?f))"
    using assms r filter_insert_ok [of "shard_blocks idx i" E past ?f now bucket "from_key H key" bits key]
      filter_insert_retain [OF _ assms(3,4)]
    by (simp add: shard_ok_def index_ok_def filter_insert_interval(2))
  then show ?thesis using ok l index_update_ok(2) [OF ok conjunct1 [OF r]]
    by (simp add: index_insert_missing_bits_def Let_def partition_record_missing_def case_prod_unfold)
qed

lemma lookup_by_key_sound:
  assumes "index_ok E past interval idx" "now \<noteq> - 1"
    and "lookup_by_key H stripe key now idx = (idx', Some e)" "bit (ca_missing e) m"
  shows "\<exists>s. s \<noteq> 0 \<and> E s key m \<and> (interval \<noteq> 0 \<and> interval \<noteq> - 1 \<longrightarrow> unat now < unat s + 3 * unat interval)"
proof -
  have pop: "ai_populated idx" using assms(3) by (auto simp: lookup_by_key_def Let_def split: if_splits)
  obtain i bucket where l: "locate_hash idx (fp_hash (from_key H key)) = (i, bucket)" by fastforce
  note r = locate_in_range [OF assms(1) l]
  let ?f = "sh_filter (ai_shards idx ! i)"
  obtain f bits x where f: "filter_lookup_missing_bits (from_key H key) key bucket now ?f = (f, bits, x)" by (metis prod_cases3)
  have "snd (partition_lookup (from_key H key) bucket key now (ai_shards idx ! i)) = Some e"
    using assms(3) pop l by (auto simp: lookup_by_key_def Let_def split: prod.splits)
  then have e: "ca_missing e = bits" using f by (auto simp: partition_lookup_def Let_def negative_only_def split: if_splits)
  have ok: "shard_ok (shard_blocks idx i) E past interval ?f" using assms(1) r by (simp add: index_ok_def)
  have "filter_ok (shard_blocks idx i) E past ?f" using ok by (simp add: shard_ok_def)
  from filter_lookup_sound [OF this f conjunct2 [OF r] assms(4) [unfolded e]]
  obtain g where g: "g \<in> set (fs_generations f)" "gn_started_at g \<noteq> 0" "E (gn_started_at g) key m" by blast
  obtain y where rot: "rotate_if_needed now ?f = (f, y)" using lookup_filter [of _ key bucket now ?f] f by (metis fst_conv prod.collapse)
  have "retain f \<and> not_due now f" if "interval \<noteq> 0 \<and> interval \<noteq> - 1"
    using ok that rotate_retain [OF _ rot assms(2)] by (simp add: shard_ok_def)
  moreover have "fs_interval f = interval" using rotate_shard_ok [OF ok rot assms(2)] by (simp add: shard_ok_def)
  ultimately show ?thesis using g retain_bound by blast
qed

section \<open>Sequences of operations\<close>

datatype index_op =
    RecordMissing MessageId AvailabilitySlot
  | LookUp nat bytes
  | CountEntries

fun index_step :: "(u64 \<Rightarrow> bytes \<Rightarrow> u64) \<Rightarrow> AvailabilityIndex \<Rightarrow> u64 \<times> index_op \<Rightarrow> AvailabilityIndex" where
  "index_step H idx (now, RecordMissing m slot) =
     (case index_record_availability_missing H m slot now idx of None \<Rightarrow> idx | Some idx' \<Rightarrow> idx')"
| "index_step H idx (now, LookUp stripe message_id) = fst (index_get_request_message_id H stripe message_id now idx)"
| "index_step H idx (now, CountEntries) = fst (entry_count now idx)"

text \<open>The evidence of a history: the provider was recorded as missing the article at time \<open>s\<close> or later.\<close>

definition observed :: "(u64 \<times> index_op) list \<Rightarrow> u64 \<Rightarrow> bytes \<Rightarrow> nat \<Rightarrow> bool" where
  "observed ops s key n \<longleftrightarrow>
     (\<exists>t m slot. (t, RecordMissing m slot) \<in> set ops \<and> without_brackets m = Some key \<and> slot_index slot = n \<and> s \<le> t)"

lemma count_shards_nth:
  "length (fst (count_shards now shards)) = length shards \<and>
   (\<forall>i < length shards. sh_filter (fst (count_shards now shards) ! i) = fst (rotate_if_needed now (sh_filter (shards ! i))))"
proof (induction shards)
  case (Cons shard shards)
  then show ?case by (auto simp: Let_def case_prod_unfold nth_Cons split: nat.split)
qed simp

lemma entry_count_ok:
  assumes "index_ok E past interval idx" "now \<noteq> - 1"
  shows "index_ok E past interval (fst (entry_count now idx))"
proof -
  let ?s = "fst (count_shards now (ai_shards idx))"
  note n = count_shards_nth [of now "ai_shards idx"]
  have "shard_ok (shard_blocks idx i) E past interval (sh_filter (?s ! i))" if "i < length (ai_shards idx)" for i
    using rotate_shard_ok [OF _ prod.collapse [symmetric] assms(2)] assms(1) that n by (simp add: index_ok_def)
  then show ?thesis using assms(1) n by (auto simp: entry_count_def case_prod_unfold Let_def index_ok_def shard_blocks_def)
qed

lemma index_step_ok:
  assumes "index_ok E past interval idx" "past \<le> now" "now \<noteq> 0" "now \<noteq> - 1"
    and "\<And>s k m. E s k m \<Longrightarrow> E' s k m" "\<And>s k m. observed [(now, op)] s k m \<Longrightarrow> E' s k m"
  shows "index_ok E' now interval (index_step H idx (now, op))"
proof -
  have ok: "index_ok E' past interval idx" by (rule index_ok_mono [OF assms(1)]) (use assms(5) in auto)
  have up: "index_ok E' now interval i" if "index_ok E' past interval i" for i
    using index_ok_mono [OF that _ assms(2)] by blast
  show ?thesis
  proof (cases op)
    case (RecordMissing m slot)
    have "index_ok E' now interval (index_insert_missing_bits H key (slot_bit slot) now idx)"
      if "without_brackets m = Some key" for key
      by (rule insert_ok [OF ok assms(2-4)], rule assms(6)) (use that RecordMissing in \<open>auto simp: observed_def bit_slot_bit\<close>)
    then show ?thesis using up [OF ok] RecordMissing
      by (auto simp: index_record_availability_missing_def split: option.split)
  next
    case (LookUp stripe message_id)
    then show ?thesis using up ok lookup_by_key_ok [OF ok assms(4)]
      by (auto simp: index_get_request_message_id_def split: option.split)
  next
    case CountEntries
    then show ?thesis using up entry_count_ok [OF ok assms(4)] by simp
  qed
qed

text \<open>An index with the evidence \<open>E\<close> that runs operations has their evidence as well.\<close>

lemma index_run_from:
  assumes "index_ok E past interval idx" "sorted (past # map fst ops)" "\<forall>x \<in> set ops. fst x \<noteq> 0 \<and> fst x \<noteq> - 1"
  shows "index_ok (\<lambda>s k m. E s k m \<or> observed ops s k m) (if ops = [] then past else fst (last ops)) interval
    (foldl (index_step H) idx ops)"
  using assms(2,3)
proof (induction ops rule: rev_induct)
  case Nil
  then show ?case using assms(1) by (simp add: observed_def)
next
  case (snoc x ops)
  obtain now op where x: "x = (now, op)" by fastforce
  let ?past = "if ops = [] then past else fst (last ops)"
  have "?past \<le> now" using snoc.prems(1) x by (auto simp: sorted_append)
  moreover have "index_ok (\<lambda>s k m. E s k m \<or> observed ops s k m) ?past interval (foldl (index_step H) idx ops)"
    using snoc by (simp add: sorted_append)
  ultimately have "index_ok (\<lambda>s k m. E s k m \<or> observed (ops @ [x]) s k m) now interval
      (index_step H (foldl (index_step H) idx ops) (now, op))"
    by (intro index_step_ok [of "\<lambda>s k m. E s k m \<or> observed ops s k m" ?past])
      (use snoc.prems(2) x in \<open>auto simp: observed_def\<close>)
  then show ?case using x by simp
qed

lemma index_run_ok:
  assumes "sorted (map fst ops)" "\<forall>x \<in> set ops. fst x \<noteq> 0 \<and> fst x \<noteq> - 1"
  shows "index_ok (observed ops) (if ops = [] then 0 else fst (last ops)) (rotation_interval ttl 2)
    (foldl (index_step H) (with_layout ttl layout) ops)"
  using index_run_from [OF with_layout_ok [of "\<lambda>_ _ _. False" 0], of ops] assms by simp

lemma strip_brackets_without:
  "without_brackets m = Some key \<longleftrightarrow> strip_brackets (as_str m) = Some key"
proof -
  have "suffix [GT] r \<longleftrightarrow> r \<noteq> [] \<and> last r = GT" for r :: bytes
    by (metis append_butlast_last_id append_is_Nil_conv last_snoc not_Cons_self2 suffix_def)
  then show ?thesis
    by (cases "as_str m") (auto simp: without_brackets_def strip_brackets_def Let_def butlast_conv_take)
qed

lemma strip_brackets_inj: "strip_brackets a = Some key \<Longrightarrow> strip_brackets b = Some key \<Longrightarrow> a = b"
proof -
  have "a = LT # key @ [GT]" if "strip_brackets a = Some key" for a
  proof (cases a)
    case (Cons c rest)
    then have "c = LT" "rest \<noteq> []" "last rest = GT" "butlast rest = key"
      using that by (auto simp: strip_brackets_def split: if_splits)
    then show ?thesis using Cons append_butlast_last_id [of rest] by simp
  qed (use that in \<open>simp add: strip_brackets_def\<close>)
  then show "strip_brackets a = Some key \<Longrightarrow> strip_brackets b = Some key \<Longrightarrow> a = b" by metis
qed

lemma interval_finite:
  assumes "ttl \<noteq> 0" "ttl \<noteq> - 1"
  shows "rotation_interval ttl 2 \<noteq> 0" "rotation_interval ttl 2 \<noteq> - 1"
proof -
  let ?I = "rotation_interval ttl 2"
  have I: "unat ?I = max (unat ttl div 2) 1" using assms by (simp add: rotation_interval_def unat_div word_le_nat_alt max_def)
  have "unat ttl < 2 ^ 64" using unsigned_less [of ttl] by simp
  then have "unat ?I < 2 ^ 64 - 1" unfolding I by simp
  then have "unat ?I \<noteq> unat (- 1 :: u64)" using unat_minus_one_max [where 'a = 64] by simp
  moreover have "unat ?I \<noteq> unat (0 :: u64)" unfolding I by simp
  ultimately show "?I \<noteq> 0" "?I \<noteq> - 1" by metis+
qed

text \<open>
  C0. The availability index reports a provider as missing an article only on an observation of that
  article: over every sequence of operations in the order of their times, whatever the hash function and
  however keys collide, each missing mark that a lookup returns was recorded for the same message ID and
  the same provider, and less than three rotation intervals ago, an interval being half of the configured
  time to live.
\<close>

theorem index_sound:
  assumes "sorted (map fst ops @ [now])" "\<forall>x \<in> set ops. fst x \<noteq> 0 \<and> fst x \<noteq> - 1" "now \<noteq> - 1"
    and "index_get_request_message_id H stripe message_id now (foldl (index_step H) (with_layout ttl layout) ops) = (idx, Some e)"
    and "bit (ca_missing e) n"
  shows "\<exists>t m slot. (t, RecordMissing m slot) \<in> set ops \<and> as_str m = message_id \<and> slot_index slot = n \<and>
    (ttl \<noteq> 0 \<and> ttl \<noteq> - 1 \<longrightarrow> unat now < unat t + 3 * unat (rotation_interval ttl 2))"
proof -
  let ?I = "rotation_interval ttl 2" and ?past = "if ops = [] then 0 else fst (last ops)"
  have ok: "index_ok (observed ops) ?past ?I (foldl (index_step H) (with_layout ttl layout) ops)"
    using index_run_ok [OF _ assms(2)] assms(1) by (simp add: sorted_append)
  obtain key where key: "strip_brackets message_id = Some key"
      "lookup_by_key H stripe key now (foldl (index_step H) (with_layout ttl layout) ops) = (idx, Some e)"
    using assms(4) by (auto simp: index_get_request_message_id_def split: option.splits)
  obtain s where s: "observed ops s key n" "?I \<noteq> 0 \<and> ?I \<noteq> - 1 \<longrightarrow> unat now < unat s + 3 * unat ?I"
    using lookup_by_key_sound [OF ok assms(3) key(2) assms(5)] by blast
  obtain t m slot where t: "(t, RecordMissing m slot) \<in> set ops" "without_brackets m = Some key" "slot_index slot = n" "s \<le> t"
    using s(1) by (auto simp: observed_def)
  have "as_str m = message_id" using strip_brackets_inj t(2) key(1) by (simp add: strip_brackets_without)
  moreover have "?I \<noteq> 0 \<and> ?I \<noteq> - 1" if "ttl \<noteq> 0 \<and> ttl \<noteq> - 1" using interval_finite that by blast
  ultimately show ?thesis using t s(2) by (fastforce simp: word_le_nat_alt)
qed


text \<open>A sample: a provider is recorded, looked up in time, and unknown for another article.\<close>

definition sample_index_ops :: "(u64 \<times> index_op) list" where
  "sample_index_ops = [(1, RecordMissing (MessageId ''<a@b>'') (AvailabilitySlot 3)), (2, LookUp 0 ''<c@d>'')]"

section \<open>What was recorded is found\<close>

lemma ensure_started_not_due:
  assumes "retain f" "not_due now f" "now \<noteq> - 1"
  shows "now < fs_next_rotation_at (ensure_current_generation_started now f)"
proof (cases "gn_started_at (fs_generations f ! fs_current f) = 0")
  case True
  have I: "fs_interval f \<noteq> 0" "fs_interval f \<noteq> - 1" using assms(1) by (simp_all add: retain_def)
  have "unat now < min (unat now + unat (fs_interval f)) (2 ^ 64 - 1)"
    using unat_below_max [OF assms(3)] I(1) by (simp add: unat_gt_0)
  then show ?thesis using True I
    by (simp add: ensure_current_generation_started_def Let_def rotation_due_def word_less_nat_alt unat_saturating_add)
next
  case False
  then show ?thesis using assms(2)
    by (simp add: ensure_current_generation_started_def Let_def not_due_def current_start_def unat_eq_0)
qed

lemma filter_insert_found:
  assumes "filter_ok n E past f" "past \<le> now" "retain f" "now \<noteq> 0" "now \<noteq> - 1" "block < n" "bit bits m"
    and "fst (filter_insert_missing_bits fp key bits block now f) = f'"
  shows "bit (fst (snd (filter_lookup_missing_bits fp key block now f'))) m"
proof -
  obtain f1 x where r: "rotate_if_needed now f = (f1, x)" by fastforce
  have f1: "retain f1" "not_due now f1" using rotate_retain [OF assms(3) r assms(5)] by simp_all
  have ok1: "filter_ok n E now f1" using rotate_if_needed_ok [OF assms(1) r] filter_ok_mono [OF _ _ assms(2)] by blast
  let ?f = "ensure_current_generation_started now f1"
  let ?g = "fs_generations ?f ! fs_current ?f"
  have ok: "filter_ok n E now ?f" using ensure_started_ok [OF ok1 assms(4)] by simp
  then have c: "fs_current ?f < length (fs_generations ?f)" and g: "gen_ok n E ?g" by (simp_all add: filter_ok_def)
  obtain g outcome where i: "generation_insert_missing_bits fp key bits block ?g = (g, outcome)" by fastforce
  let ?h = "if outcome = Inserted then g\<lparr>gn_occupied := gn_occupied g + 1\<rparr> else g"
  have "bits \<noteq> 0" using assms(7) by auto
  then have f': "f' = ?f\<lparr>fs_generations := (fs_generations ?f)[fs_current ?f := ?h]\<rparr>"
    using assms(8) r i f1(1) by (auto simp: filter_insert_missing_bits_def Let_def retain_def)
  have found: "bit (generation_lookup_missing_bits fp key block ?h) m"
    using generation_insert_found [OF g assms(6,7), of fp key] i
    by (simp add: generation_lookup_missing_bits_def generation_key_def)
  have ret: "retain ?f" by (rule ensure_started_retain [OF f1 assms(4)])
  have started: "current_start ?f \<noteq> 0" using ensure_started_ok [OF ok1 assms(4)] by (simp add: current_start_def unat_eq_0)
  have live: "fs_live f' \<noteq> 0" "fs_blocks f' \<noteq> 0" "length (fs_generations f') = 2" "fs_interval f' \<noteq> 0" "fs_interval f' \<noteq> - 1"
    using ret started f' by (simp_all add: retain_def)
  have "now < fs_next_rotation_at f'" using ensure_started_not_due [OF f1 assms(5)] f' by simp
  then have rot: "rotate_if_needed now f' = (f', 0)" using live by (auto simp: rotate_if_needed_def Let_def)
  have "fs_current f' \<in> set (active_generation_indices f')"
    using live(1) c f' by (auto simp: active_generation_indices_def intro!: image_eqI [of _ _ 0])
  moreover have "fs_generations f' ! fs_current f' = ?h" using c f' by simp
  ultimately have "\<exists>g \<in> set (map ((!) (fs_generations f')) (active_generation_indices f')).
      bit (generation_lookup_missing_bits fp key block g) m" using found by force
  then have "bit (lookup_generations fp key block (map ((!) (fs_generations f')) (active_generation_indices f')) 0) m"
    by (intro lookup_generations_found) simp
  then show ?thesis using rot live(2,3) by (auto simp: filter_lookup_missing_bits_def)
qed

lemma locate_hash_insert:
  "locate_hash (idx\<lparr>ai_shards := (ai_shards idx)[i := s], ai_populated := p\<rparr>) h = locate_hash idx h"
  by (simp add: locate_hash_def locate_bucket_def)

lemma insert_then_lookup:
  assumes "index_ok E past interval idx" "past \<le> now" "now \<noteq> 0" "now \<noteq> - 1" "interval \<noteq> 0" "interval \<noteq> - 1"
    and "ai_ttl idx \<noteq> 0" "key \<noteq> []" "bit bits m"
  shows "\<exists>idx' e. lookup_by_key H stripe key now (index_insert_missing_bits H key bits now idx) = (idx', Some e) \<and>
    bit (ca_missing e) m"
proof -
  let ?fp = "from_key H key"
  obtain i bucket where l: "locate_hash idx (fp_hash ?fp) = (i, bucket)" by fastforce
  note r = locate_in_range [OF assms(1) l]
  let ?shard = "ai_shards idx ! i"
  have ok: "filter_ok (shard_blocks idx i) E past (sh_filter ?shard)" "retain (sh_filter ?shard)"
    using assms(1,5,6) r by (simp_all add: index_ok_def shard_ok_def)
  obtain f x where f: "filter_insert_missing_bits ?fp key bits bucket now (sh_filter ?shard) = (f, x)" by fastforce
  obtain f2 found y where f2: "filter_lookup_missing_bits ?fp key bucket now f = (f2, found, y)" by (metis prod_cases3)
  have bit: "bit found m"
    using filter_insert_found [OF ok(1) assms(2) ok(2) assms(3,4) conjunct2 [OF r] assms(9), of ?fp key f] f f2 by simp
  have "bits \<noteq> 0" "found \<noteq> 0" using assms(9) bit by auto
  then have ins: "index_insert_missing_bits H key bits now idx =
      idx\<lparr>ai_shards := (ai_shards idx)[i := ?shard\<lparr>sh_filter := f, sh_evictions := sh_evictions ?shard + word_of_nat x\<rparr>],
          ai_populated := True\<rparr>"
    using assms(7,8) l f by (simp add: index_insert_missing_bits_def partition_record_missing_def Let_def)
  have "snd (partition_lookup ?fp bucket key now (?shard\<lparr>sh_filter := f, sh_evictions := sh_evictions ?shard + word_of_nat x\<rparr>))
      = Some (negative_only now found)"
    using f2 \<open>found \<noteq> 0\<close> by (simp add: partition_lookup_def)
  then have "snd (lookup_by_key H stripe key now (index_insert_missing_bits H key bits now idx)) = Some (negative_only now found)"
    unfolding ins using l r by (simp add: lookup_by_key_def locate_hash_insert Let_def case_prod_unfold)
  then show ?thesis using bit by (intro exI conjI) (auto simp: prod_eq_iff negative_only_def)
qed

lemma index_step_ttl: "ai_ttl (index_step H idx x) = ai_ttl idx"
proof -
  obtain now op where x: "x = (now, op)" by fastforce
  show ?thesis unfolding x
    by (cases op) (auto simp: index_record_availability_missing_def index_insert_missing_bits_def Let_def case_prod_unfold
        index_get_request_message_id_def lookup_by_key_def entry_count_def split: option.split)
qed

lemma with_layout_ttl: "ai_ttl (with_layout ttl layout) = ttl"
  by (simp add: with_layout_def with_geometry_def Let_def)

lemma index_run_ttl: "ai_ttl (foldl (index_step H) idx ops) = ai_ttl idx"
  by (induction ops arbitrary: idx) (simp_all add: index_step_ttl)

text \<open>
  C0. What was recorded is found: with a finite time to live, after any sequence of operations in the
  order of their times, a 430 that is recorded for a message ID is returned by the next lookup of it,
  whatever other entries share its block.
\<close>

theorem index_record_lookup:
  assumes "sorted (map fst ops @ [now])" "\<forall>x \<in> set ops. fst x \<noteq> 0 \<and> fst x \<noteq> - 1" "now \<noteq> 0" "now \<noteq> - 1"
    and "ttl \<noteq> 0" "ttl \<noteq> - 1" "message_id_ok m" "slot_index slot < 64"
  shows "\<exists>idx idx' e. index_record_availability_missing H m slot now (foldl (index_step H) (with_layout ttl layout) ops) = Some idx \<and>
    index_get_request_message_id H stripe (as_str m) now idx = (idx', Some e) \<and> bit (ca_missing e) (slot_index slot)"
proof -
  let ?idx = "foldl (index_step H) (with_layout ttl layout) ops"
  let ?past = "if ops = [] then 0 else fst (last ops)"
  have ok: "index_ok (observed ops) ?past (rotation_interval ttl 2) ?idx"
    using index_run_ok [OF _ assms(2)] assms(1) by (simp add: sorted_append)
  have past: "?past \<le> now" using assms(1) by (auto simp: sorted_append)
  obtain key where key: "without_brackets m = Some key" "key \<noteq> []"
  proof -
    obtain inner where "as_str m = [LT] @ inner @ [GT]" "1 \<le> length inner" using assms(7) by (auto simp: message_id_ok_def)
    then show ?thesis by (intro that [of inner]) (auto simp: without_brackets_def Let_def suffix_def)
  qed
  have "ai_ttl ?idx \<noteq> 0" using assms(5) by (simp add: index_run_ttl with_layout_ttl)
  moreover have "bit (slot_bit slot) (slot_index slot)" using assms(8) by (simp add: bit_slot_bit)
  ultimately show ?thesis
    using insert_then_lookup [OF ok past assms(3,4) interval_finite [OF assms(5,6)] _ key(2)] key
    by (simp add: index_record_availability_missing_def index_get_request_message_id_def strip_brackets_without)
qed

definition sample_layout :: AvailabilityLayout where
  "sample_layout = \<lparr>al_backend_slots = [], al_identities = [], al_mask = 0, al_epoch = Derived\<rparr>"

lemma sample_index_ops_ok: "sorted (map fst sample_index_ops @ [3])" "\<forall>x \<in> set sample_index_ops. fst x \<noteq> 0 \<and> fst x \<noteq> - 1"
  by (simp_all add: sample_index_ops_def)

theorem index_record_lookup_witness:
  "\<exists>idx idx' e. index_record_availability_missing (\<lambda>_ _. 7) (MessageId ''<e@f>'') (AvailabilitySlot 5) 3
      (foldl (index_step (\<lambda>_ _. 7)) (with_layout 20 sample_layout) sample_index_ops) = Some idx \<and>
    index_get_request_message_id (\<lambda>_ _. 7) 0 ''<e@f>'' 3 idx = (idx', Some e) \<and> bit (ca_missing e) 5"
proof -
  have "message_id_ok (MessageId ''<e@f>'')"
    unfolding message_id_ok_def by (intro exI [of _ "''e@f''"]) (simp add: msgid_char_def)
  then show ?thesis
    using index_record_lookup [OF sample_index_ops_ok, of 20 "MessageId ''<e@f>''" "AvailabilitySlot 5" "\<lambda>_ _. 7" sample_layout 0] by simp
qed

lemma sample_lookup:
  "\<exists>idx e. index_get_request_message_id (\<lambda>_ _. 7) 0 ''<a@b>'' 1
      (foldl (index_step (\<lambda>_ _. 7)) (with_layout 20 sample_layout)
         [(1, RecordMissing (MessageId ''<a@b>'') (AvailabilitySlot 3))]) = (idx, Some e) \<and> bit (ca_missing e) 3"
proof -
  have k: "without_brackets (MessageId ''<a@b>'') = Some ''a@b''" "strip_brackets ''<a@b>'' = Some ''a@b''"
    by (simp_all add: without_brackets_def strip_brackets_def suffix_def)
  have "rotation_interval 20 2 \<noteq> 0" "rotation_interval 20 2 \<noteq> - 1" using interval_finite [of 20] by simp_all
  moreover have "ai_ttl (with_layout 20 sample_layout) \<noteq> 0" by (simp only: with_layout_ttl) simp
  moreover have "bit (slot_bit (AvailabilitySlot 3)) 3" by (simp add: bit_slot_bit)
  ultimately obtain idx e where l: "lookup_by_key (\<lambda>_ _. 7) 0 ''a@b'' 1 (index_insert_missing_bits (\<lambda>_ _. 7) ''a@b''
      (slot_bit (AvailabilitySlot 3)) 1 (with_layout 20 sample_layout)) = (idx, Some e)" "bit (ca_missing e) 3"
    using insert_then_lookup [OF with_layout_ok [of "\<lambda>_ _ _. True" 0 20 sample_layout], of 1 "''a@b''"
        "slot_bit (AvailabilitySlot 3)" 3 "\<lambda>_ _. 7" 0] by auto
  have "foldl (index_step (\<lambda>_ _. 7)) (with_layout 20 sample_layout) [(1, RecordMissing (MessageId ''<a@b>'') (AvailabilitySlot 3))] =
      index_insert_missing_bits (\<lambda>_ _. 7) ''a@b'' (slot_bit (AvailabilitySlot 3)) 1 (with_layout 20 sample_layout)"
    by (simp add: index_record_availability_missing_def k)
  then show ?thesis using l by (auto simp: index_get_request_message_id_def k)
qed

theorem index_sound_witness:
  "\<exists>idx e. index_get_request_message_id (\<lambda>_ _. 7) 0 ''<a@b>'' 1
      (foldl (index_step (\<lambda>_ _. 7)) (with_layout 20 sample_layout)
         [(1, RecordMissing (MessageId ''<a@b>'') (AvailabilitySlot 3))]) = (idx, Some e) \<and> bit (ca_missing e) 3 \<and>
    (\<exists>t m slot. (t, RecordMissing m slot) \<in> set [(1 :: u64, RecordMissing (MessageId ''<a@b>'') (AvailabilitySlot 3))] \<and>
       as_str m = ''<a@b>'' \<and> slot_index slot = 3 \<and> unat (1 :: u64) < unat t + 3 * unat (rotation_interval 20 2))"
proof -
  let ?ops = "[(1 :: u64, RecordMissing (MessageId ''<a@b>'') (AvailabilitySlot 3))]"
  obtain idx e where l: "index_get_request_message_id (\<lambda>_ _. 7) 0 ''<a@b>'' 1
      (foldl (index_step (\<lambda>_ _. 7)) (with_layout 20 sample_layout) ?ops) = (idx, Some e)" "bit (ca_missing e) 3"
    using sample_lookup by blast
  have "sorted (map fst ?ops @ [1])" "\<forall>x \<in> set ?ops. fst x \<noteq> 0 \<and> fst x \<noteq> - 1" "(1::u64) \<noteq> - 1" by simp_all
  from index_sound [OF this l] have "\<exists>t m slot. (t, RecordMissing m slot) \<in> set ?ops \<and> as_str m = ''<a@b>'' \<and>
      slot_index slot = 3 \<and> unat (1 :: u64) < unat t + 3 * unat (rotation_interval 20 2)" by simp
  then show ?thesis by (intro exI [of _ idx] exI [of _ e] conjI l)
qed

lemma sample_fp: "from_key (\<lambda>_ _. 7) k = \<lparr>fp_hash = 7, fp_tag = 7\<rparr>"
  by (simp add: from_key_def hash_key_def normalize_hash_def)

lemma sample_gen: "generation_new 1 = \<lparr>gn_started_at = 0, gn_occupied = 0,
    gn_blocks = [\<lparr>blk_hashes = [0, 0], blk_tags = [0, 0], blk_missing = [0, 0]\<rparr>], gn_keys = [None, None]\<rparr>"
  by (simp add: generation_new_def block_default_def BLOCK_SLOTS_def numeral_2_eq_2)

lemma sample_due: "rotation_due 10 1 = 11" "rotation_due 10 20 = 30"
  by (simp_all add: rotation_due_def saturating_add_def)

lemma sample_slots: "[0..<BLOCK_SLOTS] = [0, 1]"
  by (simp add: BLOCK_SLOTS_def numeral_2_eq_2)

lemma sample_new: "filter_new 1 2 10 = \<lparr>fs_generations = [generation_new 1, generation_new 1], fs_current = 0, fs_blocks = 1,
    fs_live = 0, fs_interval = 10, fs_next_rotation_at = 0\<rparr>"
  by (simp add: filter_new_def numeral_2_eq_2)

abbreviation empty_gen :: "u64 \<Rightarrow> Generation" where
  "empty_gen t \<equiv> \<lparr>gn_started_at = t, gn_occupied = 0,
    gn_blocks = [\<lparr>blk_hashes = [0, 0], blk_tags = [0, 0], blk_missing = [0, 0]\<rparr>], gn_keys = [None, None]\<rparr>"

abbreviation one_gen :: "u64 \<Rightarrow> bytes \<Rightarrow> usize \<Rightarrow> nat \<Rightarrow> Generation" where
  "one_gen t k bits n \<equiv> \<lparr>gn_started_at = t, gn_occupied = n,
    gn_blocks = [\<lparr>blk_hashes = [7, 0], blk_tags = [7, 0], blk_missing = [bits, 0]\<rparr>], gn_keys = [Some k, None]\<rparr>"

lemma sample_insert: "generation_insert_missing_bits \<lparr>fp_hash = 7, fp_tag = 7\<rparr> k bits 0 (empty_gen t) = (one_gen t k bits 0, Inserted)"
  by (simp add: generation_insert_missing_bits_def matching_slots_def sample_slots)

lemma sample_ensure: "fs_interval f = 10 \<Longrightarrow> fs_generations f ! fs_current f = empty_gen 0 \<Longrightarrow>
   ensure_current_generation_started now f = f\<lparr>fs_generations := (fs_generations f)[fs_current f := empty_gen now],
             fs_live := max (fs_live f) 1, fs_next_rotation_at := rotation_due 10 now\<rparr>"
  by (simp add: ensure_current_generation_started_def)

lemma sample_insert_filter:
  assumes "rotate_if_needed now f = (f1, e)" "fs_blocks f1 = 1" "fs_interval f1 = 10" "bits \<noteq> 0"
    "fs_generations f1 ! fs_current f1 = empty_gen 0" "fs_current f1 < length (fs_generations f1)"
  shows "filter_insert_missing_bits \<lparr>fp_hash = 7, fp_tag = 7\<rparr> k bits 0 now f =
    (f1\<lparr>fs_generations := (fs_generations f1)[fs_current f1 := one_gen now k bits 1], fs_live := max (fs_live f1) 1,
        fs_next_rotation_at := rotation_due 10 now\<rparr>, e)"
  using assms sample_ensure [OF assms(3,5), of now]
  by (simp add: filter_insert_missing_bits_def sample_insert Let_def)

abbreviation sample_filter :: "Generation \<Rightarrow> Generation \<Rightarrow> nat \<Rightarrow> nat \<Rightarrow> u64 \<Rightarrow> FilterState" where
  "sample_filter a b c live next \<equiv> \<lparr>fs_generations = [a, b], fs_current = c, fs_blocks = 1, fs_live = live, fs_interval = 10,
     fs_next_rotation_at = next\<rparr>"

lemma sample_rotate0: "rotate_if_needed 1 (sample_filter a b 0 0 0) = (sample_filter a b 0 0 0, 0)"
  by (simp add: rotate_if_needed_def)

lemma sample_words: "saturating_sub 20 11 = (9 :: u64)" "(9 :: u64) div 10 = 0" "saturating_mul 1 10 = (10 :: u64)"
  "saturating_add 11 10 = (21 :: u64)" "(1 :: u64) < 11 \<longleftrightarrow> True" "(20 :: u64) < 11 \<longleftrightarrow> False" "(29 :: u64) < 30 \<longleftrightarrow> True"
  by (simp_all add: saturating_sub_def saturating_mul_def saturating_add_def word_less_nat_alt)

lemma sample_clear: "generation_clear (empty_gen 0) = (empty_gen 0, 0)"
  by (simp add: generation_clear_def block_clear_def block_default_def BLOCK_SLOTS_def numeral_2_eq_2)

lemma sample_loop_once: "rotate_loop 1 0 [a, empty_gen 0] 0 = (1, [a, empty_gen 0], 0)"
  by (simp add: sample_clear)

lemma sample_rotate1: "rotate_if_needed 20 (sample_filter a (empty_gen 0) 0 1 11) = (sample_filter a (empty_gen 0) 1 2 21, 0)"
proof -
  have "min (1 + unat (saturating_sub 20 (11 :: u64) div 10)) (length [a, empty_gen 0]) = 1"
    unfolding sample_words(1,2) by simp
  then show ?thesis using sample_loop_once [of a] by (simp add: rotate_if_needed_def Let_def sample_words)
qed

lemma sample_rotate2: "rotate_if_needed 29 (sample_filter a b 1 2 30) = (sample_filter a b 1 2 30, 0)"
  by (simp add: rotate_if_needed_def Let_def word_less_nat_alt)

abbreviation sample_small :: "FilterState \<Rightarrow> u64 \<Rightarrow> bool \<Rightarrow> AvailabilityIndex" where
  "sample_small f evictions populated \<equiv>
     \<lparr>ai_shards = [\<lparr>sh_filter = f, sh_hits = 0, sh_misses = 0, sh_evictions = evictions, sh_initial_misses = 0\<rparr>],
      ai_populated = populated, ai_blocks = Suc 0, ai_layout = sample_layout, ai_capacity_bytes = 80, ai_ttl = 20\<rparr>"

lemma sample_geometry: "with_geometry 80 20 2 32 sample_layout = sample_small (sample_filter (empty_gen 0) (empty_gen 0) 0 0 0) 0 False"
proof -
  have "\<not> (10 :: u64) \<le> 1" by (simp add: word_le_nat_alt)
  then show ?thesis
    using sample_new sample_gen
    by (simp add: with_geometry_def SIZE_OF_BLOCK_def Let_def rotation_interval_def max_def min_def shard_new_def)
qed

lemma sample_locate: "locate_hash (sample_small f e p) h = (0, 0)"
  by (simp add: locate_hash_def locate_bucket_def block_index_def)

lemma sample_insert_index:
  assumes "filter_insert_missing_bits \<lparr>fp_hash = 7, fp_tag = 7\<rparr> k bits 0 now f = (f', 0)" "k \<noteq> []" "bits \<noteq> 0"
  shows "index_insert_missing_bits (\<lambda>_ _. 7) k bits now (sample_small f 0 p) = sample_small f' 0 True"
  using assms by (simp add: index_insert_missing_bits_def sample_fp sample_locate partition_record_missing_def)

lemma sample_found: "filter_lookup_missing_bits \<lparr>fp_hash = 7, fp_tag = 7\<rparr> ''a'' 0 29
    (sample_filter (one_gen 1 ''a'' 1 1) (one_gen 20 ''b'' 2 1) 1 2 30) =
    (sample_filter (one_gen 1 ''a'' 1 1) (one_gen 20 ''b'' 2 1) 1 2 30, 1, 0)"
proof -
  have "active_generation_indices (sample_filter a b 1 2 30) = [1, 0]" for a b
    by (simp add: active_generation_indices_def numeral_2_eq_2 mod_Suc)
  moreover have "generation_lookup_missing_bits \<lparr>fp_hash = 7, fp_tag = 7\<rparr> ''a'' 0 (one_gen 20 ''b'' 2 1) = 0"
    "generation_lookup_missing_bits \<lparr>fp_hash = 7, fp_tag = 7\<rparr> ''a'' 0 (one_gen 1 ''a'' 1 1) = 1"
    by (simp_all add: generation_lookup_missing_bits_def generation_key_def matching_slots_def sample_slots)
  ultimately show ?thesis
    using sample_rotate2 [of "one_gen 1 ''a'' 1 1" "one_gen 20 ''b'' 2 1"] by (simp add: filter_lookup_missing_bits_def ALL_BACKEND_BITS_def)
qed

text \<open>
  C0. Misses outlive the configured time to live: with a time to live of 20, a miss that was recorded at
  time 1 is still reported at time 29, because the insertion of another article at time 20 started the
  second generation late and moved the next rotation with it.
\<close>

theorem index_outlives_ttl:
  "map_option ca_missing (snd (lookup_by_key (\<lambda>_ _. 7) 0 ''a'' 29
     (index_insert_missing_bits (\<lambda>_ _. 7) ''b'' 2 20
       (index_insert_missing_bits (\<lambda>_ _. 7) ''a'' 1 1
         (with_geometry 80 20 2 32 sample_layout))))) = Some 1"
proof -
  have 1: "filter_insert_missing_bits \<lparr>fp_hash = 7, fp_tag = 7\<rparr> ''a'' 1 0 1 (sample_filter (empty_gen 0) (empty_gen 0) 0 0 0) =
      (sample_filter (one_gen 1 ''a'' 1 1) (empty_gen 0) 0 1 11, 0)"
    using sample_insert_filter [OF sample_rotate0 [of "empty_gen 0" "empty_gen 0"], of 1 "''a''"] by (simp add: sample_due)
  have 2: "filter_insert_missing_bits \<lparr>fp_hash = 7, fp_tag = 7\<rparr> ''b'' 2 0 20 (sample_filter (one_gen 1 ''a'' 1 1) (empty_gen 0) 0 1 11) =
      (sample_filter (one_gen 1 ''a'' 1 1) (one_gen 20 ''b'' 2 1) 1 2 30, 0)"
    using sample_insert_filter [OF sample_rotate1 [of "one_gen 1 ''a'' 1 1"], of 2 "''b''"] by (simp add: sample_due)
  show ?thesis unfolding sample_geometry
    using sample_insert_index [OF 1] sample_insert_index [OF 2] sample_found
    by (simp add: lookup_by_key_def sample_fp sample_locate partition_lookup_def negative_only_def Let_def)
qed

end
