(* ===== verification/Snapshot.thy ===== *)
theory Snapshot
  imports Index
begin

text \<open>
  The persisted form of the availability index (\<open>src/src/cache/availability_index.rs\<close>): the entries of a
  snapshot, the file that \<open>save_to_path\<close> writes and \<open>parse_snapshot\<close> reads, and the restoration of a
  snapshot into a running index whose providers may have other slots. A file is the list of its bytes;
  whether the operating system creates, writes and reads it is an argument.
\<close>

section \<open>Persisted entries\<close>

definition PERSISTENCE_MAGIC :: bytes where "PERSISTENCE_MAGIC = ''ANEGSIM7''"

definition LEGACY_PERSISTENCE_MAGICS :: "bytes list" where
  "LEGACY_PERSISTENCE_MAGICS =
     [''ANEGIDX1'', ''ANEGIDX2'', ''ANEGSIM1'', ''ANEGSIM2'', ''ANEGSIM3'', ''ANEGSIM4'', ''ANEGSIM5'', ''ANEGSIM6'']"

definition MAX_IDENTITY_FIELD_BYTES :: nat where "MAX_IDENTITY_FIELD_BYTES = 1024 * 1024"
definition MAX_MESSAGE_ID_BYTES :: nat where "MAX_MESSAGE_ID_BYTES = 250"

text \<open>The bits of an entry refer to the table of the snapshot or to the layout of the running index.\<close>

record PersistedEntry =
  pe_hash :: u64
  pe_tag :: u16
  pe_key :: bytes
  pe_missing :: usize
  pe_inserted_at :: u64

record StoredAvailabilitySnapshot =
  st_identities :: "AvailabilityIdentity list"
  st_entries :: "PersistedEntry list"

definition snapshot_default :: StoredAvailabilitySnapshot where
  "snapshot_default = \<lparr>st_identities = [], st_entries = []\<rparr>"

datatype SnapshotError =
    SnapshotTooShort | UnknownSnapshotFormat | TruncatedSnapshot | InvalidIdentityCount | SnapshotFieldTooLong
  | InvalidSnapshotUtf8 | EmptySnapshotField | InvalidIdentity RegistryError | DuplicateSnapshotIdentity
  | InvalidEntryCount | InvalidKeyLength | BitsExceedIdentities | TrailingSnapshotBytes | HostTooLong
  | SnapshotIo

section \<open>The snapshot of an index\<close>

text \<open>\<open>None\<close> is the panic of \<open>expect\<close> on a slot without a key.\<close>

definition generation_entries :: "Generation \<Rightarrow> PersistedEntry list option" where
  "generation_entries g =
     those (map (\<lambda>(block, slot). map_option (\<lambda>key.
         \<lparr>pe_hash = blk_hashes (gn_blocks g ! block) ! slot, pe_tag = blk_tags (gn_blocks g ! block) ! slot, pe_key = key,
          pe_missing = blk_missing (gn_blocks g ! block) ! slot, pe_inserted_at = gn_started_at g\<rparr>)
         (generation_key g block slot))
       (filter (\<lambda>(block, slot). \<not> (blk_hashes (gn_blocks g ! block) ! slot = 0 \<or> blk_missing (gn_blocks g ! block) ! slot = 0))
          (List.product [0..<length (gn_blocks g)] [0..<BLOCK_SLOTS])))"

definition filter_snapshot_entries :: "u64 \<Rightarrow> FilterState \<Rightarrow> FilterState \<times> PersistedEntry list option \<times> nat" where
  "filter_snapshot_entries now f =
     (let (f, evicted) = rotate_if_needed now f
      in (f, map_option concat (those (map (\<lambda>i. generation_entries (fs_generations f ! i)) (active_generation_indices f))),
          evicted))"

fun snapshot_shards :: "u64 \<Rightarrow> ShardState list \<Rightarrow> (ShardState list \<times> PersistedEntry list \<times> nat) option" where
  "snapshot_shards now [] = Some ([], [], 0)"
| "snapshot_shards now (shard # shards) =
     (let (f, part, evicted) = filter_snapshot_entries now (sh_filter shard);
          shard = shard\<lparr>sh_filter := f, sh_evictions := sh_evictions shard + word_of_nat evicted\<rparr>
      in case part of
           None \<Rightarrow> None
         | Some entries \<Rightarrow>
             map_option (\<lambda>(shards, rest, n). (shard # shards, entries @ rest, evicted + n)) (snapshot_shards now shards))"

definition index_snapshot_entries :: "u64 \<Rightarrow> AvailabilityIndex \<Rightarrow> (AvailabilityIndex \<times> PersistedEntry list) option" where
  "index_snapshot_entries now idx =
     map_option (\<lambda>(shards, entries, evicted). (idx\<lparr>ai_shards := shards\<rparr>, entries)) (snapshot_shards now (ai_shards idx))"

section \<open>Writing the file\<close>

definition write_identity :: "bytes \<Rightarrow> AvailabilityIdentity \<Rightarrow> SnapshotError + bytes" where
  "write_identity data i =
     (let host = as_host i in
      if 2 ^ 32 \<le> length host then Err HostTooLong
      else Ok (data @ u32_to_le (word_of_nat (length host)) @ host))"

definition write_message_key :: "bytes \<Rightarrow> bytes \<Rightarrow> SnapshotError + bytes" where
  "write_message_key data key =
     (if \<not> (1 \<le> length key \<and> length key \<le> MAX_MESSAGE_ID_BYTES) then Err InvalidKeyLength
      else Ok (data @ u16_to_le (word_of_nat (length key)) @ key))"

text \<open>On a 64-bit target \<open>availability_bits_to_wire\<close> and \<open>availability_bits_from_wire\<close> cannot fail.\<close>

definition availability_bits_to_wire :: "usize \<Rightarrow> SnapshotError + u64" where
  "availability_bits_to_wire bits = Ok bits"

definition availability_bits_from_wire :: "u64 \<Rightarrow> SnapshotError + usize" where
  "availability_bits_from_wire bits = Ok bits"

fun write_snapshot_identities :: "AvailabilityIdentity list \<Rightarrow> bytes \<Rightarrow> SnapshotError + bytes" where
  "write_snapshot_identities [] data = Ok data"
| "write_snapshot_identities (i # is) data = and_then (write_identity data i) (write_snapshot_identities is)"

definition write_entry :: "PersistedEntry \<Rightarrow> bytes \<Rightarrow> SnapshotError + bytes" where
  "write_entry e data =
     and_then (write_message_key (data @ u64_to_le (pe_hash e) @ u16_to_le (pe_tag e)) (pe_key e)) (\<lambda>data.
     and_then (availability_bits_to_wire (pe_missing e)) (\<lambda>missing.
       Ok (data @ u64_to_le missing @ u64_to_le (pe_inserted_at e))))"

fun write_entries :: "PersistedEntry list \<Rightarrow> bytes \<Rightarrow> SnapshotError + bytes" where
  "write_entries [] data = Ok data"
| "write_entries (e # es) data = and_then (write_entry e data) (write_entries es)"

definition snapshot_bytes :: "AvailabilityIdentity list \<Rightarrow> PersistedEntry list \<Rightarrow> SnapshotError + bytes" where
  "snapshot_bytes identities entries =
     and_then (write_snapshot_identities identities (PERSISTENCE_MAGIC @ u64_to_le (word_of_nat (length identities)))) (\<lambda>data.
       write_entries entries (data @ u64_to_le (word_of_nat (length entries))))"

text \<open>
  The outcome of a save is the new content of the file or an error; the directory is created before the
  index is read, and the file is replaced after it. \<open>None\<close> is the panic of the snapshot.
\<close>

definition save_to_path :: "bool \<Rightarrow> bool \<Rightarrow> u64 \<Rightarrow> AvailabilityIndex \<Rightarrow> (AvailabilityIndex \<times> (SnapshotError + bytes)) option" where
  "save_to_path directory_ok write_ok now idx =
     (if \<not> directory_ok then Some (idx, Err SnapshotIo)
      else map_option (\<lambda>(idx, entries).
             (idx, and_then (snapshot_bytes (al_identities (ai_layout idx)) entries) (\<lambda>data.
                if write_ok then Ok data else Err SnapshotIo)))
           (index_snapshot_entries now idx))"

section \<open>Reading the file\<close>

definition snapshot_read_u16 :: "bytes \<Rightarrow> nat \<Rightarrow> SnapshotError + (u16 \<times> nat)" where
  "snapshot_read_u16 data cursor =
     (case slice_get cursor (cursor + 2) data of
        None \<Rightarrow> Err TruncatedSnapshot | Some bs \<Rightarrow> Ok (u16_from_le bs, cursor + 2))"

definition snapshot_read_u32 :: "bytes \<Rightarrow> nat \<Rightarrow> SnapshotError + (u32 \<times> nat)" where
  "snapshot_read_u32 data cursor =
     (case slice_get cursor (cursor + 4) data of
        None \<Rightarrow> Err TruncatedSnapshot | Some bs \<Rightarrow> Ok (u32_from_le bs, cursor + 4))"

definition snapshot_read_u64 :: "bytes \<Rightarrow> nat \<Rightarrow> SnapshotError + (u64 \<times> nat)" where
  "snapshot_read_u64 data cursor =
     (case slice_get cursor (cursor + 8) data of
        None \<Rightarrow> Err TruncatedSnapshot | Some bs \<Rightarrow> Ok (u64_from_le bs, cursor + 8))"

definition snapshot_read_string :: "bytes \<Rightarrow> nat \<Rightarrow> SnapshotError + (bytes \<times> nat)" where
  "snapshot_read_string data cursor =
     and_then (snapshot_read_u32 data cursor) (\<lambda>(len, cursor).
       if MAX_IDENTITY_FIELD_BYTES < unat len then Err SnapshotFieldTooLong
       else case slice_get cursor (cursor + unat len) data of
              None \<Rightarrow> Err TruncatedSnapshot
            | Some bs \<Rightarrow>
                (case from_utf8 bs of
                   None \<Rightarrow> Err InvalidSnapshotUtf8
                 | Some s \<Rightarrow> if s = [] then Err EmptySnapshotField else Ok (s, cursor + unat len)))"

definition read_identity :: "bytes \<Rightarrow> nat \<Rightarrow> SnapshotError + (AvailabilityIdentity \<times> nat)" where
  "read_identity data cursor =
     and_then (snapshot_read_string data cursor) (\<lambda>(host, cursor).
       case from_persisted_host host of Inl e \<Rightarrow> Err (InvalidIdentity e) | Inr i \<Rightarrow> Ok (i, cursor))"

definition read_message_key :: "bytes \<Rightarrow> nat \<Rightarrow> SnapshotError + (bytes \<times> nat)" where
  "read_message_key data cursor =
     and_then (snapshot_read_u16 data cursor) (\<lambda>(len, cursor).
       if \<not> (1 \<le> unat len \<and> unat len \<le> MAX_MESSAGE_ID_BYTES) then Err InvalidKeyLength
       else case slice_get cursor (cursor + unat len) data of
              None \<Rightarrow> Err TruncatedSnapshot
            | Some bs \<Rightarrow>
                (case from_utf8 bs of None \<Rightarrow> Err InvalidSnapshotUtf8 | Some s \<Rightarrow> Ok (s, cursor + unat len)))"

fun read_snapshot_identities :: "nat \<Rightarrow> bytes \<Rightarrow> nat \<Rightarrow> SnapshotError + (AvailabilityIdentity list \<times> nat)" where
  "read_snapshot_identities 0 data cursor = Ok ([], cursor)"
| "read_snapshot_identities (Suc n) data cursor =
     and_then (read_identity data cursor) (\<lambda>(i, cursor).
     and_then (read_snapshot_identities n data cursor) (\<lambda>(is, cursor). Ok (i # is, cursor)))"

definition identity_mask :: "nat \<Rightarrow> usize" where
  "identity_mask identity_count = (if identity_count = 64 then - 1 else push_bit identity_count 1 - 1)"

definition read_entry :: "nat \<Rightarrow> bytes \<Rightarrow> nat \<Rightarrow> SnapshotError + (PersistedEntry \<times> nat)" where
  "read_entry identity_count data cursor =
     and_then (snapshot_read_u64 data cursor) (\<lambda>(h, cursor).
     and_then (snapshot_read_u16 data cursor) (\<lambda>(tag, cursor).
     and_then (read_message_key data cursor) (\<lambda>(key, cursor).
     and_then (snapshot_read_u64 data cursor) (\<lambda>(missing_wire, cursor).
       if missing_wire AND NOT (identity_mask identity_count) \<noteq> 0 then Err BitsExceedIdentities
       else and_then (availability_bits_from_wire missing_wire) (\<lambda>missing.
            and_then (snapshot_read_u64 data cursor) (\<lambda>(inserted_at, cursor).
              Ok (\<lparr>pe_hash = h, pe_tag = tag, pe_key = key, pe_missing = missing, pe_inserted_at = inserted_at\<rparr>, cursor)))))))"

fun read_entries :: "nat \<Rightarrow> nat \<Rightarrow> bytes \<Rightarrow> nat \<Rightarrow> SnapshotError + (PersistedEntry list \<times> nat)" where
  "read_entries identity_count 0 data cursor = Ok ([], cursor)"
| "read_entries identity_count (Suc n) data cursor =
     and_then (read_entry identity_count data cursor) (\<lambda>(e, cursor).
     and_then (read_entries identity_count n data cursor) (\<lambda>(es, cursor). Ok (e # es, cursor)))"

definition parse_snapshot :: "bytes \<Rightarrow> SnapshotError + StoredAvailabilitySnapshot option" where
  "parse_snapshot data =
     (if length data < length PERSISTENCE_MAGIC + 8 then Err SnapshotTooShort
      else (let magic = take (length PERSISTENCE_MAGIC) data in
      if magic \<in> set LEGACY_PERSISTENCE_MAGICS then Ok None
      else if magic \<noteq> PERSISTENCE_MAGIC then Err UnknownSnapshotFormat
      else and_then (snapshot_read_u64 data (length PERSISTENCE_MAGIC)) (\<lambda>(identity_count, cursor).
        if 64 < unat identity_count then Err InvalidIdentityCount
        else and_then (read_snapshot_identities (unat identity_count) data cursor) (\<lambda>(identities, cursor).
          if \<not> distinct identities then Err DuplicateSnapshotIdentity
          else and_then (snapshot_read_u64 data cursor) (\<lambda>(entry_count, cursor).
            if (length data - cursor) div (8 + 2 * 2 + 8 + 8) < unat entry_count then Err InvalidEntryCount
            else and_then (read_entries (unat identity_count) (unat entry_count) data cursor) (\<lambda>(entries, cursor).
              if cursor \<noteq> length data then Err TrailingSnapshotBytes
              else Ok (Some \<lparr>st_identities = identities, st_entries = entries\<rparr>)))))))"

section \<open>Restoring a snapshot\<close>

definition restore_entry :: "PersistedEntry \<Rightarrow> nat \<Rightarrow> u64 \<Rightarrow> u64 \<Rightarrow> FilterState \<Rightarrow> FilterState \<times> nat" where
  "restore_entry e block now ttl f =
     (if fs_blocks f = 0 \<or> pe_hash e = 0 \<or> pe_missing e = 0 \<or> ttl \<le> saturating_sub now (pe_inserted_at e) then (f, 0)
      else
        (let interval = fs_interval f; count = length (fs_generations f);
             offset = min (if interval = 0 \<or> interval = - 1 then 0 else unat (saturating_sub now (pe_inserted_at e) div interval))
                        (count - 1);
             i = (fs_current f + count - offset) mod count;
             g = fs_generations f ! i;
             g = g\<lparr>gn_started_at :=
                   (if gn_started_at g = 0 then pe_inserted_at e else min (gn_started_at g) (pe_inserted_at e))\<rparr>;
             (g, outcome) = generation_insert_missing_bits \<lparr>fp_hash = pe_hash e, fp_tag = pe_tag e\<rparr> (pe_key e) (pe_missing e) block g;
             g = (if outcome = Inserted then g\<lparr>gn_occupied := gn_occupied g + 1\<rparr> else g)
         in (f\<lparr>fs_generations := (fs_generations f)[i := g], fs_live := max (fs_live f) (offset + 1)\<rparr>,
             if outcome = Replaced then 1 else 0)))"

definition remap_missing :: "AvailabilityLayout \<Rightarrow> AvailabilityIdentity list \<Rightarrow> usize \<Rightarrow> usize" where
  "remap_missing layout identities stored =
     foldl (\<lambda>bits slot. bits OR slot_bit slot) 0
       (List.map_filter (\<lambda>(position, i). if stored AND push_bit position 1 \<noteq> 0 then slot_for_identity layout i else None)
         (enumerate 0 identities))"

definition restore_step :: "AvailabilityIdentity list \<Rightarrow> u64 \<Rightarrow> AvailabilityIndex \<Rightarrow> PersistedEntry \<Rightarrow> AvailabilityIndex" where
  "restore_step identities now idx e =
     (let mapped = e\<lparr>pe_missing := remap_missing (ai_layout idx) identities (pe_missing e)\<rparr>;
          (i, bucket) = locate_hash idx (pe_hash e);
          shard = ai_shards idx ! i;
          (f, evicted) = restore_entry mapped bucket now (ai_ttl idx) (sh_filter shard)
      in idx\<lparr>ai_shards := (ai_shards idx)[i :=
           shard\<lparr>sh_filter := f, sh_evictions := sh_evictions shard + word_of_nat evicted\<rparr>]\<rparr>)"

definition shard_reset :: "ShardState \<Rightarrow> ShardState" where
  "shard_reset shard =
     \<lparr>sh_filter = filter_reset (sh_filter shard), sh_hits = 0, sh_misses = 0, sh_evictions = 0, sh_initial_misses = 0\<rparr>"

definition shard_reanchor :: "ShardState \<Rightarrow> ShardState" where
  "shard_reanchor shard =
     (if fs_live (sh_filter shard) \<noteq> 0 then shard\<lparr>sh_filter := reanchor_current_generation (sh_filter shard)\<rparr> else shard)"

definition restore_into :: "StoredAvailabilitySnapshot \<Rightarrow> u64 \<Rightarrow> AvailabilityIndex \<Rightarrow> AvailabilityIndex" where
  "restore_into snapshot now idx =
     (let entries = sort_key pe_inserted_at (st_entries snapshot);
          idx = idx\<lparr>ai_shards := map shard_reset (ai_shards idx)\<rparr>;
          idx = foldl (restore_step (st_identities snapshot) now) idx entries;
          idx = idx\<lparr>ai_shards := map shard_reanchor (ai_shards idx)\<rparr>
      in if list_ex (\<lambda>shard. occupied_slots (sh_filter shard) \<noteq> 0) (ai_shards idx) then idx\<lparr>ai_populated := True\<rparr> else idx)"

datatype SnapshotRead = SnapshotAbsent | SnapshotUnreadable | SnapshotData bytes

definition load_from_path :: "SnapshotRead \<Rightarrow> u64 \<Rightarrow> AvailabilityIndex \<Rightarrow> AvailabilityIndex \<times> (SnapshotError + bool)" where
  "load_from_path read now idx =
     (case read of
        SnapshotAbsent \<Rightarrow> (idx, Ok False)
      | SnapshotUnreadable \<Rightarrow> (idx, Err SnapshotIo)
      | SnapshotData data \<Rightarrow>
          (case parse_snapshot data of
             Inl e \<Rightarrow> (idx, Err e)
           | Inr parsed \<Rightarrow>
               (restore_into (case parsed of None \<Rightarrow> snapshot_default | Some snapshot \<Rightarrow> snapshot) now idx, Ok True)))"

section \<open>Readers that stop where the writer stopped\<close>

text \<open>\<open>reads r bs v\<close>: at the start of \<open>bs\<close>, whatever surrounds it, the reader \<open>r\<close> returns \<open>v\<close> and the end of \<open>bs\<close>.\<close>

definition reads :: "(bytes \<Rightarrow> nat \<Rightarrow> 'e + ('a \<times> nat)) \<Rightarrow> bytes \<Rightarrow> 'a \<Rightarrow> bool" where
  "reads r bs v \<longleftrightarrow> (\<forall>pre post. r (pre @ bs @ post) (length pre) = Inr (v, length pre + length bs))"

lemma readsD: "reads r bs v \<Longrightarrow> data = pre @ bs @ post \<Longrightarrow> c = length pre \<Longrightarrow> r data c = Inr (v, c + length bs)"
  by (simp add: reads_def)

lemma reads_bind:
  assumes "reads r bs v" "reads (k v) bs' w"
  shows "reads (\<lambda>data c. and_then (r data c) (\<lambda>(v, c). k v data c)) (bs @ bs') w"
proof -
  have "and_then (r (pre @ (bs @ bs') @ post) (length pre)) (\<lambda>(v, c). k v (pre @ (bs @ bs') @ post) c) =
      Inr (w, length pre + length (bs @ bs'))" for pre post
    using readsD [OF assms(1), of _ pre "bs' @ post"] readsD [OF assms(2), of _ "pre @ bs" post]
    by (simp add: add.assoc)
  then show ?thesis by (simp add: reads_def)
qed

lemma reads_return: "reads (\<lambda>data c. Inr (v, c)) [] v"
  by (simp add: reads_def)

lemma slice_get_at: "slice_get (length pre) (length pre + n) (pre @ bs @ post) = Some bs" if "n = length bs"
  using that by simp

lemma reads_words [simp]:
  "reads snapshot_read_u16 (u16_to_le w) w" "reads snapshot_read_u32 (u32_to_le x) x" "reads snapshot_read_u64 (u64_to_le y) y"
  unfolding reads_def snapshot_read_u16_def snapshot_read_u32_def snapshot_read_u64_def
    slice_get_at [OF length_to_le(1) [symmetric]] slice_get_at [OF length_to_le(2) [symmetric]]
    slice_get_at [OF length_to_le(3) [symmetric]] length_to_le by simp_all

lemma reads_identity:
  assumes "identity_stable i"
  shows "reads read_identity (identity_bytes i) i"
proof -
  have len: "unat (word_of_nat (length (as_host i)) :: u32) = length (as_host i)"
    "length (as_host i) \<le> MAX_IDENTITY_FIELD_BYTES" "as_host i \<noteq> []" "from_utf8 (as_host i) = Some (as_host i)"
    using assms unat_field_length
    by (simp_all add: identity_stable_def MAX_IDENTITY_FIELD_BYTES_def MAX_REGISTRY_FIELD_BYTES_def from_utf8_def)
  have "snapshot_read_string (pre @ identity_bytes i @ post) (length pre) = Inr (as_host i, length pre + length (identity_bytes i))"
    for pre post
    using readsD [OF reads_words(2), of _ pre "word_of_nat (length (as_host i))" "as_host i @ post"] len
      slice_get_at [of _ "as_host i" "pre @ u32_to_le (word_of_nat (length (as_host i)))" post]
    by (simp add: snapshot_read_string_def identity_bytes_def add.assoc)
  then show ?thesis by (simp add: reads_def read_identity_def from_persisted_host_stable [OF assms])
qed

lemma reads_identities:
  assumes "\<forall>i \<in> set is. identity_stable i"
  shows "reads (read_snapshot_identities (length is)) (concat (map identity_bytes is)) is"
  using assms
proof (induction "is")
  case Nil
  then show ?case using reads_return by (simp add: reads_def)
next
  case (Cons i "is")
  have i: "reads read_identity (identity_bytes i) i" by (rule reads_identity) (use Cons.prems in simp)
  have "reads (\<lambda>data c. and_then (read_snapshot_identities (length is) data c) (\<lambda>(is, c). Inr (i # is, c)))
      (concat (map identity_bytes is) @ []) (i # is)"
    by (rule reads_bind [where k = "\<lambda>is data c. Inr (i # is, c)"]) (use Cons reads_return in auto)
  from reads_bind [OF i, of "\<lambda>i data c. and_then (read_snapshot_identities (length is) data c) (\<lambda>(is, c). Inr (i # is, c))", OF this]
  show ?case by (simp add: reads_def)
qed

section \<open>A snapshot is read back as written\<close>

definition entry_ok :: "nat \<Rightarrow> PersistedEntry \<Rightarrow> bool" where
  "entry_ok identity_count e \<longleftrightarrow>
     1 \<le> length (pe_key e) \<and> length (pe_key e) \<le> MAX_MESSAGE_ID_BYTES \<and> utf8_valid (pe_key e) \<and>
     pe_missing e AND NOT (identity_mask identity_count) = 0"

definition entry_bytes :: "PersistedEntry \<Rightarrow> bytes" where
  "entry_bytes e =
     u64_to_le (pe_hash e) @ u16_to_le (pe_tag e) @ (u16_to_le (word_of_nat (length (pe_key e))) @ pe_key e) @
     u64_to_le (pe_missing e) @ u64_to_le (pe_inserted_at e)"

lemma bit_identity_mask: "n \<le> 64 \<Longrightarrow> bit (identity_mask n) m \<longleftrightarrow> m < n"
  by (auto simp: identity_mask_def push_bit_of_1 bit_mask_iff dest: bit_imp_le_length simp flip: mask_eq_exp_minus_1)

lemma within_identity_mask:
  assumes "n \<le> 64" "\<And>m. bit bits m \<Longrightarrow> m < n"
  shows "bits AND NOT (identity_mask n) = 0"
  by (rule bit_eqI) (use assms in \<open>auto simp: bit_simps bit_identity_mask\<close>)

lemma reads_message_key:
  assumes "1 \<le> length key" "length key \<le> MAX_MESSAGE_ID_BYTES" "utf8_valid key"
  shows "reads read_message_key (u16_to_le (word_of_nat (length key)) @ key) key"
proof -
  have len: "unat (word_of_nat (length key) :: u16) = length key"
    using assms(2) by (simp add: MAX_MESSAGE_ID_BYTES_def unat_of_nat)
  have "read_message_key (pre @ (u16_to_le (word_of_nat (length key)) @ key) @ post) (length pre) =
      Inr (key, length pre + length (u16_to_le (word_of_nat (length key)) @ key))" for pre post
    using readsD [OF reads_words(1), of _ pre "word_of_nat (length key)" "key @ post"] len assms
      slice_get_at [of _ key "pre @ u16_to_le (word_of_nat (length key))" post]
    by (simp add: read_message_key_def from_utf8_def add.assoc)
  then show ?thesis by (simp add: reads_def)
qed

lemma reads_entry:
  assumes "entry_ok n e"
  shows "reads (read_entry n) (entry_bytes e) e"
proof -
  let ?h = "u64_to_le (pe_hash e)" and ?t = "u16_to_le (pe_tag e)" and ?m = "u64_to_le (pe_missing e)"
  let ?k = "u16_to_le (word_of_nat (length (pe_key e))) @ pe_key e" and ?i = "u64_to_le (pe_inserted_at e)"
  have key: "reads read_message_key ?k (pe_key e)"
    using assms by (intro reads_message_key) (simp_all add: entry_ok_def)
  have "read_entry n (pre @ entry_bytes e @ post) (length pre) = Inr (e, length pre + length (entry_bytes e))" for pre post
  proof -
    let ?data = "pre @ entry_bytes e @ post" and ?l = "length (pe_key e)"
    have "snapshot_read_u64 ?data (length pre) = Inr (pe_hash e, length pre + 8)"
      using readsD [OF reads_words(3), of ?data pre "pe_hash e"] by (simp add: entry_bytes_def)
    moreover have "snapshot_read_u16 ?data (length pre + 8) = Inr (pe_tag e, length pre + 10)"
      using readsD [OF reads_words(1), of ?data "pre @ ?h" "pe_tag e"] by (simp add: entry_bytes_def)
    moreover have "read_message_key ?data (length pre + 10) = Inr (pe_key e, length pre + 12 + ?l)"
      using readsD [OF key, of ?data "pre @ ?h @ ?t"] by (simp add: entry_bytes_def ac_simps)
    moreover have "snapshot_read_u64 ?data (length pre + 12 + ?l) = Inr (pe_missing e, length pre + 20 + ?l)"
      using readsD [OF reads_words(3), of ?data "pre @ ?h @ ?t @ ?k" "pe_missing e"] by (simp add: entry_bytes_def ac_simps)
    moreover have "snapshot_read_u64 ?data (length pre + 20 + ?l) = Inr (pe_inserted_at e, length pre + 28 + ?l)"
      using readsD [OF reads_words(3), of ?data "pre @ ?h @ ?t @ ?k @ ?m" "pe_inserted_at e"] by (simp add: entry_bytes_def ac_simps)
    ultimately show ?thesis using assms
      by (simp add: read_entry_def availability_bits_from_wire_def entry_ok_def entry_bytes_def)
  qed
  then show ?thesis by (simp add: reads_def)
qed

lemma reads_entries:
  assumes "\<forall>e \<in> set es. entry_ok n e"
  shows "reads (read_entries n (length es)) (concat (map entry_bytes es)) es"
  using assms
proof (induction es)
  case Nil
  then show ?case using reads_return by (simp add: reads_def)
next
  case (Cons e es)
  have e: "reads (read_entry n) (entry_bytes e) e" by (rule reads_entry) (use Cons.prems in simp)
  have "reads (\<lambda>data c. and_then (read_entries n (length es) data c) (\<lambda>(es, c). Inr (e # es, c)))
      (concat (map entry_bytes es) @ []) (e # es)"
    by (rule reads_bind [where k = "\<lambda>es data c. Inr (e # es, c)"]) (use Cons reads_return in auto)
  from reads_bind [OF e, of "\<lambda>e data c. and_then (read_entries n (length es) data c) (\<lambda>(es, c). Inr (e # es, c))", OF this]
  show ?case by (simp add: reads_def)
qed

lemma write_snapshot_identities_eq:
  assumes "\<forall>i \<in> set is. identity_stable i"
  shows "write_snapshot_identities is data = Inr (data @ concat (map identity_bytes is))"
  using assms
proof (induction "is" arbitrary: data)
  case (Cons i "is")
  have "length (as_host i) < 2 ^ 32" using Cons.prems by (simp add: identity_stable_def MAX_REGISTRY_FIELD_BYTES_def)
  then show ?case using Cons by (simp add: write_identity_def identity_bytes_def Let_def)
qed simp

lemma write_entries_eq:
  "\<forall>e \<in> set es. entry_ok n e \<Longrightarrow> write_entries es data = Inr (data @ concat (map entry_bytes es))"
  by (induction es arbitrary: data)
    (simp_all add: write_entry_def write_message_key_def entry_ok_def availability_bits_to_wire_def entry_bytes_def)

lemma entry_bytes_length: "28 \<le> length (entry_bytes e)"
  by (simp add: entry_bytes_def)

lemma entries_bytes_length: "28 * length es \<le> length (concat (map entry_bytes es))"
proof (induction es)
  case (Cons e es)
  then show ?case using entry_bytes_length [of e] by simp
qed simp

lemma parse_snapshot_written:
  assumes "\<forall>i \<in> set is. identity_stable i" "distinct is" "length is \<le> 64"
    and "\<forall>e \<in> set es. entry_ok (length is) e" "length es < 2 ^ 64"
  shows "\<exists>data. snapshot_bytes is es = Inr data \<and> parse_snapshot data = Inr (Some \<lparr>st_identities = is, st_entries = es\<rparr>)"
proof -
  let ?n = "u64_to_le (word_of_nat (length is))" and ?k = "u64_to_le (word_of_nat (length es))"
  let ?I = "concat (map identity_bytes is)" and ?E = "concat (map entry_bytes es)"
  let ?data = "PERSISTENCE_MAGIC @ ?n @ ?I @ ?k @ ?E"
  have magic: "length PERSISTENCE_MAGIC = 8" "PERSISTENCE_MAGIC \<notin> set LEGACY_PERSISTENCE_MAGICS"
    by (simp_all add: PERSISTENCE_MAGIC_def LEGACY_PERSISTENCE_MAGICS_def)
  have n: "unat (word_of_nat (length is) :: u64) = length is" "unat (word_of_nat (length es) :: u64) = length es"
    using assms(3,5) by (simp_all add: unat_of_nat)
  have "snapshot_read_u64 ?data 8 = Inr (word_of_nat (length is), 16)"
    using readsD [OF reads_words(3), of ?data PERSISTENCE_MAGIC] magic by simp
  moreover have "read_snapshot_identities (length is) ?data 16 = Inr (is, 16 + length ?I)"
    using readsD [OF reads_identities [OF assms(1)], of ?data "PERSISTENCE_MAGIC @ ?n"] magic by simp
  moreover have "snapshot_read_u64 ?data (16 + length ?I) = Inr (word_of_nat (length es), 24 + length ?I)"
    using readsD [OF reads_words(3), of ?data "PERSISTENCE_MAGIC @ ?n @ ?I"] magic by simp
  moreover have "read_entries (length is) (length es) ?data (24 + length ?I) = Inr (es, 24 + length ?I + length ?E)"
    using readsD [OF reads_entries [OF assms(4)], of ?data "PERSISTENCE_MAGIC @ ?n @ ?I @ ?k" "[]"] magic by simp
  moreover have "\<not> (length ?data - (24 + length ?I)) div 28 < length es"
    using entries_bytes_length [of es] magic by (simp add: not_less less_eq_div_iff_mult_less_eq mult.commute)
  ultimately have "parse_snapshot ?data = Inr (Some \<lparr>st_identities = is, st_entries = es\<rparr>)"
    using assms(2,3) magic n by (simp add: parse_snapshot_def Let_def)
  moreover have "snapshot_bytes is es = Inr ?data"
    using write_snapshot_identities_eq [OF assms(1)] write_entries_eq [OF assms(4)] by (simp add: snapshot_bytes_def)
  ultimately show ?thesis by blast
qed

text \<open>
  C0. A saved snapshot is read back as it was written: with up to 64 distinct identities whose hosts are
  canonical, valid UTF-8 and of 1 to 1 MiB bytes, and entries whose keys are valid UTF-8 of 1 to 250 bytes
  and whose bits lie within the table of identities, writing succeeds and parsing the file returns the
  same identities and the same entries in the same order.
\<close>

theorem snapshot_roundtrip:
  assumes "\<forall>i \<in> set is. identity_stable i" "distinct is" "length is \<le> 64"
    and "\<forall>e \<in> set es. entry_ok (length is) e" "length es < 2 ^ 64"
  shows "\<exists>data. snapshot_bytes is es = Inr data \<and> parse_snapshot data = Inr (Some \<lparr>st_identities = is, st_entries = es\<rparr>)"
  by (rule parse_snapshot_written [OF assms])

definition sample_entry :: PersistedEntry where
  "sample_entry = \<lparr>pe_hash = 7, pe_tag = 9, pe_key = ''a@b'', pe_missing = 2, pe_inserted_at = 5\<rparr>"

lemma sample_entry_ok: "entry_ok 2 sample_entry"
proof -
  have "bit (2 :: usize) m \<longleftrightarrow> m = 1" for m using bit_slot_bit [of "AvailabilitySlot 1" m] by (auto simp: slot_bit_def)
  then show ?thesis using within_identity_mask [of 2 "2 :: usize"]
    by (simp add: entry_ok_def sample_entry_def MAX_MESSAGE_ID_BYTES_def)
qed

theorem snapshot_roundtrip_witness:
  "\<exists>data. snapshot_bytes [AvailabilityIdentity ''b'', AvailabilityIdentity ''a''] [sample_entry] = Inr data \<and>
     parse_snapshot data =
       Inr (Some \<lparr>st_identities = [AvailabilityIdentity ''b'', AvailabilityIdentity ''a''], st_entries = [sample_entry]\<rparr>)"
  using snapshot_roundtrip [of "[AvailabilityIdentity ''b'', AvailabilityIdentity ''a'']" "[sample_entry]"] identity_stable_ab
    sample_entry_ok [unfolded numeral_2_eq_2] by simp

section \<open>No part of a snapshot is a snapshot\<close>

text \<open>A reader that succeeds does not look past the end of what it reads.\<close>

definition stays :: "(bytes \<Rightarrow> nat \<Rightarrow> 'e + ('a \<times> nat)) \<Rightarrow> bool" where
  "stays r \<longleftrightarrow> (\<forall>data extra c v c'. r data c = Inr (v, c') \<longrightarrow> r (data @ extra) c = Inr (v, c'))"

lemma staysD: "stays r \<Longrightarrow> r data c = Inr (v, c') \<Longrightarrow> r (data @ extra) c = Inr (v, c')"
  by (simp add: stays_def)

lemma stays_return: "stays (\<lambda>data c. Inr (v, c))" "stays (\<lambda>data c. Inl e)"
  by (simp_all add: stays_def)

lemma stays_bind:
  assumes "stays r" "\<And>v. stays (k v)"
  shows "stays (\<lambda>data c. and_then (r data c) (\<lambda>(v, c). k v data c))"
  using assms by (fastforce simp: stays_def and_then_Inr_iff)

lemma slice_get_more: "slice_get a b data = Some bs \<Longrightarrow> slice_get a b (data @ extra) = Some bs"
  by (auto simp: slice_get_def subrange_def split: if_splits)

lemma stays_slice:
  assumes "\<And>bs. stays (\<lambda>data c. k bs c)"
  shows "stays (\<lambda>data c. case slice_get c (c + n) data of None \<Rightarrow> Inl e | Some bs \<Rightarrow> k bs c)"
  using assms by (auto simp: stays_def slice_get_more split: option.split_asm)

lemma stays_words: "stays snapshot_read_u16" "stays snapshot_read_u32" "stays snapshot_read_u64"
  unfolding snapshot_read_u16_def [abs_def] snapshot_read_u32_def [abs_def] snapshot_read_u64_def [abs_def]
  by (rule stays_slice, simp add: stays_def)+

lemma stays_if: "stays r \<Longrightarrow> stays r' \<Longrightarrow> stays (\<lambda>data c. if b then r data c else r' data c)"
  by (simp add: stays_def)

lemma stays_read_identity: "stays read_identity"
proof -
  have "stays snapshot_read_string" unfolding snapshot_read_string_def [abs_def]
    by (intro stays_bind [OF stays_words(2)] stays_if stays_return stays_slice) (auto simp: stays_def split: option.split)
  then show ?thesis unfolding read_identity_def [abs_def] by (rule stays_bind) (auto simp: stays_def split: sum.split)
qed

lemma stays_read_message_key: "stays read_message_key"
  unfolding read_message_key_def [abs_def]
  by (intro stays_bind [OF stays_words(1)] stays_if stays_return stays_slice) (auto simp: stays_def split: option.split)

lemma stays_read_entry: "stays (read_entry n)"
  unfolding read_entry_def [abs_def] availability_bits_from_wire_def and_then_simps
  by (intro stays_bind stays_words stays_if stays_return stays_read_message_key)

lemma stays_read_identities: "stays (read_snapshot_identities n)"
proof (induction n)
  case 0
  then show ?case by (simp add: stays_def)
next
  case (Suc n)
  have "stays (\<lambda>data c. and_then (read_identity data c) (\<lambda>(i, c).
      and_then (read_snapshot_identities n data c) (\<lambda>(is, c). Inr (i # is, c))))"
    by (intro stays_bind stays_read_identity Suc stays_return)
  then show ?case by (simp add: stays_def)
qed

lemma stays_read_entries: "stays (read_entries k n)"
proof (induction n)
  case 0
  then show ?case by (simp add: stays_def)
next
  case (Suc n)
  have "stays (\<lambda>data c. and_then (read_entry k data c) (\<lambda>(e, c).
      and_then (read_entries k n data c) (\<lambda>(es, c). Inr (e # es, c))))"
    by (intro stays_bind stays_read_entry Suc stays_return)
  then show ?case by (simp add: stays_def)
qed

lemma parse_snapshot_Some:
  assumes "parse_snapshot data = Inr (Some snapshot)"
  obtains n "is" k es c c' where "16 \<le> length data" "take 8 data = PERSISTENCE_MAGIC"
    "snapshot_read_u64 data 8 = Inr (n, c)" "unat n \<le> 64" "read_snapshot_identities (unat n) data c = Inr (is, c')" "distinct is"
    "\<exists>c. snapshot_read_u64 data c' = Inr (k, c) \<and> unat k \<le> (length data - c) div 28 \<and>
       read_entries (unat n) (unat k) data c = Inr (es, length data)"
    "snapshot = \<lparr>st_identities = is, st_entries = es\<rparr>"
proof -
  have "length PERSISTENCE_MAGIC = 8" by (simp add: PERSISTENCE_MAGIC_def)
  then show ?thesis using assms that
    by (fastforce simp: parse_snapshot_def Let_def and_then_Inr_iff not_less split: if_splits)
qed

lemma parse_snapshot_longer:
  assumes "parse_snapshot data = Inr (Some snapshot)" "extra \<noteq> []"
  shows "parse_snapshot (data @ extra) = Inl TrailingSnapshotBytes"
proof -
  from assms(1) obtain n "is" k es c c' c'' where d: "16 \<le> length data" "take 8 data = PERSISTENCE_MAGIC"
    "snapshot_read_u64 data 8 = Inr (n, c)" "unat n \<le> 64" "read_snapshot_identities (unat n) data c = Inr (is, c')" "distinct is"
    "snapshot_read_u64 data c' = Inr (k, c'')" "unat k \<le> (length data - c'') div 28"
    "read_entries (unat n) (unat k) data c'' = Inr (es, length data)"
    by (rule parse_snapshot_Some) blast
  have magic: "length PERSISTENCE_MAGIC = 8" "PERSISTENCE_MAGIC \<notin> set LEGACY_PERSISTENCE_MAGICS"
    by (simp_all add: PERSISTENCE_MAGIC_def LEGACY_PERSISTENCE_MAGICS_def)
  have "(length data - c'') div 28 \<le> (length (data @ extra) - c'') div 28" by (intro div_le_mono) simp
  then have k: "\<not> (length (data @ extra) - c'') div 28 < unat k" using d(8) by linarith
  show ?thesis
    using d(1,2,4,6) k magic assms(2) staysD [OF stays_words(3) d(3)] staysD [OF stays_read_identities d(5)]
      staysD [OF stays_words(3) d(7)] staysD [OF stays_read_entries d(9)]
    by (simp add: parse_snapshot_def Let_def)
qed

text \<open>
  C0. A snapshot file is all or nothing: no proper beginning of a file that loads is accepted, so a file
  cut off at any byte is an error and leaves the index as it was, and a file with anything after its last
  entry is rejected too.
\<close>

theorem snapshot_prefix_free:
  assumes "parse_snapshot data = Inr (Some snapshot)"
  shows "(\<forall>n < length data. \<exists>e. load_from_path (SnapshotData (take n data)) now idx = (idx, Inl e)) \<and>
    (\<forall>extra. extra \<noteq> [] \<longrightarrow> load_from_path (SnapshotData (data @ extra)) now idx = (idx, Inl TrailingSnapshotBytes))"
proof -
  have magic: "length PERSISTENCE_MAGIC = 8" by (simp add: PERSISTENCE_MAGIC_def)
  have "\<exists>e. parse_snapshot (take n data) = Inl e" if "n < length data" for n
  proof (cases "parse_snapshot (take n data)")
    case (Inr parsed)
    have "drop n data \<noteq> []" using that by simp
    then have "parsed = None" using parse_snapshot_longer [of "take n data" _ "drop n data"] Inr assms by (cases parsed) auto
    moreover have "16 \<le> n" "take 8 data \<in> set LEGACY_PERSISTENCE_MAGICS" if "parsed = None"
      using Inr that \<open>n < length data\<close> magic
      by (auto simp: parse_snapshot_def Let_def and_then_Inr_iff min_def split: if_splits)
    moreover have "take 8 data = PERSISTENCE_MAGIC" using assms by (rule parse_snapshot_Some) simp
    ultimately show ?thesis by (simp add: PERSISTENCE_MAGIC_def LEGACY_PERSISTENCE_MAGICS_def)
  qed simp
  then show ?thesis using parse_snapshot_longer [OF assms] by (fastforce simp: load_from_path_def)
qed

theorem snapshot_prefix_free_witness:
  "\<exists>data. parse_snapshot data = Inr (Some \<lparr>st_identities = [AvailabilityIdentity ''b''], st_entries = []\<rparr>) \<and>
     (\<forall>n < length data. \<exists>e. load_from_path (SnapshotData (take n data)) 1 (with_layout 20 sample_layout) =
        (with_layout 20 sample_layout, Inl e))"
proof -
  obtain data where d: "parse_snapshot data = Inr (Some \<lparr>st_identities = [AvailabilityIdentity ''b''], st_entries = []\<rparr>)"
    using parse_snapshot_written [of "[AvailabilityIdentity ''b'']" "[]"] identity_stable_ab by auto
  then show ?thesis using snapshot_prefix_free [OF d] by blast
qed

section \<open>What a snapshot contains\<close>

lemma those_total: "(\<And>x. x \<in> set xs \<Longrightarrow> g x \<noteq> None) \<Longrightarrow> those (map g xs) = Some (map (\<lambda>x. the (g x)) xs)"
proof (induction xs)
  case (Cons x xs)
  obtain y where "g x = Some y" using Cons.prems [of x] by auto
  then show ?case using Cons by simp
qed simp

text \<open>An entry has evidence for each of its bits at its time or later, and its time is set and not after \<open>past\<close>.\<close>

definition entry_evidence :: "(u64 \<Rightarrow> bytes \<Rightarrow> nat \<Rightarrow> bool) \<Rightarrow> u64 \<Rightarrow> PersistedEntry \<Rightarrow> bool" where
  "entry_evidence E past e \<longleftrightarrow>
     pe_inserted_at e \<noteq> 0 \<and> pe_inserted_at e \<le> past \<and> pe_missing e \<noteq> 0 \<and>
     (\<forall>m. bit (pe_missing e) m \<longrightarrow> E (pe_inserted_at e) (pe_key e) m)"

lemma generation_entries_ok:
  assumes "gen_ok n E g" "gn_started_at g \<le> past"
  shows "\<exists>es. generation_entries g = Some es \<and> length es \<le> n * 2 \<and> (\<forall>e \<in> set es. entry_evidence E past e)"
proof -
  let ?slots = "List.product [0..<length (gn_blocks g)] [0..<BLOCK_SLOTS]"
  let ?occupied = "filter (\<lambda>(b, s). \<not> (blk_hashes (gn_blocks g ! b) ! s = 0 \<or> blk_missing (gn_blocks g ! b) ! s = 0)) ?slots"
  define entry where "entry = (\<lambda>(b, s). map_option (\<lambda>key.
         \<lparr>pe_hash = blk_hashes (gn_blocks g ! b) ! s, pe_tag = blk_tags (gn_blocks g ! b) ! s, pe_key = key,
          pe_missing = blk_missing (gn_blocks g ! b) ! s, pe_inserted_at = gn_started_at g\<rparr>) (generation_key g b s))"
  have n: "length (gn_blocks g) = n" using assms(1) by (simp add: gen_ok_def)
  have entry: "\<exists>e. entry x = Some e \<and> entry_evidence E past e" if "x \<in> set ?occupied" for x
  proof -
    obtain b s where x: "x = (b, s)" by fastforce
    have bs: "b < n" "s < 2" "blk_hashes (gn_blocks g ! b) ! s \<noteq> 0" "blk_missing (gn_blocks g ! b) ! s \<noteq> 0"
      using that x n by (auto simp: BLOCK_SLOTS_def)
    then obtain k where "generation_key g b s = Some k" using assms(1) by (auto simp: gen_ok_def)
    then show ?thesis using assms bs x by (auto simp: entry_def entry_evidence_def gen_ok_def)
  qed
  have "entry x \<noteq> None" if "x \<in> set ?occupied" for x using entry [OF that] by auto
  then have "those (map entry ?occupied) = Some (map (\<lambda>x. the (entry x)) ?occupied)" by (rule those_total)
  then have "generation_entries g = Some (map (\<lambda>x. the (entry x)) ?occupied)"
    unfolding generation_entries_def entry_def .
  moreover have "length (map (\<lambda>x. the (entry x)) ?occupied) \<le> n * 2"
    using length_filter_le [of "\<lambda>(b, s). \<not> (blk_hashes (gn_blocks g ! b) ! s = 0 \<or> blk_missing (gn_blocks g ! b) ! s = 0)" ?slots] n
    by (simp add: BLOCK_SLOTS_def)
  moreover have "entry_evidence E past e" if e: "e \<in> set (map (\<lambda>x. the (entry x)) ?occupied)" for e
  proof -
    obtain x where "x \<in> set ?occupied" "e = the (entry x)" using e unfolding set_map by blast
    then show ?thesis using entry [of x] by auto
  qed
  ultimately show ?thesis by blast
qed

lemma length_concat_bound: "(\<And>x. x \<in> set xs \<Longrightarrow> length (f x) \<le> k) \<Longrightarrow> length (concat (map f xs)) \<le> length xs * k"
  by (induction xs) (auto simp: add_mono)

lemma filter_snapshot_ok:
  assumes "filter_ok n E past f"
  shows "\<exists>es. filter_snapshot_entries now f = (fst (rotate_if_needed now f), Some es, snd (rotate_if_needed now f)) \<and>
    length es \<le> length (fs_generations f) * (n * 2) \<and> (\<forall>e \<in> set es. entry_evidence E past e)"
proof -
  obtain f' x where r: "rotate_if_needed now f = (f', x)" by fastforce
  have ok: "filter_ok n E past f'" "length (fs_generations f') = length (fs_generations f)"
    using rotate_if_needed_ok [OF assms r] by simp_all
  let ?entries = "\<lambda>i. generation_entries (fs_generations f' ! i)"
  have e: "\<exists>es. ?entries i = Some es \<and> length es \<le> n * 2 \<and> (\<forall>e \<in> set es. entry_evidence E past e)"
    if "i \<in> set (active_generation_indices f')" for i
  proof -
    have "fs_generations f' ! i \<in> set (fs_generations f')" using active_in_range [OF ok(1) that] by simp
    then show ?thesis using ok(1) by (intro generation_entries_ok) (simp_all add: filter_ok_def)
  qed
  let ?es = "concat (map (\<lambda>i. the (?entries i)) (active_generation_indices f'))"
  have "those (map ?entries (active_generation_indices f')) = Some (map (\<lambda>i. the (?entries i)) (active_generation_indices f'))"
    by (rule those_total) (use e in fastforce)
  then have "filter_snapshot_entries now f = (f', Some ?es, x)" using r by (simp add: filter_snapshot_entries_def)
  moreover have "length ?es \<le> length (active_generation_indices f') * (n * 2)"
    by (rule length_concat_bound) (use e in fastforce)
  moreover have "length (active_generation_indices f') \<le> length (fs_generations f)"
    using ok by (simp add: active_generation_indices_def filter_ok_def)
  moreover have "\<forall>e \<in> set ?es. entry_evidence E past e" using e by fastforce
  ultimately show ?thesis using r by (fastforce intro: order_trans mult_le_mono1)
qed

lemma snapshot_shards_ok:
  assumes "\<forall>shard \<in> set shards. \<exists>n. filter_ok n E past (sh_filter shard) \<and> length (fs_generations (sh_filter shard)) * (n * 2) \<le> k"
  shows "\<exists>shards' es e. snapshot_shards now shards = Some (shards', es, e) \<and> length es \<le> length shards * k \<and>
    (\<forall>e \<in> set es. entry_evidence E past e) \<and> length shards' = length shards \<and>
    (\<forall>i < length shards. sh_filter (shards' ! i) = fst (rotate_if_needed now (sh_filter (shards ! i))))"
  using assms
proof (induction shards)
  case (Cons shard shards)
  obtain n where n: "filter_ok n E past (sh_filter shard)" "length (fs_generations (sh_filter shard)) * (n * 2) \<le> k"
    using Cons.prems by auto
  obtain part where p: "filter_snapshot_entries now (sh_filter shard) =
      (fst (rotate_if_needed now (sh_filter shard)), Some part, snd (rotate_if_needed now (sh_filter shard)))"
    "length part \<le> k" "\<forall>e \<in> set part. entry_evidence E past e"
    using filter_snapshot_ok [OF n(1), of now] n(2) by fastforce
  obtain shards' es e where r: "snapshot_shards now shards = Some (shards', es, e)" "length es \<le> length shards * k"
    "\<forall>e \<in> set es. entry_evidence E past e" "length shards' = length shards"
    "\<forall>i < length shards. sh_filter (shards' ! i) = fst (rotate_if_needed now (sh_filter (shards ! i)))"
    using Cons by auto
  then show ?case using p by (auto simp: nth_Cons split: nat.split)
qed simp

text \<open>The sizes of the filters never change, so a snapshot has at most one entry for each slot.\<close>

definition filter_size :: "FilterState \<Rightarrow> nat \<times> nat" where
  "filter_size f = (length (fs_generations f), fs_blocks f)"

definition index_sizes :: "AvailabilityIndex \<Rightarrow> (nat \<times> nat) list" where
  "index_sizes idx = map (\<lambda>shard. filter_size (sh_filter shard)) (ai_shards idx)"

lemma rotate_loop_length: "length (fst (snd (rotate_loop k c gens e))) = length gens"
  by (induction k arbitrary: c gens e) (auto simp: Let_def split: prod.split)

lemma rotate_size: "filter_size (fst (rotate_if_needed now f)) = filter_size f"
  using rotate_loop_length by (simp add: rotate_if_needed_def Let_def filter_size_def filter_reset_def case_prod_unfold)

lemma insert_size: "filter_size (fst (filter_insert_missing_bits fp key bits block now f)) = filter_size f"
  using rotate_size [of now f]
  by (simp add: filter_insert_missing_bits_def Let_def filter_size_def case_prod_unfold ensure_current_generation_started_def)

lemma map_update_same: "f y = f (xs ! i) \<Longrightarrow> map f (xs[i := y]) = map f xs"
  by (cases "i < length xs") (auto simp: list_eq_iff_nth_eq nth_list_update)

lemma index_step_sizes: "index_sizes (index_step H idx x) = index_sizes idx"
proof -
  obtain now op where x: "x = (now, op)" by fastforce
  have lookup: "index_sizes (fst (lookup_by_key H stripe key now idx)) = index_sizes idx" for stripe key
    by (auto simp: lookup_by_key_def Let_def index_sizes_def case_prod_unfold partition_lookup_filter rotate_size
        intro!: map_update_same)
  have "index_sizes (index_insert_missing_bits H key bits now idx) = index_sizes idx" for key bits
    by (auto simp: index_insert_missing_bits_def Let_def index_sizes_def case_prod_unfold partition_record_missing_def insert_size
        intro!: map_update_same)
  moreover have "index_sizes (fst (entry_count now idx)) = index_sizes idx"
    using count_shards_nth [of now "ai_shards idx"]
    by (auto simp: entry_count_def Let_def index_sizes_def case_prod_unfold rotate_size intro!: nth_equalityI)
  ultimately show ?thesis using x lookup
    by (cases op) (auto simp: index_record_availability_missing_def index_get_request_message_id_def split: option.split)
qed

lemma index_run_sizes: "index_sizes (foldl (index_step H) idx ops) = index_sizes idx"
  by (induction ops rule: rev_induct) (simp_all add: index_step_sizes)

lemma with_layout_sizes: "index_sizes (with_layout ttl layout) = replicate 32 (2, 2048)"
proof -
  have "ai_shards (with_layout ttl layout) = map (\<lambda>shard. shard_new (2048 + of_bool (shard < 0)) 2 (rotation_interval ttl 2)) [0..<32]"
    by (simp add: with_layout_def with_geometry_def FIXED_CAPACITY_BYTES_def FIXED_TOTAL_BLOCKS_def
        FIXED_ARTICLE_CAPACITY_def BLOCK_SLOTS_def SIZE_OF_BLOCK_def DEFAULT_GENERATIONS_def DEFAULT_SHARDS_def Let_def max_def min_def)
  then show ?thesis
    by (auto simp: index_sizes_def shard_new_def filter_new_def filter_size_def intro!: nth_equalityI)
qed

lemma index_snapshot_ok:
  assumes "index_ok E past interval idx" "index_sizes idx = replicate 32 (2, 2048)" "now \<noteq> - 1"
  shows "\<exists>idx' es. index_snapshot_entries now idx = Some (idx', es) \<and> index_ok E past interval idx' \<and>
    ai_layout idx' = ai_layout idx \<and> length es \<le> 262144 \<and> (\<forall>e \<in> set es. entry_evidence E past e)"
proof -
  let ?s = "ai_shards idx"
  have len: "length ?s = 32" using arg_cong [OF assms(2), of length] by (simp add: index_sizes_def)
  have size: "filter_size (sh_filter (?s ! i)) = (2, 2048)" if "i < 32" for i
    using arg_cong [OF assms(2), of "\<lambda>xs. xs ! i"] that len by (simp add: index_sizes_def)
  have ok: "shard_ok (shard_blocks idx i) E past interval (sh_filter (?s ! i))" if "i < 32" for i
    using assms(1) that len by (simp add: index_ok_def)
  have "\<exists>n. filter_ok n E past (sh_filter shard) \<and> length (fs_generations (sh_filter shard)) * (n * 2) \<le> 8192"
    if shard: "shard \<in> set ?s" for shard
  proof -
    obtain i where i: "i < 32" "shard = ?s ! i" using shard len by (auto simp: in_set_conv_nth)
    have f: "filter_ok (shard_blocks idx i) E past (sh_filter shard)" using ok i by (simp add: shard_ok_def)
    then have "shard_blocks idx i = 2048 \<and> length (fs_generations (sh_filter shard)) = 2"
      using size [OF i(1)] i(2) by (simp add: filter_size_def filter_ok_def)
    then show ?thesis using f by (intro exI [of _ "shard_blocks idx i"]) simp
  qed
  from snapshot_shards_ok [of ?s, OF ballI, OF this, of now]
  obtain shards' es e where s: "snapshot_shards now ?s = Some (shards', es, e)" "length es \<le> 262144"
    "\<forall>e \<in> set es. entry_evidence E past e" "length shards' = 32"
    "\<forall>i < 32. sh_filter (shards' ! i) = fst (rotate_if_needed now (sh_filter (?s ! i)))"
    using len by auto
  have "shard_ok (shard_blocks idx i) E past interval (sh_filter (shards' ! i))" if "i < 32" for i
    using rotate_shard_ok [OF ok [OF that] prod.collapse [symmetric] assms(3)] s(5) that by simp
  then have "index_ok E past interval (idx\<lparr>ai_shards := shards'\<rparr>)"
    using assms(1) s(4) len by (auto simp: index_ok_def shard_blocks_def)
  then show ?thesis using s by (simp add: index_snapshot_entries_def)
qed

section \<open>What a restoration puts into an index\<close>

lemma bit_remap_missing:
  "bit (remap_missing layout identities stored) m \<longleftrightarrow>
     m < 64 \<and> (\<exists>p < length identities. bit stored p \<and> slot_for_identity layout (identities ! p) = Some (AvailabilitySlot m))"
proof -
  have fold: "bit (foldl (\<lambda>bits slot. bits OR slot_bit slot) a slots) m \<longleftrightarrow> bit a m \<or> (m < 64 \<and> AvailabilitySlot m \<in> set slots)" for a slots
  proof (induction slots arbitrary: a)
    case (Cons slot slots)
    then show ?case by (cases slot) (auto simp: bit_or_iff bit_slot_bit)
  qed simp
  have set: "AvailabilitySlot m \<in> set (List.map_filter (\<lambda>(p, i). if stored AND push_bit p 1 \<noteq> 0 then slot_for_identity layout i else None)
      (enumerate 0 identities)) \<longleftrightarrow>
    (\<exists>p < length identities. stored AND push_bit p 1 \<noteq> 0 \<and> slot_for_identity layout (identities ! p) = Some (AvailabilitySlot m))"
    by (force simp: List.map_filter_def in_set_enumerate_eq image_iff)
  have "stored AND push_bit p 1 \<noteq> 0 \<longleftrightarrow> bit stored p" for p
    using bit_iff_and_push_bit_not_eq_0 [of stored p] by simp
  then show ?thesis unfolding remap_missing_def fold set by simp
qed

lemma gen_ok_earlier:
  assumes "gen_ok n E g" "\<And>s s' k m. E s k m \<Longrightarrow> s' \<le> s \<Longrightarrow> E s' k m" "t \<noteq> 0" "gn_started_at g = 0 \<or> t \<le> gn_started_at g"
  shows "gen_ok n E (g\<lparr>gn_started_at := t\<rparr>)"
proof (cases "gn_started_at g = 0")
  case True
  then show ?thesis by (rule gen_ok_unstarted [OF assms(1)])
next
  case False
  then have "t \<le> gn_started_at g" using assms(4) by blast
  then have "E t k m" if "E (gn_started_at g) k m" for k m using assms(2) that by blast
  then show ?thesis using assms(1,3) by (simp add: gen_ok_def generation_key_def)
qed

text \<open>
  The generation an entry is restored into, and the state of a filter while a snapshot is restored: the
  first generation holds what is less than one interval old, the second what is older.
\<close>

definition restore_offset :: "u64 \<Rightarrow> PersistedEntry \<Rightarrow> FilterState \<Rightarrow> nat" where
  "restore_offset now e f =
     min (if fs_interval f = 0 \<or> fs_interval f = - 1 then 0 else unat (saturating_sub now (pe_inserted_at e) div fs_interval f))
       (length (fs_generations f) - 1)"

definition restore_index :: "u64 \<Rightarrow> PersistedEntry \<Rightarrow> FilterState \<Rightarrow> nat" where
  "restore_index now e f =
     (fs_current f + length (fs_generations f) - restore_offset now e f) mod length (fs_generations f)"

definition restored_start :: "u64 \<Rightarrow> PersistedEntry \<Rightarrow> FilterState \<Rightarrow> u64" where
  "restored_start now e f =
     (let s = gn_started_at (fs_generations f ! restore_index now e f)
      in if s = 0 then pe_inserted_at e else min s (pe_inserted_at e))"

lemma restore_entry_cases:
  obtains (skip) "restore_entry e block now ttl f = (f, 0)"
  | (place) g x where "saturating_sub now (pe_inserted_at e) < ttl" "pe_hash e \<noteq> 0"
      "fst (restore_entry e block now ttl f) =
         f\<lparr>fs_generations := (fs_generations f)[restore_index now e f := g\<lparr>gn_occupied := x\<rparr>],
           fs_live := max (fs_live f) (restore_offset now e f + 1)\<rparr>"
      "g = fst (generation_insert_missing_bits \<lparr>fp_hash = pe_hash e, fp_tag = pe_tag e\<rparr> (pe_key e) (pe_missing e) block
         ((fs_generations f ! restore_index now e f)\<lparr>gn_started_at := restored_start now e f\<rparr>))"
proof (cases "fs_blocks f = 0 \<or> pe_hash e = 0 \<or> pe_missing e = 0 \<or> ttl \<le> saturating_sub now (pe_inserted_at e)")
  case True
  then show ?thesis by (intro skip) (simp add: restore_entry_def)
next
  case False
  let ?i = "generation_insert_missing_bits \<lparr>fp_hash = pe_hash e, fp_tag = pe_tag e\<rparr> (pe_key e) (pe_missing e) block
         ((fs_generations f ! restore_index now e f)\<lparr>gn_started_at := restored_start now e f\<rparr>)"
  obtain g outcome where g: "?i = (g, outcome)" by fastforce
  have "fst (restore_entry e block now ttl f) =
      f\<lparr>fs_generations := (fs_generations f)[restore_index now e f :=
          (if outcome = Inserted then g\<lparr>gn_occupied := gn_occupied g + 1\<rparr> else g)],
        fs_live := max (fs_live f) (restore_offset now e f + 1)\<rparr>"
    using False g unfolding restore_entry_def restore_index_def restored_start_def restore_offset_def Let_def
    by simp
  moreover have "g = g\<lparr>gn_occupied := gn_occupied g\<rparr>" by simp
  ultimately show ?thesis using False g
    by (cases "outcome = Inserted")
      (auto intro: place [of "gn_occupied g + 1" g] place [of "gn_occupied g" g] simp: not_le)
qed

lemma restore_index_less: "fs_generations f \<noteq> [] \<Longrightarrow> restore_index now e f < length (fs_generations f)"
  by (simp add: restore_index_def)

lemma restored_start_bound:
  assumes "pe_inserted_at e \<noteq> 0"
  shows "restored_start now e f \<noteq> 0" "restored_start now e f \<le> pe_inserted_at e"
    "gn_started_at (fs_generations f ! restore_index now e f) = 0 \<or>
       restored_start now e f \<le> gn_started_at (fs_generations f ! restore_index now e f)"
  using assms by (auto simp: restored_start_def Let_def min_def)

lemma restore_entry_ok:
  assumes "filter_ok n E now f" "\<And>s s' k m. E s k m \<Longrightarrow> s' \<le> s \<Longrightarrow> E s' k m" "block < n"
    and "pe_inserted_at e \<noteq> 0" "pe_inserted_at e \<le> now" "\<And>m. bit (pe_missing e) m \<Longrightarrow> E (pe_inserted_at e) (pe_key e) m"
  shows "filter_ok n E now (fst (restore_entry e block now ttl f))"
proof (cases rule: restore_entry_cases [where e = e and block = block and now = now and ttl = ttl and f = f])
  case skip
  then show ?thesis using assms(1) by simp
next
  case (place g x)
  let ?i = "restore_index now e f" and ?s = "restored_start now e f"
  have f: "fs_generations f \<noteq> []" "\<forall>g \<in> set (fs_generations f). gen_ok n E g \<and> gn_started_at g \<le> now"
    using assms(1) by (simp_all add: filter_ok_def)
  note i = restore_index_less [OF f(1), where now = now and e = e] and s = restored_start_bound [OF assms(4), where now = now and f = f]
  have "gen_ok n E ((fs_generations f ! ?i)\<lparr>gn_started_at := ?s\<rparr>)"
    by (rule gen_ok_earlier [OF _ assms(2) s(1,3)]) (use f i in auto)
  then have "gen_ok n E g" unfolding place(4)
    by (rule generation_insert_ok [OF _ assms(3)]) (use s place(2) assms(2) [OF assms(6)] in auto)
  moreover have "gn_started_at g = ?s" unfolding place(4) by simp
  ultimately have "gen_ok n E (g\<lparr>gn_occupied := x\<rparr>) \<and> gn_started_at (g\<lparr>gn_occupied := x\<rparr>) \<le> now"
    using s(2) assms(5) by auto
  then have "\<forall>h \<in> set ((fs_generations f)[?i := g\<lparr>gn_occupied := x\<rparr>]). gen_ok n E h \<and> gn_started_at h \<le> now"
    using f(2) set_update_subset_insert by fastforce
  moreover have "restore_offset now e f + 1 \<le> length (fs_generations f)"
    using f(1) by (cases "fs_generations f") (auto simp: restore_offset_def)
  ultimately show ?thesis using assms(1) i unfolding place(3) by (auto simp: filter_ok_def)
qed

definition restoring :: "u64 \<Rightarrow> u64 \<Rightarrow> FilterState \<Rightarrow> bool" where
  "restoring now ttl f \<longleftrightarrow>
     length (fs_generations f) = 2 \<and> fs_current f = 0 \<and> fs_interval f \<noteq> 0 \<and> fs_interval f \<noteq> - 1 \<and> fs_blocks f \<noteq> 0 \<and> fs_live f \<le> 2 \<and>
     (current_start f \<noteq> 0 \<longrightarrow> current_start f \<le> unat now \<and> unat now < current_start f + unat (fs_interval f) \<and> fs_live f \<noteq> 0) \<and>
     (other_start f \<noteq> 0 \<longrightarrow> other_start f + unat (fs_interval f) \<le> unat now \<and> unat now < other_start f + unat ttl \<and> fs_live f = 2)"

lemma restore_entry_restoring:
  assumes "restoring now ttl f" "pe_inserted_at e \<noteq> 0" "pe_inserted_at e \<le> now"
  shows "restoring now ttl (fst (restore_entry e block now ttl f))"
proof (cases rule: restore_entry_cases [where e = e and block = block and now = now and ttl = ttl and f = f])
  case skip
  then show ?thesis using assms(1) by simp
next
  case (place g x)
  let ?t = "pe_inserted_at e" and ?I = "unat (fs_interval f)" and ?f = "fst (restore_entry e block now ttl f)"
  have f: "length (fs_generations f) = 2" "fs_current f = 0" "fs_interval f \<noteq> 0" "fs_interval f \<noteq> - 1"
    using assms(1) by (simp_all add: restoring_def)
  have "0 < ?I" using f(3) by (simp add: unat_gt_0)
  then have "(unat now - unat ?t) div ?I = 0 \<longleftrightarrow> unat now - unat ?t < ?I" by (simp add: div_eq_0_iff)
  then have o: "restore_offset now e f = (if unat now - unat ?t < ?I then 0 else 1)"
    using f by (auto simp: restore_offset_def unat_div unat_saturating_sub min_def)
  have age: "unat now - unat ?t < unat ttl" "unat ?t \<le> unat now" "0 < unat ?t"
    using place(1) assms(2,3) by (simp_all add: word_less_nat_alt unat_saturating_sub word_le_nat_alt unat_gt_0)
  have s: "gn_started_at g = restored_start now e f" unfolding place(4) by simp
  have i: "restore_index now e f = restore_offset now e f" using f o by (simp add: restore_index_def)
  have st: "unat (restored_start now e f) =
      (let s = unat (gn_started_at (fs_generations f ! restore_offset now e f)) in if s = 0 then unat ?t else min s (unat ?t))"
    by (simp add: restored_start_def Let_def i min_def word_le_nat_alt unat_eq_0)
  have frame: "fs_interval ?f = fs_interval f" "fs_blocks ?f = fs_blocks f" "fs_current ?f = 0" "length (fs_generations ?f) = 2"
    "fs_live ?f = max (fs_live f) (restore_offset now e f + 1)"
    using f unfolding place(3) by simp_all
  show ?thesis
  proof (cases "unat now - unat ?t < ?I")
    case True
    then have "current_start ?f = (if current_start f = 0 then unat ?t else min (current_start f) (unat ?t))"
      "other_start ?f = other_start f"
      using f o s i st unfolding place(3) by (simp_all add: current_start_def other_start_def Let_def)
    then show ?thesis using assms(1) True age frame o by (auto simp: restoring_def min_def max_def)
  next
    case False
    then have "other_start ?f = (if other_start f = 0 then unat ?t else min (other_start f) (unat ?t))"
      "current_start ?f = current_start f"
      using f o s i st unfolding place(3) by (simp_all add: current_start_def other_start_def Let_def)
    then show ?thesis using assms(1) False age frame o by (auto simp: restoring_def min_def max_def)
  qed
qed

lemma reanchor_retain:
  assumes "restoring now ttl f" "unat ttl \<le> 2 * unat (fs_interval f) + 1"
  shows "retain (if fs_live f \<noteq> 0 then reanchor_current_generation f else f)"
proof -
  obtain a b where gens: "fs_generations f = [a, b]"
    using assms(1) by (auto simp: restoring_def numeral_2_eq_2 length_Suc_conv)
  let ?I = "unat (fs_interval f)"
  have f: "fs_current f = 0" "fs_interval f \<noteq> 0" "fs_interval f \<noteq> - 1" "fs_blocks f \<noteq> 0"
    using assms(1) by (simp_all add: restoring_def)
  have s: "current_start f = unat (gn_started_at a)" "other_start f = unat (gn_started_at b)"
    using gens f by (simp_all add: current_start_def other_start_def)
  have due: "unat (rotation_due (fs_interval f) t) \<le> unat t + ?I" "t \<noteq> 0 \<Longrightarrow> rotation_due (fs_interval f) t \<noteq> 0" for t
  proof -
    have t: "unat t < 2 ^ 64" using unsigned_less [of t] by simp
    have r: "unat (rotation_due (fs_interval f) t) = min (unat t + ?I) (2 ^ 64 - 1)"
      using f by (simp add: rotation_due_def unat_saturating_add)
    show "unat (rotation_due (fs_interval f) t) \<le> unat t + ?I" unfolding r by (rule min.cobounded1)
    assume "t \<noteq> 0"
    then have "0 < unat t" by (simp add: unat_gt_0)
    then have "0 < unat (rotation_due (fs_interval f) t)" unfolding r by simp
    then show "rotation_due (fs_interval f) t \<noteq> 0" by (metis unat_0 less_irrefl)
  qed
  have a: "gn_started_at a \<noteq> 0 \<Longrightarrow> unat (gn_started_at a) \<le> unat now \<and> unat now < unat (gn_started_at a) + ?I \<and> fs_live f \<noteq> 0"
    and b: "gn_started_at b \<noteq> 0 \<Longrightarrow> unat (gn_started_at b) + ?I \<le> unat now \<and> unat now < unat (gn_started_at b) + unat ttl \<and> fs_live f = 2"
    using assms(1) s by (simp_all add: restoring_def unat_eq_0)
  consider (first) "gn_started_at a \<noteq> 0" | (second) "gn_started_at a = 0" "gn_started_at b \<noteq> 0"
    | (none) "gn_started_at a = 0" "gn_started_at b = 0" by blast
  then show ?thesis
  proof cases
    case first
    have "\<not> gn_started_at a \<le> gn_started_at b" if "gn_started_at b \<noteq> 0" using a [OF first] b [OF that] by (simp add: word_le_nat_alt)
    then have r: "reanchor_current_generation f = f\<lparr>fs_current := 0, fs_next_rotation_at := rotation_due (fs_interval f) (gn_started_at a)\<rparr>"
      using gens first by (simp add: reanchor_current_generation_def refresh_next_rotation_at_def)
    have "unat (rotation_due (fs_interval f) (gn_started_at a)) \<le> unat (gn_started_at b) + 3 * ?I" if "gn_started_at b \<noteq> 0"
      using due(1) [of "gn_started_at a"] a [OF first] b [OF that] assms(2) by linarith
    then show ?thesis using r gens f first a [OF first] b due [of "gn_started_at a"]
      by (auto simp: retain_def current_start_def other_start_def unat_eq_0)
  next
    case second
    then have r: "reanchor_current_generation f = f\<lparr>fs_current := 1, fs_next_rotation_at := rotation_due (fs_interval f) (gn_started_at b)\<rparr>"
      using gens by (simp add: reanchor_current_generation_def refresh_next_rotation_at_def)
    then show ?thesis using gens f second b [OF second(2)] due [of "gn_started_at b"]
      by (auto simp: retain_def current_start_def other_start_def unat_eq_0)
  next
    case none
    then show ?thesis using gens f
      by (simp add: retain_def current_start_def other_start_def unat_eq_0 reanchor_current_generation_def)
  qed
qed

end
